(* ===== verification/GoPrelude.thy ===== *)
theory GoPrelude
  imports Main "HOL-Library.Word" "HOL-Library.Code_Target_Nat"
begin

unbundle bit_operations_syntax

text \<open>
  The vocabulary every component shares: Go's \<open>byte\<close> and \<open>[]byte\<close>, the big-endian codecs of
  \<open>encoding/binary\<close>, the conversion between Go strings and byte slices, and the shape of an
  operation that threads the state of a connection and may fail or never return.

  A Go string is a sequence of bytes, which is what a HOL \<open>string\<close> is; \<open>string_bytes\<close> and
  \<open>bytes_string\<close> are the conversions \<open>[]byte(s)\<close> and \<open>string(b)\<close>.
\<close>

type_synonym byte = "8 word"
type_synonym bytes = "8 word list"

named_theorems codec_simps \<open>equations that turn an encoder followed by its decoder into the value\<close>
named_theorems io_simps \<open>evaluation rules for stateful operations\<close>

subsection \<open>Strings and byte slices\<close>

definition string_bytes :: "string \<Rightarrow> bytes" where
  "string_bytes s = map (\<lambda>c. of_nat (of_char c)) s"

definition bytes_string :: "bytes \<Rightarrow> string" where
  "bytes_string b = map (\<lambda>w. char_of (unat w)) b"

lemma of_char_less_256 [simp]: "(of_char c :: nat) < 256"
  using nat_of_char_less_256 [of c] by simp

lemma unat_less_256 [simp]: "unat (w :: byte) < 256"
proof -
  have "unat w < 2 ^ LENGTH(8)" by (rule unsigned_less)
  then show ?thesis by simp
qed

lemma unat_of_nat_byte: "unat (of_nat n :: byte) = n mod 256"
  by (simp add: unat_of_nat)

lemma bytes_string_bytes [simp, codec_simps]: "bytes_string (string_bytes s) = s"
  by (induction s) (simp_all add: bytes_string_def string_bytes_def unat_of_nat_byte)

lemma string_bytes_string [simp, codec_simps]: "string_bytes (bytes_string b) = b"
  by (induction b) (simp_all add: bytes_string_def string_bytes_def)

lemma length_string_bytes [simp]: "length (string_bytes s) = length s"
  by (simp add: string_bytes_def)

lemma length_bytes_string [simp]: "length (bytes_string b) = length b"
  by (simp add: bytes_string_def)

lemma string_bytes_Nil [simp]: "string_bytes s = [] \<longleftrightarrow> s = []"
  by (simp add: string_bytes_def)

lemma string_bytes_empty [simp]: "string_bytes [] = []"
  by (simp add: string_bytes_def)

lemma bytes_string_empty [simp]: "bytes_string [] = []"
  by (simp add: bytes_string_def)

lemma string_bytes_append [simp]: "string_bytes (s @ t) = string_bytes s @ string_bytes t"
  by (simp add: string_bytes_def)

lemma string_bytes_inject [simp]: "string_bytes s = string_bytes t \<longleftrightarrow> s = t"
  by (metis bytes_string_bytes)

subsection \<open>Big-endian integers\<close>

text \<open>
  \<open>put_be k n\<close> are the low \<open>k\<close> bytes of \<open>n\<close>, most significant first; \<open>get_be\<close> reads such a
  slice. \<open>binary.BigEndian.PutUint16(b, uint16(n))\<close> is \<open>put_be 2 n\<close>: both keep \<open>n\<close> modulo
  \<open>2 ^ 16\<close>.
\<close>

primrec put_be :: "nat \<Rightarrow> nat \<Rightarrow> bytes" where
  "put_be 0 n = []"
| "put_be (Suc k) n = put_be k (n div 256) @ [of_nat n]"

definition get_be :: "bytes \<Rightarrow> nat" where
  "get_be b = foldl (\<lambda>a w. 256 * a + unat w) 0 b"

lemma get_be_simps [simp]:
  "get_be [] = 0"
  "get_be (b @ [w]) = 256 * get_be b + unat w"
  by (simp_all add: get_be_def)

lemma length_put_be [simp]: "length (put_be k n) = k"
  by (induction k arbitrary: n) simp_all

lemma get_put_be: "get_be (put_be k n) = n mod 256 ^ k"
proof (induction k arbitrary: n)
  case 0
  then show ?case by simp
next
  case (Suc k)
  have "get_be (put_be (Suc k) n) = 256 * (n div 256 mod 256 ^ k) + n mod 256"
    by (simp add: Suc.IH unat_of_nat_byte)
  also have "\<dots> = n mod (256 * 256 ^ k)"
    by (simp add: mod_mult2_eq)
  finally show ?case by simp
qed

lemma get_put_be_id [simp, codec_simps]: "n < 256 ^ k \<Longrightarrow> get_be (put_be k n) = n"
  by (simp add: get_put_be)

lemma get_be_less: "get_be b < 256 ^ length b"
proof (induction b rule: rev_induct)
  case Nil
  then show ?case by simp
next
  case (snoc w b)
  have "unat w < 256" by simp
  moreover have "Suc (get_be b) \<le> 256 ^ length b" using snoc by simp
  ultimately have "256 * get_be b + unat w < 256 * 256 ^ length b" by linarith
  then show ?case by simp
qed

lemma put_get_be [codec_simps]: "put_be (length b) (get_be b) = b"
proof (induction b rule: rev_induct)
  case Nil
  then show ?case by simp
next
  case (snoc w b)
  have "(256 :: byte) = 0" by simp
  then have "of_nat (256 * get_be b + unat w) = w"
    by (simp only: of_nat_add of_nat_mult of_nat_numeral) simp
  with snoc show ?case by simp
qed

lemma put_be_inject: "m < 256 ^ k \<Longrightarrow> n < 256 ^ k \<Longrightarrow> put_be k m = put_be k n \<longleftrightarrow> m = n"
  by (metis get_put_be_id)

lemma put_be_mod: "put_be k (n mod 256 ^ k) = put_be k n"
  using put_get_be [of "put_be k n"] by (simp add: get_put_be)

subsection \<open>64-bit integers\<close>

text \<open>Go's \<open>int\<close> and \<open>time.Duration\<close> wrap at 64 bits; within them a product is exact.\<close>

definition mul64 :: "int \<Rightarrow> int \<Rightarrow> int" where
  "mul64 x y = sint (of_int x * of_int y :: 64 word)"

lemma mul64_exact:
  assumes "- (2 ^ 63) \<le> x * y" "x * y < 2 ^ 63" shows "mul64 x y = x * y"
proof -
  have "mul64 x y = sint (word_of_int (x * y) :: 64 word)" by (simp add: mul64_def)
  also have "\<dots> = signed_take_bit (LENGTH(64) - 1) (x * y)" by (rule sint_sbintrunc')
  finally show ?thesis using assms by (simp add: signed_take_bit_int_eq_self)
qed

subsection \<open>Splitting lists\<close>

lemma take_drop_append:
  "n = length xs \<Longrightarrow> take n (xs @ ys) = xs"
  "n = length xs \<Longrightarrow> drop n (xs @ ys) = ys"
  by simp_all

lemma mod_index_zip:
  "k \<noteq> [] \<Longrightarrow> i mod length k < length k"
  by simp

subsection \<open>Repeating-key XOR\<close>

text \<open>
  \<open>for i := range data { data[i] ^= key[i%len(key)] }\<close>, the loop of the WebSocket mask
  (\<open>transport/wsframe.go\<close>) and of \<open>xorCrypt\<close> (\<open>transport/noise.go\<close>): \<open>xor_from i\<close> is the loop
  from index \<open>i\<close> on.
\<close>

primrec xor_from :: "bytes \<Rightarrow> nat \<Rightarrow> bytes \<Rightarrow> bytes" where
  "xor_from key i [] = []"
| "xor_from key i (d # ds) = (d XOR key ! (i mod length key)) # xor_from key (Suc i) ds"

lemma length_xor_from [simp]: "length (xor_from key i d) = length d"
  by (induction d arbitrary: i) simp_all

lemma xor_from_Nil_iff [simp]: "xor_from key i d = [] \<longleftrightarrow> d = []"
  by (cases d) simp_all

lemma xor_xor_self [simp]: "(a XOR b) XOR b = (a :: 'a :: len word)"
  by (simp add: xor.assoc)

lemma xor_from_involution [simp, codec_simps]: "xor_from key i (xor_from key i d) = d"
  by (induction d arbitrary: i) simp_all

lemma xor_from_nth:
  "j < length d \<Longrightarrow> xor_from key i d ! j = d ! j XOR key ! ((i + j) mod length key)"
proof (induction d arbitrary: i j)
  case Nil
  then show ?case by simp
next
  case (Cons x d)
  then show ?case by (cases j) simp_all
qed

subsection \<open>Stateful operations\<close>

text \<open>
  An operation on a state \<open>'c\<close> (a connection, a socket): \<open>None\<close> when it never returns (it
  blocks for ever, or loops), otherwise the new state and an error or a value.
\<close>

type_synonym ('c, 'e, 'a) io = "'c \<Rightarrow> ('c \<times> ('e + 'a)) option"

definition io_return :: "'a \<Rightarrow> ('c, 'e, 'a) io" where
  "io_return a = (\<lambda>c. Some (c, Inr a))"

definition io_fail :: "'e \<Rightarrow> ('c, 'e, 'a) io" where
  "io_fail e = (\<lambda>c. Some (c, Inl e))"

definition io_bind :: "('c, 'e, 'a) io \<Rightarrow> ('a \<Rightarrow> ('c, 'e, 'b) io) \<Rightarrow> ('c, 'e, 'b) io" where
  "io_bind m f = (\<lambda>c. case m c of
      None \<Rightarrow> None
    | Some (c', Inl e) \<Rightarrow> Some (c', Inl e)
    | Some (c', Inr a) \<Rightarrow> f a c')"

text \<open>\<open>fmt.Errorf("...: %w", err)\<close>: an error of the callee becomes the cause of the caller's.\<close>

definition io_wrap :: "('d \<Rightarrow> 'e) \<Rightarrow> ('c, 'd, 'a) io \<Rightarrow> ('c, 'e, 'a) io" where
  "io_wrap g m = (\<lambda>c. case m c of
      None \<Rightarrow> None
    | Some (c', Inl e) \<Rightarrow> Some (c', Inl (g e))
    | Some (c', Inr a) \<Rightarrow> Some (c', Inr a))"

lemma io_return_apply [simp, io_simps]: "io_return a c = Some (c, Inr a)"
  by (simp add: io_return_def)

lemma io_fail_apply [simp, io_simps]: "io_fail e c = Some (c, Inl e)"
  by (simp add: io_fail_def)

lemma io_bind_None [simp, io_simps]: "m c = None \<Longrightarrow> io_bind m f c = None"
  by (simp add: io_bind_def)

lemma io_bind_Inl [simp, io_simps]: "m c = Some (c', Inl e) \<Longrightarrow> io_bind m f c = Some (c', Inl e)"
  by (simp add: io_bind_def)

lemma io_bind_Inr [simp, io_simps]: "m c = Some (c', Inr a) \<Longrightarrow> io_bind m f c = f a c'"
  by (simp add: io_bind_def)

lemma io_wrap_None [simp, io_simps]: "m c = None \<Longrightarrow> io_wrap g m c = None"
  by (simp add: io_wrap_def)

lemma io_wrap_Inl [simp, io_simps]: "m c = Some (c', Inl e) \<Longrightarrow> io_wrap g m c = Some (c', Inl (g e))"
  by (simp add: io_wrap_def)

lemma io_wrap_Inr [simp, io_simps]: "m c = Some (c', Inr a) \<Longrightarrow> io_wrap g m c = Some (c', Inr a)"
  by (simp add: io_wrap_def)

lemma io_bind_eq_Some:
  "io_bind m f c = Some r \<longleftrightarrow>
    (\<exists>c' e. m c = Some (c', Inl e) \<and> r = (c', Inl e)) \<or>
    (\<exists>c' a. m c = Some (c', Inr a) \<and> f a c' = Some r)"
  by (auto simp: io_bind_def split: option.splits prod.splits sum.splits)

lemma io_wrap_eq_Some:
  "io_wrap g m c = Some (c', x) \<longleftrightarrow>
    (\<exists>e. m c = Some (c', Inl e) \<and> x = Inl (g e)) \<or> (\<exists>a. m c = Some (c', Inr a) \<and> x = Inr a)"
  by (auto simp: io_wrap_def split: option.splits prod.splits sum.splits)

lemma io_bind_return_Inr:
  "io_bind m f c = Some (c', Inr b) \<longleftrightarrow>
    (\<exists>c'' a. m c = Some (c'', Inr a) \<and> f a c'' = Some (c', Inr b))"
  by (auto simp: io_bind_def split: option.splits prod.splits sum.splits)

lemma io_bind_total:
  assumes "\<exists>r. m c = Some r" "\<And>c' a. m c = Some (c', Inr a) \<Longrightarrow> \<exists>r. f a c' = Some r"
  shows "\<exists>r. io_bind m f c = Some r"
  using assms by (auto simp: io_bind_def split: sum.split)

end
