(* ===== verification/GoText.thy ===== *)
theory GoText
  imports GoPrelude
begin

text \<open>
  Go's text packages as far as the source uses them: UTF-8 (\<open>unicode/utf8\<close>), decimal numbers
  (\<open>strconv\<close>), hexadecimal and Base64 encodings (\<open>encoding/hex\<close>, \<open>encoding/base64\<close>).
\<close>

definition ord :: "char \<Rightarrow> nat" where
  "ord c = of_char c"

definition chr :: "nat \<Rightarrow> char" where
  "chr n = char_of n"

lemma ord_less [simp]: "ord c < 256"
  by (simp add: ord_def)

lemma chr_ord [simp]: "chr (ord c) = c"
  by (simp add: chr_def ord_def)

lemma ord_chr [simp]: "n < 256 \<Longrightarrow> ord (chr n) = n"
  by (simp add: chr_def ord_def)

lemma chr_inject [simp]: "m < 256 \<Longrightarrow> n < 256 \<Longrightarrow> chr m = chr n \<longleftrightarrow> m = n"
  by (metis ord_chr)

lemma ord_inject [simp]: "ord c = ord d \<longleftrightarrow> c = d"
  by (metis chr_ord)

subsection \<open>UTF-8\<close>

text \<open>
  \<open>utf8.DecodeRune\<close>: the first rune of a string and its width; an invalid sequence (truncated,
  overlong, a surrogate, beyond U+10FFFF) is U+FFFD of width 1, the empty string U+FFFD of width 0.
\<close>

definition utf8_cont :: "char \<Rightarrow> bool" where
  "utf8_cont c \<longleftrightarrow> 0x80 \<le> ord c \<and> ord c \<le> 0xBF"

definition cval :: "char \<Rightarrow> nat" where
  "cval c = ord c - 0x80"

fun decode_rune :: "string \<Rightarrow> nat \<times> nat" where
  "decode_rune [] = (0xFFFD, 0)"
| "decode_rune (a # s) =
    (if ord a < 0x80 then (ord a, 1)
     else if 0xC2 \<le> ord a \<and> ord a \<le> 0xDF then
       (case s of
          b # _ \<Rightarrow> if utf8_cont b then ((ord a - 0xC0) * 64 + cval b, 2) else (0xFFFD, 1)
        | _ \<Rightarrow> (0xFFFD, 1))
     else if 0xE0 \<le> ord a \<and> ord a \<le> 0xEF then
       (case s of
          b # c # _ \<Rightarrow>
            if utf8_cont b \<and> utf8_cont c \<and> (ord a = 0xE0 \<longrightarrow> 0xA0 \<le> ord b) \<and>
               (ord a = 0xED \<longrightarrow> ord b \<le> 0x9F)
            then (((ord a - 0xE0) * 64 + cval b) * 64 + cval c, 3) else (0xFFFD, 1)
        | _ \<Rightarrow> (0xFFFD, 1))
     else if 0xF0 \<le> ord a \<and> ord a \<le> 0xF4 then
       (case s of
          b # c # d # _ \<Rightarrow>
            if utf8_cont b \<and> utf8_cont c \<and> utf8_cont d \<and> (ord a = 0xF0 \<longrightarrow> 0x90 \<le> ord b) \<and>
               (ord a = 0xF4 \<longrightarrow> ord b \<le> 0x8F)
            then ((((ord a - 0xF0) * 64 + cval b) * 64 + cval c) * 64 + cval d, 4)
            else (0xFFFD, 1)
        | _ \<Rightarrow> (0xFFFD, 1))
     else (0xFFFD, 1))"

text \<open>\<open>utf8.EncodeRune\<close>; a surrogate or a value out of range is encoded as U+FFFD.\<close>

definition encode_rune :: "nat \<Rightarrow> string" where
  "encode_rune r = map chr
    (if r < 0x80 then [r]
     else if r < 0x800 then [0xC0 + r div 64, 0x80 + r mod 64]
     else if (0xD800 \<le> r \<and> r < 0xE000) \<or> 0x10FFFF < r then [0xEF, 0xBF, 0xBD]
     else if r < 0x10000 then
       [0xE0 + r div 64 div 64, 0x80 + r div 64 mod 64, 0x80 + r mod 64]
     else [0xF0 + r div 64 div 64 div 64, 0x80 + r div 64 div 64 mod 64,
           0x80 + r div 64 mod 64, 0x80 + r mod 64])"

lemma horner_64: "y < 64 \<Longrightarrow> (x * 64 + y) div 64 = (x :: nat)" "y < 64 \<Longrightarrow> (x * 64 + y) mod 64 = y"
  by simp_all

lemma encode_rune_1: "r < 0x80 \<Longrightarrow> encode_rune r = [chr r]"
  by (simp add: encode_rune_def)

lemma encode_rune_2:
  "2 \<le> x \<Longrightarrow> x < 32 \<Longrightarrow> y < 64 \<Longrightarrow> encode_rune (x * 64 + y) = map chr [0xC0 + x, 0x80 + y]"
  by (simp add: encode_rune_def)

lemma encode_rune_3:
  assumes "x < 16" "y < 64" "z < 64" "x = 0 \<Longrightarrow> 0x20 \<le> y" "x = 13 \<Longrightarrow> y < 0x20"
  shows "encode_rune ((x * 64 + y) * 64 + z) = map chr [0xE0 + x, 0x80 + y, 0x80 + z]"
proof -
  let ?r = "(x * 64 + y) * 64 + z"
  have 1: "0x800 \<le> ?r" using assms by (cases x) auto
  have 2: "\<not> (0xD800 \<le> ?r \<and> ?r < 0xE000)"
  proof -
    consider "x < 13" | "x = 13" | "14 \<le> x" by linarith
    then show ?thesis using assms by cases auto
  qed
  have "x * 64 + y < 0x400" using assms(1,2) by linarith
  then have 3: "?r < 0x10000" using assms(3) by auto
  have d: "?r div 64 = x * 64 + y" "?r mod 64 = z" "(x * 64 + y) div 64 = x" "(x * 64 + y) mod 64 = y"
    using assms(2,3) by (simp_all only: horner_64)
  have "\<not> ?r < 0x80" "\<not> ?r < 0x800" "\<not> ((0xD800 \<le> ?r \<and> ?r < 0xE000) \<or> 0x10FFFF < ?r)"
    using 1 2 3 by linarith+
  with 3 show ?thesis unfolding encode_rune_def d by (simp only: if_True if_False)
qed

lemma encode_rune_4:
  assumes "x < 5" "y < 64" "z < 64" "w < 64" "x = 0 \<Longrightarrow> 0x10 \<le> y" "x = 4 \<Longrightarrow> y < 0x10"
  shows "encode_rune (((x * 64 + y) * 64 + z) * 64 + w) =
    map chr [0xF0 + x, 0x80 + y, 0x80 + z, 0x80 + w]"
proof -
  let ?r = "((x * 64 + y) * 64 + z) * 64 + w"
  have 1: "0x10000 \<le> ?r" using assms by (cases x) auto
  have 2: "?r \<le> 0x10FFFF"
  proof (cases "x = 4")
    case True
    then show ?thesis using assms by simp
  next
    case False
    then have "x \<le> 3" using assms(1) by simp
    then have "x * 64 + y < 0x100" using assms(2) by linarith
    then have "(x * 64 + y) * 64 + z < 0x4000" using assms(3) by auto
    then show ?thesis using assms(4) by auto
  qed
  have d: "?r div 64 = (x * 64 + y) * 64 + z" "?r mod 64 = w"
    "((x * 64 + y) * 64 + z) div 64 = x * 64 + y" "((x * 64 + y) * 64 + z) mod 64 = z"
    "(x * 64 + y) div 64 = x" "(x * 64 + y) mod 64 = y"
    using assms(2-4) by (simp_all only: horner_64)
  have "\<not> ?r < 0x80" "\<not> ?r < 0x800" "\<not> ((0xD800 \<le> ?r \<and> ?r < 0xE000) \<or> 0x10FFFF < ?r)" "\<not> ?r < 0x10000"
    using 1 2 by linarith+
  then show ?thesis unfolding encode_rune_def d by (simp only: if_True if_False)
qed

lemma cval_cont: "utf8_cont c \<Longrightarrow> cval c < 64 \<and> chr (0x80 + cval c) = c \<and> ord c = 0x80 + cval c"
  by (auto simp: utf8_cont_def cval_def)

text \<open>A rune is well formed when decoding did not fall back on width 1 for a byte beyond ASCII.\<close>

definition rune_ok :: "string \<Rightarrow> bool" where
  "rune_ok s \<longleftrightarrow> s \<noteq> [] \<and> (ord (hd s) < 0x80 \<or> snd (decode_rune s) \<noteq> 1)"

lemma decode_rune_width:
  "s \<noteq> [] \<Longrightarrow> 1 \<le> snd (decode_rune s) \<and> snd (decode_rune s) \<le> length s"
  by (cases s) (auto split: list.splits)

lemma rune_cases:
  assumes "rune_ok s"
  obtains (One) a u where "s = a # u" "ord a < 0x80" "\<And>v. decode_rune (a # v) = (ord a, 1)"
  | (Two) a b u where "s = a # b # u" "0xC2 \<le> ord a" "ord a \<le> 0xDF" "utf8_cont b"
      "\<And>v. decode_rune (a # b # v) = ((ord a - 0xC0) * 64 + cval b, 2)"
  | (Three) a b c u where "s = a # b # c # u" "0xE0 \<le> ord a" "ord a \<le> 0xEF"
      "utf8_cont b" "utf8_cont c" "ord a = 0xE0 \<Longrightarrow> 0xA0 \<le> ord b" "ord a = 0xED \<Longrightarrow> ord b \<le> 0x9F"
      "\<And>v. decode_rune (a # b # c # v) = (((ord a - 0xE0) * 64 + cval b) * 64 + cval c, 3)"
  | (Four) a b c d u where "s = a # b # c # d # u" "0xF0 \<le> ord a" "ord a \<le> 0xF4"
      "utf8_cont b" "utf8_cont c" "utf8_cont d"
      "ord a = 0xF0 \<Longrightarrow> 0x90 \<le> ord b" "ord a = 0xF4 \<Longrightarrow> ord b \<le> 0x8F"
      "\<And>v. decode_rune (a # b # c # d # v) =
        ((((ord a - 0xF0) * 64 + cval b) * 64 + cval c) * 64 + cval d, 4)"
proof -
  obtain a t where s: "s = a # t" using assms by (cases s) (auto simp: rune_ok_def)
  consider "ord a < 0x80" | "0xC2 \<le> ord a" "ord a \<le> 0xDF"
    | "0xE0 \<le> ord a" "ord a \<le> 0xEF" | "0xF0 \<le> ord a" "ord a \<le> 0xF4"
    | "0x80 \<le> ord a" "ord a < 0xC2 \<or> 0xF4 < ord a" by linarith
  then show thesis
  proof cases
    case 1
    with s One show thesis by simp
  next
    case 2
    then obtain b u where t: "t = b # u" "utf8_cont b"
      using assms by (auto simp: rune_ok_def s split: list.splits if_splits)
    show thesis by (rule Two [of a b u]) (use 2 s t in auto)
  next
    case 3
    then obtain b c u where t: "t = b # c # u" "utf8_cont b" "utf8_cont c"
      "ord a = 0xE0 \<longrightarrow> 0xA0 \<le> ord b" "ord a = 0xED \<longrightarrow> ord b \<le> 0x9F"
      using assms by (auto simp: rune_ok_def s split: list.splits if_splits)
    show thesis by (rule Three [of a b c u]) (use 3 s t in auto)
  next
    case 4
    then obtain b c d u where t: "t = b # c # d # u" "utf8_cont b" "utf8_cont c" "utf8_cont d"
      "ord a = 0xF0 \<longrightarrow> 0x90 \<le> ord b" "ord a = 0xF4 \<longrightarrow> ord b \<le> 0x8F"
      using assms by (auto simp: rune_ok_def s split: list.splits if_splits)
    show thesis by (rule Four [of a b c d u]) (use 4 s t in auto)
  next
    case 5
    then show thesis using assms by (auto simp: rune_ok_def s)
  qed
qed

declare decode_rune.simps [simp del]

lemma encode_decode_rune:
  assumes "rune_ok s"
  shows "encode_rune (fst (decode_rune s)) = take (snd (decode_rune s)) s"
  using assms
proof (cases rule: rune_cases)
  case (One a u)
  then show ?thesis by (simp add: encode_rune_1)
next
  case (Two a b u)
  have "encode_rune ((ord a - 0xC0) * 64 + cval b) = map chr [0xC0 + (ord a - 0xC0), 0x80 + cval b]"
    using Two cval_cont [OF Two(4)] by (intro encode_rune_2) auto
  with Two cval_cont [OF Two(4)] show ?thesis by simp
next
  case (Three a b c u)
  have "encode_rune (((ord a - 0xE0) * 64 + cval b) * 64 + cval c) =
      map chr [0xE0 + (ord a - 0xE0), 0x80 + cval b, 0x80 + cval c]"
    using Three(2,3,6,7) cval_cont [OF Three(4)] cval_cont [OF Three(5)]
    by (intro encode_rune_3) (auto, linarith)
  with Three cval_cont [OF Three(4)] cval_cont [OF Three(5)] show ?thesis by simp
next
  case (Four a b c d u)
  have "encode_rune ((((ord a - 0xF0) * 64 + cval b) * 64 + cval c) * 64 + cval d) =
      map chr [0xF0 + (ord a - 0xF0), 0x80 + cval b, 0x80 + cval c, 0x80 + cval d]"
    using Four(2,3,7,8) cval_cont [OF Four(4)] cval_cont [OF Four(5)] cval_cont [OF Four(6)]
    by (intro encode_rune_4) (auto, linarith)
  with Four cval_cont [OF Four(4)] cval_cont [OF Four(5)] cval_cont [OF Four(6)] show ?thesis by simp
qed

lemma decode_rune_take:
  assumes "rune_ok s"
  shows "decode_rune (take (snd (decode_rune s)) s @ r) = decode_rune s"
  using assms by (cases rule: rune_cases) simp_all

lemma decode_rune_high:
  assumes "rune_ok s" "\<not> ord (hd s) < 0x80"
  shows "\<forall>c \<in> set (take (snd (decode_rune s)) s). 0x80 \<le> ord c"
  using assms by (cases rule: rune_cases) (auto simp: utf8_cont_def)

text \<open>\<open>utf8.ValidString\<close>.\<close>

function valid_utf8 :: "string \<Rightarrow> bool" where
  "valid_utf8 s =
     (if s = [] then True
      else if rune_ok s then valid_utf8 (drop (snd (decode_rune s)) s) else False)"
  by pat_completeness auto
termination
proof (relation "measure length", goal_cases)
  case 1
  then show ?case by simp
next
  case (2 s)
  with decode_rune_width [of s] show ?case by (simp add: diff_less)
qed

declare valid_utf8.simps [simp del]

lemma valid_utf8_Nil [simp]: "valid_utf8 []"
  by (simp add: valid_utf8.simps [of "[]"])

lemma valid_utf8_ascii:
  "\<forall>c \<in> set s. ord c < 0x80 \<Longrightarrow> valid_utf8 s"
proof (induction s)
  case Nil
  then show ?case by simp
next
  case (Cons c s)
  then have "rune_ok (c # s)" "decode_rune (c # s) = (ord c, 1)"
    by (simp_all add: rune_ok_def decode_rune.simps)
  with Cons show ?case by (simp add: valid_utf8.simps [of "c # s"])
qed

lemma valid_utf8_ascii_append: "\<forall>c \<in> set a. ord c < 0x80 \<Longrightarrow> valid_utf8 (a @ s) \<longleftrightarrow> valid_utf8 s"
proof (induction a)
  case (Cons c a)
  then have "rune_ok (c # a @ s)" "decode_rune (c # a @ s) = (ord c, 1)"
    by (simp_all add: rune_ok_def decode_rune.simps)
  with Cons show ?case by (simp add: valid_utf8.simps [of "c # a @ s"])
qed simp

lemma valid_utf8_induct [consumes 1, case_names Nil Rune]:
  assumes "valid_utf8 s" and "P []"
    and "\<And>s. rune_ok s \<Longrightarrow> valid_utf8 (drop (snd (decode_rune s)) s) \<Longrightarrow>
           P (drop (snd (decode_rune s)) s) \<Longrightarrow> P s"
  shows "P s"
  using assms(1)
proof (induction s rule: valid_utf8.induct)
  case (1 s)
  show ?case
  proof (cases "s = []")
    case True
    with assms(2) show ?thesis by simp
  next
    case False
    with "1.prems" have "rune_ok s \<and> valid_utf8 (drop (snd (decode_rune s)) s)"
      by (simp add: valid_utf8.simps [of s] split: if_splits)
    with False "1.IH" assms(3) show ?thesis by blast
  qed
qed

subsection \<open>Decimal and hexadecimal digits\<close>

definition digit :: "nat \<Rightarrow> char" where
  "digit d = chr (48 + d)"

definition is_digit :: "char \<Rightarrow> bool" where
  "is_digit c \<longleftrightarrow> 48 \<le> ord c \<and> ord c \<le> 57"

fun dec :: "nat \<Rightarrow> string" where
  "dec n = (if n < 10 then [digit n] else dec (n div 10) @ [digit (n mod 10)])"

declare dec.simps [simp del]

definition parse_dec :: "string \<Rightarrow> nat" where
  "parse_dec s = foldl (\<lambda>a c. 10 * a + (ord c - 48)) 0 s"

lemma ord_digit [simp]: "d < 10 \<Longrightarrow> ord (digit d) = 48 + d"
  by (simp add: digit_def)

lemma parse_dec_snoc [simp]: "parse_dec (s @ [c]) = 10 * parse_dec s + (ord c - 48)"
  by (simp add: parse_dec_def)

lemma parse_dec_dec [simp, codec_simps]: "parse_dec (dec n) = n"
proof (induction n rule: dec.induct)
  case (1 n)
  show ?case
  proof (cases "n < 10")
    case True
    then show ?thesis by (simp add: dec.simps [of n] parse_dec_def)
  next
    case False
    with 1 show ?thesis by (simp add: dec.simps [of n])
  qed
qed

lemma dec_digits: "\<forall>c \<in> set (dec n). is_digit c"
proof (induction n rule: dec.induct)
  case (1 n)
  then show ?case
    by (cases "n < 10") (auto simp: dec.simps [of n] is_digit_def)
qed

lemma dec_nonempty [simp]: "dec n \<noteq> []"
  by (simp add: dec.simps [of n])

lemma dec_head: "dec n = c # s \<Longrightarrow> ord c = 48 \<Longrightarrow> n = 0 \<and> s = []"
proof (induction n arbitrary: c s rule: dec.induct)
  case (1 n)
  show ?case
  proof (cases "n < 10")
    case True
    with "1.prems" show ?thesis by (auto simp: dec.simps [of n])
  next
    case False
    then obtain t where "dec (n div 10) = c # t"
      using "1.prems" by (cases "dec (n div 10)") (auto simp: dec.simps [of n])
    with "1.IH" [OF False] "1.prems" have "n div 10 = 0" by blast
    with False show ?thesis by simp
  qed
qed

definition hex_digit :: "nat \<Rightarrow> char" where
  "hex_digit d = (if d < 10 then chr (48 + d) else chr (87 + d))"

definition hex_val :: "char \<Rightarrow> nat option" where
  "hex_val c =
    (if 48 \<le> ord c \<and> ord c \<le> 57 then Some (ord c - 48)
     else if 97 \<le> ord c \<and> ord c \<le> 102 then Some (ord c - 87)
     else if 65 \<le> ord c \<and> ord c \<le> 70 then Some (ord c - 55)
     else None)"

lemma hex_val_digit [simp, codec_simps]: "d < 16 \<Longrightarrow> hex_val (hex_digit d) = Some d"
  by (auto simp: hex_val_def hex_digit_def)

text \<open>\<open>hex.EncodeToString\<close>.\<close>

definition hex_encode :: "bytes \<Rightarrow> string" where
  "hex_encode b = concat (map (\<lambda>w. [hex_digit (unat w div 16), hex_digit (unat w mod 16)]) b)"

lemma length_hex_encode [simp]: "length (hex_encode b) = 2 * length b"
  by (induction b) (simp_all add: hex_encode_def)

lemma byte_div_16 [simp]: "unat (w :: byte) div 16 < 16"
  using unat_less_256 [of w] by linarith

lemma hex_digit_inj: "d < 16 \<Longrightarrow> e < 16 \<Longrightarrow> hex_digit d = hex_digit e \<longleftrightarrow> d = e"
  by (metis hex_val_digit option.inject)

lemma hex_encode_inject: "hex_encode a = hex_encode b \<longleftrightarrow> a = b"
proof (induction a arbitrary: b)
  case Nil
  then show ?case by (cases b) (simp_all add: hex_encode_def)
next
  case (Cons x a)
  show ?case
  proof (cases b)
    case Nil
    then show ?thesis by (simp add: hex_encode_def)
  next
    case (Cons y c)
    have n: "unat x div 16 = unat y div 16 \<and> unat x mod 16 = unat y mod 16 \<longleftrightarrow> unat x = unat y"
      by (metis div_mult_mod_eq)
    have "unat x = unat y \<longleftrightarrow> x = y" by (rule word_unat_eq_iff [symmetric])
    with n Cons Cons.IH [of c] show ?thesis
      by (auto simp: hex_encode_def hex_digit_inj)
  qed
qed

lemma hex_encode_ascii: "\<forall>c \<in> set (hex_encode b). ord c < 0x80"
proof -
  have "ord (hex_digit d) < 0x80" if "d < 16" for d using that by (simp add: hex_digit_def)
  then show ?thesis by (auto simp: hex_encode_def)
qed

lemma length_dec: "n < 10 ^ Suc k \<Longrightarrow> length (dec n) \<le> Suc k"
proof (induction k arbitrary: n)
  case 0
  then show ?case by (subst dec.simps) simp
next
  case (Suc k)
  then have "n div 10 < 10 ^ Suc k" by auto
  with Suc.IH [of "n div 10"] show ?case by (subst dec.simps) auto
qed

end
