(* ===== verification/GoJson.thy ===== *)
theory GoJson
  imports GoText
begin

text \<open>
  Go's \<open>encoding/json\<close> as the control protocol uses it: the text of a string, the scanner (tokens,
  then a parser with the stack of open objects and arrays that \<open>scanner.go\<close> keeps, at most
  10000 deep), and the printer of \<open>json.Marshal\<close>. The main result is that parsing what was printed
  gives the value back.
\<close>

datatype json =
    JNull
  | JBool bool
  | JNum string
  | JStr string
  | JArr "json list"
  | JObj "(string \<times> json) list"

subsection \<open>Strings\<close>

abbreviation quot :: char where "quot \<equiv> CHR 0x22"
abbreviation bsl :: char where "bsl \<equiv> CHR 0x5C"

text \<open>The escapes of one ASCII byte (HTML-significant bytes included, as \<open>Marshal\<close> escapes HTML).\<close>

definition escape_ascii :: "char \<Rightarrow> string" where
  "escape_ascii c =
    (if c = quot \<or> c = bsl then [bsl, c]
     else if ord c = 8 then [bsl, CHR ''b'']
     else if ord c = 12 then [bsl, CHR ''f'']
     else if ord c = 10 then [bsl, CHR ''n'']
     else if ord c = 13 then [bsl, CHR ''r'']
     else if ord c = 9 then [bsl, CHR ''t'']
     else if ord c < 32 \<or> c = CHR ''<'' \<or> c = CHR ''>'' \<or> c = CHR ''&''
       then [bsl, CHR ''u'', CHR ''0'', CHR ''0'', hex_digit (ord c div 16), hex_digit (ord c mod 16)]
     else [c])"

function escape :: "string \<Rightarrow> string" where
  "escape [] = []"
| "escape (c # cs) =
    (if ord c < 0x80 then escape_ascii c @ escape cs
     else case decode_rune (c # cs) of (r, k) \<Rightarrow>
       if k = 1 then [bsl, CHR ''u'', CHR ''f'', CHR ''f'', CHR ''f'', CHR ''d''] @ escape cs
       else if r = 0x2028 \<or> r = 0x2029
         then [bsl, CHR ''u'', CHR ''2'', CHR ''0'', CHR ''2'', hex_digit (r mod 16)] @ escape (drop (k - 1) cs)
       else take k (c # cs) @ escape (drop (k - 1) cs))"
  by pat_completeness auto
termination by (relation "measure length") auto

declare escape.simps(2) [simp del]

text \<open>The scanner's states inside a string: the raw text up to the closing quote.\<close>

fun scan_string :: "string \<Rightarrow> (string \<times> string) option" where
  "scan_string [] = None"
| "scan_string (c # cs) =
    (if c = quot then Some ([], cs)
     else if c = bsl then
       (case cs of
          [] \<Rightarrow> None
        | e # r \<Rightarrow>
            if e = CHR ''u'' then
              (case r of
                 h1 # h2 # h3 # h4 # r' \<Rightarrow>
                   if hex_val h1 \<noteq> None \<and> hex_val h2 \<noteq> None \<and> hex_val h3 \<noteq> None \<and> hex_val h4 \<noteq> None
                   then map_option (\<lambda>(s, t). (c # e # h1 # h2 # h3 # h4 # s, t)) (scan_string r')
                   else None
               | _ \<Rightarrow> None)
            else if e \<in> set [CHR ''b'', CHR ''f'', CHR ''n'', CHR ''r'', CHR ''t'', bsl, CHR ''/'', quot]
              then map_option (\<lambda>(s, t). (c # e # s, t)) (scan_string r)
            else None)
     else if ord c < 32 then None
     else map_option (\<lambda>(s, t). (c # s, t)) (scan_string cs))"

definition hex4 :: "char \<Rightarrow> char \<Rightarrow> char \<Rightarrow> char \<Rightarrow> nat" where
  "hex4 a b c d =
    ((the (hex_val a) * 16 + the (hex_val b)) * 16 + the (hex_val c)) * 16 + the (hex_val d)"

definition unescape1 :: "char \<Rightarrow> char" where
  "unescape1 e =
    (if e = CHR ''b'' then chr 8 else if e = CHR ''f'' then chr 12 else if e = CHR ''n'' then chr 10
     else if e = CHR ''r'' then chr 13 else if e = CHR ''t'' then chr 9 else e)"

text \<open>
  \<open>unquoteBytes\<close> on scanned text: a high surrogate followed by an escaped low one is one rune, any
  other surrogate is U+FFFD, and invalid UTF-8 is replaced.
\<close>

function unescape :: "string \<Rightarrow> string" where
  "unescape [] = []"
| "unescape (c # cs) =
    (if c = bsl then
       (case cs of
          [] \<Rightarrow> []
        | e # r \<Rightarrow>
            if e = CHR ''u'' then
              (case r of
                 h1 # h2 # h3 # h4 # r' \<Rightarrow>
                   let u = hex4 h1 h2 h3 h4 in
                   if 0xD800 \<le> u \<and> u < 0xE000 then
                     (case r' of
                        b # x # g1 # g2 # g3 # g4 # r'' \<Rightarrow>
                          let v = hex4 g1 g2 g3 g4 in
                          if b = bsl \<and> x = CHR ''u'' \<and> u < 0xDC00 \<and> 0xDC00 \<le> v \<and> v < 0xE000
                          then encode_rune (0x10000 + (u - 0xD800) * 0x400 + (v - 0xDC00)) @ unescape r''
                          else encode_rune 0xFFFD @ unescape r'
                      | _ \<Rightarrow> encode_rune 0xFFFD @ unescape r')
                   else encode_rune u @ unescape r'
               | _ \<Rightarrow> [])
            else unescape1 e # unescape r)
     else if ord c < 0x80 then c # unescape cs
     else case decode_rune (c # cs) of (r, k) \<Rightarrow> encode_rune r @ unescape (drop (k - 1) cs))"
  by pat_completeness auto
termination by (relation "measure length") auto

declare unescape.simps(2) [simp del]

subsection \<open>Round trip of a string\<close>

lemma ord_CHR [simp]:
  "ord (CHR 0x22) = 34" "ord (CHR 0x5C) = 92" "ord (CHR ''<'') = 60" "ord (CHR ''>'') = 62"
  "ord (CHR ''&'') = 38" "ord (CHR ''u'') = 117" "ord (CHR ''0'') = 48" "ord (CHR ''2'') = 50"
  "ord (CHR ''f'') = 102" "ord (CHR ''d'') = 100"
  by (simp_all add: ord_def)

lemma hex_val_CHR [simp]:
  "hex_val (CHR ''0'') = Some 0" "hex_val (CHR ''2'') = Some 2" "hex_val (CHR ''f'') = Some 15"
  "hex_val (CHR ''d'') = Some 13"
  by (simp_all add: hex_val_def)

lemma scan_string_plain:
  "c \<noteq> quot \<Longrightarrow> c \<noteq> bsl \<Longrightarrow> 32 \<le> ord c \<Longrightarrow>
   scan_string (c # cs) = map_option (\<lambda>(s, t). (c # s, t)) (scan_string cs)"
  by simp

lemma scan_string_high:
  "\<forall>c \<in> set s. 0x80 \<le> ord c \<Longrightarrow>
   scan_string (s @ t) = map_option (\<lambda>(a, b). (s @ a, b)) (scan_string t)"
proof (induction s)
  case Nil
  then show ?case by (simp add: option.map_id0 [unfolded id_def])
next
  case (Cons c s)
  then have "c \<noteq> quot" "c \<noteq> bsl" "32 \<le> ord c" by auto
  with Cons show ?case
    by (simp add: scan_string_plain option.map_comp comp_def case_prod_unfold del: scan_string.simps)
qed

lemma scan_escape_ascii:
  assumes "ord c < 0x80"
  shows "scan_string (escape_ascii c @ t) = map_option (\<lambda>(a, b). (escape_ascii c @ a, b)) (scan_string t)"
proof -
  have "ord c div 16 < 16" "ord c mod 16 < 16" using assms by auto
  then show ?thesis
    by (auto simp: escape_ascii_def option.map_comp comp_def case_prod_unfold)
qed

lemma scan_escape:
  "scan_string (escape s @ quot # t) = Some (escape s, t)"
proof (induction s rule: escape.induct)
  case 1
  then show ?case by simp
next
  case (2 c cs)
  obtain r k where d: "decode_rune (c # cs) = (r, k)" by fastforce
  show ?case
  proof (cases "ord c < 0x80")
    case True
    with 2 show ?thesis by (simp add: escape.simps(2) scan_escape_ascii)
  next
    case False
    show ?thesis
    proof (cases "k = 1")
      case True
      with False d 2 show ?thesis by (simp add: escape.simps(2))
    next
      case k: False
      have ok: "rune_ok (c # cs)" using k d by (simp add: rune_ok_def)
      have "\<forall>x \<in> set (take k (c # cs)). 0x80 \<le> ord x"
        using decode_rune_high [OF ok] False d by simp
      note high = scan_string_high [OF this]
      from False d k 2 high show ?thesis
        by (auto simp: escape.simps(2) simp del: take_Suc_Cons)
    qed
  qed
qed

lemma unescape_ascii:
  assumes "ord c < 0x80"
  shows "unescape (escape_ascii c @ t) = c # unescape t"
proof -
  have b: "ord c div 16 < 16" "ord c mod 16 < 16" using assms by auto
  have h: "hex4 (CHR ''0'') (CHR ''0'') (hex_digit (ord c div 16)) (hex_digit (ord c mod 16)) = ord c"
    using b by (simp add: hex4_def)
  have e: "encode_rune (ord c) = [c]" using assms by (simp add: encode_rune_1)
  have n: "ord c < 0xD800" using assms by simp
  have cc: "ord c = 8 \<Longrightarrow> chr 8 = c" "ord c = 12 \<Longrightarrow> chr 12 = c" "ord c = 10 \<Longrightarrow> chr 10 = c"
    "ord c = 13 \<Longrightarrow> chr 13 = c" "ord c = 9 \<Longrightarrow> chr 9 = c" by (metis chr_ord)+
  show ?thesis
    using assms h e n cc by (auto simp: escape_ascii_def unescape.simps(2) unescape1_def)
qed

lemma unescape_rune:
  assumes "rune_ok (c # cs)" "\<not> ord c < 0x80" "decode_rune (c # cs) = (r, k)"
  shows "unescape (take k (c # cs) @ t) = take k (c # cs) @ unescape t"
proof -
  have k: "1 \<le> k" "k \<le> Suc (length cs)" using decode_rune_width [of "c # cs"] assms(3) by simp_all
  obtain j where j: "k = Suc j" using k by (cases k) auto
  have "decode_rune (c # (take j cs @ t)) = (r, k)"
    using decode_rune_take [OF assms(1), of t] assms(3) by (simp add: j)
  moreover have "encode_rune r = c # take j cs" using encode_decode_rune [OF assms(1)] assms(3) j by simp
  moreover have "c \<noteq> bsl" using assms(2) by auto
  moreover have "length (take j cs) = j" using k j by simp
  ultimately show ?thesis using assms(2) j by (simp add: unescape.simps(2))
qed

lemma unescape_escape:
  "valid_utf8 s \<Longrightarrow> unescape (escape s) = s"
proof (induction s rule: valid_utf8_induct)
  case Nil
  then show ?case by simp
next
  case (Rune s)
  then obtain c cs where s: "s = c # cs" by (cases s) (auto simp: rune_ok_def)
  obtain r k where d: "decode_rune s = (r, k)" by fastforce
  show ?case
  proof (cases "ord c < 0x80")
    case True
    then have "decode_rune s = (ord c, 1)" by (simp add: s decode_rune.simps)
    with True Rune s show ?thesis by (simp add: escape.simps(2) unescape_ascii)
  next
    case False
    with Rune(1) d s have k: "k \<noteq> 1" "1 \<le> k" using decode_rune_width [of s]
      by (auto simp: rune_ok_def)
    have dr: "drop (k - 1) cs = drop k s" using k by (cases k) (auto simp: s)
    have enc: "encode_rune r = take k s" using encode_decode_rune [OF Rune(1)] d by simp
    have ih: "unescape (escape (drop k s)) = drop k s" using Rune(3) d by simp
    show ?thesis
    proof (cases "r = 0x2028 \<or> r = 0x2029")
      case True
      then have "hex4 (CHR ''2'') (CHR ''0'') (CHR ''2'') (hex_digit (r mod 16)) = r"
        by (auto simp: hex4_def)
      then have "unescape (escape s) = encode_rune r @ unescape (escape (drop k s))"
        using True False k d [unfolded s] dr [unfolded s] s
        by (auto simp: escape.simps(2) unescape.simps(2) Let_def)
      with enc ih show ?thesis by simp
    next
      case r: False
      with False k d s dr ih show ?thesis
        using unescape_rune [OF Rune(1) [unfolded s] False d [unfolded s]]
        by (simp add: escape.simps(2) del: take_Suc_Cons)
    qed
  qed
qed

subsection \<open>Tokens\<close>

datatype jtok = TLBrace | TRBrace | TLBrack | TRBrack | TColon | TComma | TTrue | TFalse | TNull
  | TNum string | TStr string

definition scan_digits :: "string \<Rightarrow> (string \<times> string) option" where
  "scan_digits s =
    (if takeWhile is_digit s = [] then None else Some (takeWhile is_digit s, dropWhile is_digit s))"

definition scan_int :: "string \<Rightarrow> (string \<times> string) option" where
  "scan_int s = (case s of
      [] \<Rightarrow> None
    | c # cs \<Rightarrow> if c = CHR ''0'' then Some ([c], cs) else scan_digits s)"

definition scan_frac :: "string \<Rightarrow> (string \<times> string) option" where
  "scan_frac s = (case s of
      [] \<Rightarrow> Some ([], [])
    | c # cs \<Rightarrow>
        if c = CHR ''.'' then map_option (\<lambda>(d, r). (c # d, r)) (scan_digits cs) else Some ([], s))"

definition scan_exp :: "string \<Rightarrow> (string \<times> string) option" where
  "scan_exp s = (case s of
      [] \<Rightarrow> Some ([], [])
    | c # cs \<Rightarrow>
        if c = CHR ''e'' \<or> c = CHR ''E'' then
          (case cs of
             [] \<Rightarrow> None
           | d # ds \<Rightarrow>
               if d = CHR ''+'' \<or> d = CHR ''-'' then map_option (\<lambda>(x, r). (c # d # x, r)) (scan_digits ds)
               else map_option (\<lambda>(x, r). (c # x, r)) (scan_digits cs))
        else Some ([], s))"

definition scan_number :: "string \<Rightarrow> (string \<times> string) option" where
  "scan_number s =
    (let (sign, s1) = (case s of c # cs \<Rightarrow> if c = CHR ''-'' then ([c], cs) else ([], s) | [] \<Rightarrow> ([], s)) in
     case scan_int s1 of None \<Rightarrow> None | Some (i, s2) \<Rightarrow>
     case scan_frac s2 of None \<Rightarrow> None | Some (f, s3) \<Rightarrow>
     case scan_exp s3 of None \<Rightarrow> None | Some (e, s4) \<Rightarrow> Some (sign @ i @ f @ e, s4))"

lemma scan_string_length: "scan_string s = Some (a, b) \<Longrightarrow> length b < length s"
  by (induction s arbitrary: a b rule: scan_string.induct)
     (fastforce split: if_splits list.splits)+

lemma scan_digits_append: "scan_digits s = Some (a, b) \<Longrightarrow> s = a @ b \<and> a \<noteq> []"
  by (auto simp: scan_digits_def split: if_splits)

lemma scan_int_append: "scan_int s = Some (a, b) \<Longrightarrow> s = a @ b \<and> a \<noteq> []"
  by (auto simp: scan_int_def split: list.splits if_splits dest: scan_digits_append)

lemma scan_frac_append: "scan_frac s = Some (a, b) \<Longrightarrow> s = a @ b"
  by (auto simp: scan_frac_def split: list.splits if_splits dest: scan_digits_append)

lemma scan_exp_append: "scan_exp s = Some (a, b) \<Longrightarrow> s = a @ b"
  by (auto simp: scan_exp_def split: list.splits if_splits dest: scan_digits_append)

lemma scan_number_append: "scan_number s = Some (a, b) \<Longrightarrow> s = a @ b \<and> a \<noteq> []"
  by (auto simp: scan_number_def split: list.splits if_splits option.splits prod.splits
      dest!: scan_int_append scan_frac_append scan_exp_append)

lemma scan_number_length: "scan_number s = Some (a, b) \<Longrightarrow> length b < length s"
  by (drule scan_number_append) auto

definition is_space :: "char \<Rightarrow> bool" where
  "is_space c \<longleftrightarrow> ord c = 32 \<or> ord c = 9 \<or> ord c = 10 \<or> ord c = 13"

function tokens :: "string \<Rightarrow> jtok list option" where
  "tokens [] = Some []"
| "tokens (c # cs) =
    (if is_space c then tokens cs
     else if c = CHR ''{'' then map_option (Cons TLBrace) (tokens cs)
     else if c = CHR ''}'' then map_option (Cons TRBrace) (tokens cs)
     else if c = CHR ''['' then map_option (Cons TLBrack) (tokens cs)
     else if c = CHR '']'' then map_option (Cons TRBrack) (tokens cs)
     else if c = CHR '':'' then map_option (Cons TColon) (tokens cs)
     else if c = CHR '','' then map_option (Cons TComma) (tokens cs)
     else if c = quot then
       (case scan_string cs of
          None \<Rightarrow> None
        | Some (raw, r) \<Rightarrow> map_option (Cons (TStr (unescape raw))) (tokens r))
     else if c = CHR ''t'' then
       (if take 3 cs = ''rue'' then map_option (Cons TTrue) (tokens (drop 3 cs)) else None)
     else if c = CHR ''f'' then
       (if take 4 cs = ''alse'' then map_option (Cons TFalse) (tokens (drop 4 cs)) else None)
     else if c = CHR ''n'' then
       (if take 3 cs = ''ull'' then map_option (Cons TNull) (tokens (drop 3 cs)) else None)
     else
       (case scan_number (c # cs) of
          None \<Rightarrow> None
        | Some (n, r) \<Rightarrow> map_option (Cons (TNum n)) (tokens r)))"
  by pat_completeness auto
termination
  by (relation "measure length") (auto dest: scan_string_length scan_number_length)

declare tokens.simps(2) [simp del]

subsection \<open>The parser\<close>

text \<open>
  \<open>parseState\<close>: the objects and arrays that are open, innermost first, each with what it holds so
  far; and the scanner's step function: what may come next.
\<close>

datatype frame = FArr "json list" | FObj "(string \<times> json) list" | FKey "(string \<times> json) list" string

datatype mode = MVal | MArr0 | MObj0 | MKey | MColon | MEnd json

definition max_depth :: nat where
  "max_depth = 10000"

definition begin_value :: "frame list \<Rightarrow> jtok \<Rightarrow> (frame list \<times> mode) option" where
  "begin_value stk t = (case t of
      TNull \<Rightarrow> Some (stk, MEnd JNull)
    | TTrue \<Rightarrow> Some (stk, MEnd (JBool True))
    | TFalse \<Rightarrow> Some (stk, MEnd (JBool False))
    | TNum n \<Rightarrow> Some (stk, MEnd (JNum n))
    | TStr s \<Rightarrow> Some (stk, MEnd (JStr s))
    | TLBrace \<Rightarrow> if length stk < max_depth then Some (FObj [] # stk, MObj0) else None
    | TLBrack \<Rightarrow> if length stk < max_depth then Some (FArr [] # stk, MArr0) else None
    | _ \<Rightarrow> None)"

definition begin_key :: "frame list \<Rightarrow> jtok \<Rightarrow> (frame list \<times> mode) option" where
  "begin_key stk t = (case (stk, t) of
      (FObj kvs # s, TStr k) \<Rightarrow> Some (FKey kvs k # s, MColon)
    | _ \<Rightarrow> None)"

fun end_value :: "frame list \<Rightarrow> json \<Rightarrow> jtok \<Rightarrow> (frame list \<times> mode) option" where
  "end_value (FKey kvs k # s) v TComma = Some (FObj (kvs @ [(k, v)]) # s, MKey)"
| "end_value (FKey kvs k # s) v TRBrace = Some (s, MEnd (JObj (kvs @ [(k, v)])))"
| "end_value (FArr vs # s) v TComma = Some (FArr (vs @ [v]) # s, MVal)"
| "end_value (FArr vs # s) v TRBrack = Some (s, MEnd (JArr (vs @ [v])))"
| "end_value stk v t = None"

definition jstep :: "frame list \<Rightarrow> mode \<Rightarrow> jtok \<Rightarrow> (frame list \<times> mode) option" where
  "jstep stk m t = (case m of
      MVal \<Rightarrow> begin_value stk t
    | MArr0 \<Rightarrow> if t = TRBrack then Some (tl stk, MEnd (JArr [])) else begin_value stk t
    | MObj0 \<Rightarrow> if t = TRBrace then Some (tl stk, MEnd (JObj [])) else begin_key stk t
    | MKey \<Rightarrow> begin_key stk t
    | MColon \<Rightarrow> if t = TColon then Some (stk, MVal) else None
    | MEnd v \<Rightarrow> end_value stk v t)"

fun jrun :: "frame list \<Rightarrow> mode \<Rightarrow> jtok list \<Rightarrow> json option" where
  "jrun stk m [] = (case (stk, m) of ([], MEnd v) \<Rightarrow> Some v | _ \<Rightarrow> None)"
| "jrun stk m (t # ts) = (case jstep stk m t of None \<Rightarrow> None | Some (s', m') \<Rightarrow> jrun s' m' ts)"

definition json_parse :: "string \<Rightarrow> json option" where
  "json_parse s = (case tokens s of None \<Rightarrow> None | Some ts \<Rightarrow> jrun [] MVal ts)"

subsection \<open>The printer\<close>

definition print_tok :: "jtok \<Rightarrow> string" where
  "print_tok t = (case t of
      TLBrace \<Rightarrow> ''{'' | TRBrace \<Rightarrow> ''}'' | TLBrack \<Rightarrow> ''['' | TRBrack \<Rightarrow> '']''
    | TColon \<Rightarrow> '':'' | TComma \<Rightarrow> '','' | TTrue \<Rightarrow> ''true'' | TFalse \<Rightarrow> ''false'' | TNull \<Rightarrow> ''null''
    | TNum n \<Rightarrow> n
    | TStr s \<Rightarrow> quot # escape s @ [quot])"

fun commas :: "jtok list list \<Rightarrow> jtok list" where
  "commas [] = []"
| "commas [x] = x"
| "commas (x # y # ys) = x @ TComma # commas (y # ys)"

fun jtoks :: "json \<Rightarrow> jtok list" where
  "jtoks JNull = [TNull]"
| "jtoks (JBool b) = [if b then TTrue else TFalse]"
| "jtoks (JNum n) = [TNum n]"
| "jtoks (JStr s) = [TStr s]"
| "jtoks (JArr vs) = TLBrack # commas (map jtoks vs) @ [TRBrack]"
| "jtoks (JObj kvs) = TLBrace # commas (map (\<lambda>kv. TStr (fst kv) # TColon # jtoks (snd kv)) kvs) @ [TRBrace]"

definition json_print :: "json \<Rightarrow> string" where
  "json_print v = concat (map print_tok (jtoks v))"

subsection \<open>Parsing what was printed\<close>

text \<open>A value the printer can be given: valid UTF-8 strings and number literals of the grammar.\<close>

definition num_ok :: "string \<Rightarrow> bool" where
  "num_ok n \<longleftrightarrow> scan_number n = Some (n, [])"

fun json_ok :: "json \<Rightarrow> bool" where
  "json_ok (JNum n) = num_ok n"
| "json_ok (JStr s) = valid_utf8 s"
| "json_ok (JArr vs) = (\<forall>v \<in> set vs. json_ok v)"
| "json_ok (JObj kvs) = (\<forall>kv \<in> set kvs. valid_utf8 (fst kv) \<and> json_ok (snd kv))"
| "json_ok v = True"

fun depth :: "json \<Rightarrow> nat" where
  "depth (JArr vs) = Suc (foldr max (map depth vs) 0)"
| "depth (JObj kvs) = Suc (foldr max (map (\<lambda>kv. depth (snd kv)) kvs) 0)"
| "depth v = 0"

text \<open>What may follow a number so that it is not read as part of it.\<close>

definition ends_num :: "string \<Rightarrow> bool" where
  "ends_num r \<longleftrightarrow> (case r of [] \<Rightarrow> True | c # _ \<Rightarrow> \<not> is_digit c \<and> c \<notin> {CHR ''.'', CHR ''e'', CHR ''E''})"

lemma takeWhile_ends: "ends_num r \<Longrightarrow> takeWhile is_digit (s @ r) = takeWhile is_digit s"
  by (induction s) (auto simp: ends_num_def split: list.splits)

lemma dropWhile_ends: "ends_num r \<Longrightarrow> dropWhile is_digit (s @ r) = dropWhile is_digit s @ r"
  by (induction s) (auto simp: ends_num_def split: list.splits)

lemma scan_digits_ends:
  "ends_num r \<Longrightarrow> scan_digits s = Some (a, b) \<Longrightarrow> scan_digits (s @ r) = Some (a, b @ r)"
  by (auto simp: scan_digits_def takeWhile_ends dropWhile_ends split: if_splits)

lemma scan_int_ends:
  "ends_num r \<Longrightarrow> scan_int s = Some (a, b) \<Longrightarrow> scan_int (s @ r) = Some (a, b @ r)"
  by (cases s) (auto simp: scan_int_def split: if_splits dest: scan_digits_ends [of r "_ # _"])

lemma scan_frac_ends:
  assumes "ends_num r" "scan_frac s = Some (a, b)"
  shows "scan_frac (s @ r) = Some (a, b @ r)"
proof (cases s)
  case Nil
  then show ?thesis using assms by (cases r) (auto simp: scan_frac_def ends_num_def)
next
  case (Cons c cs)
  with assms show ?thesis
    by (auto simp: scan_frac_def split: if_splits dest: scan_digits_ends [of r cs])
qed

lemma scan_exp_ends:
  assumes "ends_num r" "scan_exp s = Some (a, b)"
  shows "scan_exp (s @ r) = Some (a, b @ r)"
proof (cases s)
  case Nil
  then show ?thesis using assms by (cases r) (auto simp: scan_exp_def ends_num_def)
next
  case (Cons c cs)
  show ?thesis
  proof (cases cs)
    case Nil
    with Cons assms show ?thesis by (auto simp: scan_exp_def split: if_splits)
  next
    case (Cons d ds)
    with \<open>s = c # cs\<close> assms show ?thesis
      by (auto simp: scan_exp_def split: if_splits
          dest: scan_digits_ends [of r ds] scan_digits_ends [of r "d # ds"])
  qed
qed

lemma scan_number_ends:
  assumes r: "ends_num r" and n: "scan_number s = Some (a, b)"
  shows "scan_number (s @ r) = Some (a, b @ r)"
proof -
  obtain c cs where s: "s = c # cs" using n by (cases s) (auto simp: scan_number_def scan_int_def)
  define s1 where "s1 = (if c = CHR ''-'' then cs else s)"
  obtain i s2 f s3 e where p: "scan_int s1 = Some (i, s2)" "scan_frac s2 = Some (f, s3)"
    "scan_exp s3 = Some (e, b)" "a = (if c = CHR ''-'' then [c] else []) @ i @ f @ e"
    using n by (auto simp: scan_number_def s s1_def split: if_splits option.splits prod.splits)
  show ?thesis
    using scan_int_ends [OF r p(1)] scan_frac_ends [OF r p(2)] scan_exp_ends [OF r p(3)] p(4)
    by (auto simp: scan_number_def s s1_def split: if_splits)
qed

lemma number_head:
  assumes "num_ok (c # cs)"
  shows "is_digit c \<or> c = CHR ''-''"
proof (rule ccontr)
  assume "\<not> ?thesis"
  then have c: "\<not> is_digit c" "c \<noteq> CHR ''-''" by auto
  then have "c \<noteq> CHR ''0''" by (auto simp: is_digit_def ord_def)
  with c have "scan_number (c # cs) = None"
    by (simp add: scan_number_def scan_int_def scan_digits_def)
  with assms show False by (simp add: num_ok_def)
qed

lemma number_nonempty: "num_ok n \<Longrightarrow> n \<noteq> []"
  by (auto simp: num_ok_def dest: scan_number_append)

lemma tokens_number:
  assumes "num_ok n" "ends_num r"
  shows "tokens (n @ r) = map_option (Cons (TNum n)) (tokens r)"
proof -
  obtain c cs where n: "n = c # cs" using number_nonempty [OF assms(1)] by (cases n) auto
  have c: "is_digit c \<or> c = CHR ''-''" using number_head assms(1) n by simp
  then have "48 \<le> ord c \<and> ord c \<le> 57 \<or> ord c = 45" by (auto simp: is_digit_def ord_def)
  then have "\<not> is_space c" "c \<noteq> CHR ''{''" "c \<noteq> CHR ''}''" "c \<noteq> CHR ''[''" "c \<noteq> CHR '']''"
    "c \<noteq> CHR '':''" "c \<noteq> CHR '',''" "c \<noteq> quot" "c \<noteq> CHR ''t''" "c \<noteq> CHR ''f''" "c \<noteq> CHR ''n''"
    by (auto simp: is_space_def ord_def)
  moreover have "scan_number (c # cs @ r) = Some (n, r)"
    using scan_number_ends [OF assms(2), of n n "[]"] assms(1) by (simp add: num_ok_def n)
  ultimately show ?thesis by (simp add: n tokens.simps(2))
qed

fun tok_ok :: "jtok \<Rightarrow> bool" where
  "tok_ok (TNum n) = num_ok n"
| "tok_ok (TStr s) = valid_utf8 s"
| "tok_ok t = True"

lemma tokens_print_tok:
  assumes "tok_ok t" "\<And>n. t = TNum n \<Longrightarrow> ends_num r"
  shows "tokens (print_tok t @ r) = map_option (Cons t) (tokens r)"
proof (cases t)
  case (TNum n)
  with assms show ?thesis by (simp add: print_tok_def tokens_number)
next
  case (TStr s)
  with assms show ?thesis
    by (simp add: print_tok_def tokens.simps(2) is_space_def scan_escape unescape_escape)
qed (simp_all add: print_tok_def tokens.simps(2) is_space_def ord_def)

text \<open>No two number tokens side by side: then every token is read back as printed.\<close>

fun spaced :: "jtok list \<Rightarrow> bool" where
  "spaced (TNum m # TNum n # ts) = False"
| "spaced (t # ts) = spaced ts"
| "spaced [] = True"

lemma ends_num_print:
  "\<forall>n. t \<noteq> TNum n \<Longrightarrow> ends_num (print_tok t @ r)"
  by (cases t) (auto simp: print_tok_def ends_num_def is_digit_def ord_def)

lemma tokens_print:
  "\<forall>t \<in> set ts. tok_ok t \<Longrightarrow> spaced ts \<Longrightarrow> tokens (concat (map print_tok ts)) = Some ts"
proof (induction ts)
  case Nil
  then show ?case by simp
next
  case (Cons t ts)
  have "spaced ts" using Cons.prems(2) by (cases ts; cases t) (auto elim: spaced.elims)
  with Cons have ih: "tokens (concat (map print_tok ts)) = Some ts" by simp
  have "ends_num (concat (map print_tok ts))" if "t = TNum n" for n
  proof (cases ts)
    case Nil
    then show ?thesis by (simp add: ends_num_def)
  next
    case (Cons u us)
    then have "\<forall>m. u \<noteq> TNum m" using Cons.prems(2) that by auto
    with Cons ends_num_print show ?thesis by simp
  qed
  with Cons.prems(1) ih show ?case by (simp add: tokens_print_tok)
qed

text \<open>Printed values are spaced, since each value is followed by a comma or a bracket.\<close>

definition no_num :: "jtok list \<Rightarrow> bool" where
  "no_num ts \<longleftrightarrow> (case ts of TNum n # _ \<Rightarrow> False | _ \<Rightarrow> True)"

lemma no_num_simps [simp]:
  "no_num []" "no_num (TComma # ts)" "no_num (TRBrack # ts)" "no_num (TRBrace # ts)"
  by (simp_all add: no_num_def)

lemma spaced_TNum: "no_num ts \<Longrightarrow> spaced ts \<Longrightarrow> spaced (TNum n # ts)"
  by (cases ts) (auto simp: no_num_def split: jtok.splits)

lemma spaced_Cons: "\<forall>n. t \<noteq> TNum n \<Longrightarrow> spaced (t # ts) = spaced ts"
  by (cases t) auto

lemma spaced_commas:
  "(\<And>x ts. x \<in> set xs \<Longrightarrow> no_num ts \<Longrightarrow> spaced ts \<Longrightarrow> spaced (x @ ts)) \<Longrightarrow> no_num ts \<Longrightarrow> spaced ts \<Longrightarrow>
   spaced (commas xs @ ts)"
  by (induction xs rule: commas.induct) (auto simp: spaced_Cons)

lemma spaced_jtoks: "no_num ts \<Longrightarrow> spaced ts \<Longrightarrow> spaced (jtoks v @ ts)"
proof (induction v arbitrary: ts)
  case (JNum n)
  then show ?case by (simp add: spaced_TNum)
next
  case (JArr vs)
  then show ?case by (auto simp: spaced_Cons intro!: spaced_commas)
next
  case (JObj kvs)
  have "spaced ((TStr (fst kv) # TColon # jtoks (snd kv)) @ us)"
    if "kv \<in> set kvs" "no_num us" "spaced us" for kv us
    using JObj.IH [of kv "snd kv"] that by (cases kv) (simp add: spaced_Cons)
  then show ?case using JObj.prems by (auto simp: spaced_Cons intro!: spaced_commas)
qed (simp_all add: spaced_Cons)

lemma set_commas: "t \<in> set (commas xs) \<Longrightarrow> t = TComma \<or> (\<exists>x \<in> set xs. t \<in> set x)"
  by (induction xs rule: commas.induct) auto

lemma tok_ok_jtoks: "json_ok v \<Longrightarrow> t \<in> set (jtoks v) \<Longrightarrow> tok_ok t"
proof (induction v arbitrary: t)
  case (JArr vs)
  then show ?case by (auto dest!: set_commas)
next
  case (JObj kvs)
  have "tok_ok t" if "kv \<in> set kvs" "t \<in> set (jtoks (snd kv))" for kv
    using JObj.IH [of kv "snd kv" t] JObj.prems(1) that by (cases kv) auto
  moreover have "valid_utf8 (fst kv)" if "kv \<in> set kvs" for kv using JObj.prems(1) that by simp
  ultimately show ?case using JObj.prems(2) by (fastforce dest!: set_commas)
qed (auto split: if_splits)

lemma jrun_commas_arr:
  assumes "\<And>v ts stk. v \<in> set vs \<Longrightarrow> length stk + depth v \<le> max_depth \<Longrightarrow>
      jrun stk MVal (jtoks v @ ts) = jrun stk (MEnd v) ts"
    and "vs \<noteq> []" "Suc (length stk) + foldr max (map depth vs) 0 \<le> max_depth"
  shows "jrun (FArr ws # stk) MVal (commas (map jtoks vs) @ TRBrack # ts) =
    jrun stk (MEnd (JArr (ws @ vs))) ts"
  using assms
proof (induction vs arbitrary: ws)
  case Nil
  then show ?case by simp
next
  case (Cons v vs)
  have v: "jrun (FArr ws # stk) MVal (jtoks v @ us) = jrun (FArr ws # stk) (MEnd v) us" for us
    using Cons.prems(1) [of v "FArr ws # stk" us] Cons.prems(3) by simp
  show ?case
  proof (cases vs)
    case Nil
    with v show ?thesis by (simp add: jstep_def)
  next
    case (Cons w us)
    have "jrun (FArr (ws @ [v]) # stk) MVal (commas (map jtoks vs) @ TRBrack # ts) =
        jrun stk (MEnd (JArr ((ws @ [v]) @ vs))) ts"
      using Cons.prems Cons by (intro Cons.IH) auto
    with v Cons show ?thesis by (simp add: jstep_def)
  qed
qed

lemma jrun_commas_obj:
  assumes "\<And>kv ts stk. kv \<in> set kvs \<Longrightarrow> length stk + depth (snd kv) \<le> max_depth \<Longrightarrow>
      jrun stk MVal (jtoks (snd kv) @ ts) = jrun stk (MEnd (snd kv)) ts"
    and "kvs \<noteq> []" "Suc (length stk) + foldr max (map (\<lambda>kv. depth (snd kv)) kvs) 0 \<le> max_depth"
    and "m = MKey \<or> m = MObj0"
  shows "jrun (FObj ws # stk) m
      (commas (map (\<lambda>kv. TStr (fst kv) # TColon # jtoks (snd kv)) kvs) @ TRBrace # ts) =
    jrun stk (MEnd (JObj (ws @ kvs))) ts"
  using assms
proof (induction kvs arbitrary: ws m)
  case Nil
  then show ?case by simp
next
  case (Cons kv kvs)
  have v: "jrun (FKey ws (fst kv) # stk) MVal (jtoks (snd kv) @ us) =
      jrun (FKey ws (fst kv) # stk) (MEnd (snd kv)) us" for us
    using Cons.prems(1) [of kv "FKey ws (fst kv) # stk" us] Cons.prems(3) by simp
  note step = jstep_def begin_key_def
  show ?case
  proof (cases kvs)
    case Nil
    with v Cons.prems(4) show ?thesis by (auto simp: step)
  next
    case (Cons w us)
    have "jrun (FObj (ws @ [kv]) # stk) MKey
        (commas (map (\<lambda>kv. TStr (fst kv) # TColon # jtoks (snd kv)) kvs) @ TRBrace # ts) =
        jrun stk (MEnd (JObj ((ws @ [kv]) @ kvs))) ts"
      using Cons.prems Cons by (intro Cons.IH) auto
    with v Cons Cons.prems(4) show ?thesis by (auto simp: step)
  qed
qed

lemma jrun_first: "jrun stk MArr0 (jtoks v @ ts) = jrun stk MVal (jtoks v @ ts)"
  by (cases v) (simp_all add: jstep_def)

lemma depth_member:
  "v \<in> set vs \<Longrightarrow> depth v \<le> foldr max (map depth vs) 0"
  by (induction vs) auto

lemma jrun_jtoks:
  "length stk + depth v \<le> max_depth \<Longrightarrow> jrun stk MVal (jtoks v @ ts) = jrun stk (MEnd v) ts"
proof (induction v arbitrary: stk ts)
  case (JArr vs)
  show ?case
  proof (cases vs)
    case Nil
    with JArr.prems show ?thesis by (simp add: jstep_def begin_value_def)
  next
    case (Cons w us)
    have "jrun (FArr [] # stk) MVal (commas (map jtoks vs) @ TRBrack # ts) =
        jrun stk (MEnd (JArr ([] @ vs))) ts"
      using JArr Cons by (intro jrun_commas_arr) auto
    moreover have "commas (map jtoks vs) @ TRBrack # ts =
        jtoks w @ (case us of [] \<Rightarrow> TRBrack # ts | _ \<Rightarrow> TComma # commas (map jtoks us) @ TRBrack # ts)"
      by (simp add: Cons split: list.splits)
    ultimately have "jrun (FArr [] # stk) MArr0 (commas (map jtoks vs) @ TRBrack # ts) =
        jrun stk (MEnd (JArr vs)) ts" using jrun_first by simp
    with JArr.prems show ?thesis by (simp add: jstep_def begin_value_def)
  qed
next
  case (JObj kvs)
  have ih: "jrun s MVal (jtoks (snd kv) @ us) = jrun s (MEnd (snd kv)) us"
    if "kv \<in> set kvs" "length s + depth (snd kv) \<le> max_depth" for kv s us
    using JObj.IH [of kv "snd kv"] that by (cases kv) auto
  show ?case
  proof (cases kvs)
    case Nil
    with JObj.prems show ?thesis by (simp add: jstep_def begin_value_def)
  next
    case (Cons w us)
    have "jrun (FObj [] # stk) MObj0
        (commas (map (\<lambda>kv. TStr (fst kv) # TColon # jtoks (snd kv)) kvs) @ TRBrace # ts) =
        jrun stk (MEnd (JObj ([] @ kvs))) ts"
      using JObj.prems ih Cons by (intro jrun_commas_obj) auto
    with JObj.prems show ?thesis by (simp add: jstep_def begin_value_def)
  qed
qed (auto simp: jstep_def begin_value_def)

theorem json_parse_print:
  assumes "json_ok v" "depth v \<le> max_depth"
  shows "json_parse (json_print v) = Some v"
proof -
  have "spaced (jtoks v)" using spaced_jtoks [of "[]" v] by simp
  then have "tokens (json_print v) = Some (jtoks v)"
    using tok_ok_jtoks [OF assms(1)] unfolding json_print_def by (intro tokens_print) auto
  with jrun_jtoks [of "[]" v "[]"] assms(2) show ?thesis by (simp add: json_parse_def)
qed

text \<open>The number literals the printer writes for Go's unsigned integers.\<close>

lemma num_ok_dec [simp]: "num_ok (dec n)"
proof -
  obtain c s where d: "dec n = c # s" by (cases "dec n") auto
  have all: "takeWhile is_digit (c # s) = c # s" "dropWhile is_digit (c # s) = []"
    using dec_digits [of n] d by (auto simp: takeWhile_eq_all_conv dropWhile_eq_Nil_conv)
  have c: "c \<noteq> CHR ''-''" using dec_digits [of n] d by (auto simp: is_digit_def ord_def)
  have "c = CHR ''0'' \<Longrightarrow> s = []" using dec_head [OF d] by simp
  then have "scan_int (c # s) = Some (c # s, [])"
    using all by (auto simp: scan_int_def scan_digits_def)
  with c show ?thesis by (simp add: num_ok_def d scan_number_def scan_frac_def scan_exp_def)
qed

lemma length_escape_ascii: "length (escape_ascii c) \<le> 6"
  by (simp add: escape_ascii_def)

lemma length_escape: "length (escape s) \<le> 6 * length s"
proof (induction s rule: length_induct)
  case (1 s)
  show ?case
  proof (cases s)
    case Nil
    then show ?thesis by simp
  next
    case (Cons c cs)
    have ih: "length (escape (drop j cs)) \<le> 6 * (length cs - j)" for j
      using 1 [rule_format, of "drop j cs"] Cons by simp
    obtain r k where d: "decode_rune (c # cs) = (r, k)" by (cases "decode_rune (c # cs)")
    note e = escape.simps(2) [of c cs, unfolded d split_conv]
    have m: "length (take k (c # cs)) + 6 * (length cs - (k - 1)) \<le> 6 * Suc (length cs)" by (cases k) auto
    consider "ord c < 0x80" | "\<not> ord c < 0x80" "k = 1" | "\<not> ord c < 0x80" "k \<noteq> 1" "r = 0x2028 \<or> r = 0x2029"
      | "\<not> ord c < 0x80" "k \<noteq> 1" "\<not> (r = 0x2028 \<or> r = 0x2029)" by blast
    then have "length (escape (c # cs)) \<le> 6 * Suc (length cs)"
    proof cases
      case 1
      then show ?thesis using ih [of 0] length_escape_ascii [of c] by (simp add: e)
    next
      case 2
      then show ?thesis using ih [of 0] by (simp add: e)
    next
      case 3
      have "6 * (length cs - (k - 1)) \<le> 6 * length cs" by simp
      with ih [of "k - 1"] show ?thesis unfolding e if_not_P [OF 3(1)] if_not_P [OF 3(2)] if_P [OF 3(3)] by simp
    next
      case 4
      show ?thesis unfolding e if_not_P [OF 4(1)] if_not_P [OF 4(2)] if_not_P [OF 4(3)] length_append
        using ih [of "k - 1"] m by linarith
    qed
    then show ?thesis by (simp add: Cons)
  qed
qed

end
