(* ===== verification/GoHash.thy ===== *)
theory GoHash
  imports GoText
begin

text \<open>
  The two digests of Go's standard library the source uses: \<open>crypto/sha256\<close> (\<open>protocol.HashToken\<close>)
  and \<open>crypto/sha1\<close> (the WebSocket accept key), over 32-bit words, as FIPS 180-4 states them.
\<close>

type_synonym u32 = "32 word"

subsection \<open>Padding and blocks\<close>

text \<open>One byte \<open>0x80\<close>, zeros up to 56 modulo 64, and the length in bits as 8 bytes.\<close>

definition md_pad :: "bytes \<Rightarrow> bytes" where
  "md_pad m = m @ [0x80] @ replicate ((119 - length m mod 64) mod 64) 0 @ put_be 8 (8 * length m)"

fun chunks :: "nat \<Rightarrow> 'a list \<Rightarrow> 'a list list" where
  "chunks n [] = []"
| "chunks n (x # xs) = take n (x # xs) # chunks n (drop (n - 1) xs)"

definition be_word :: "bytes \<Rightarrow> u32" where
  "be_word b = foldl (\<lambda>a w. push_bit 8 a OR ucast w) 0 b"

definition be_words :: "bytes \<Rightarrow> u32 list" where
  "be_words b = map be_word (chunks 4 b)"

definition be_bytes :: "u32 list \<Rightarrow> bytes" where
  "be_bytes ws =
    concat (map (\<lambda>w. [ucast (drop_bit 24 w), ucast (drop_bit 16 w), ucast (drop_bit 8 w), ucast w]) ws)"

lemma length_be_bytes [simp]: "length (be_bytes ws) = 4 * length ws"
  by (induction ws) (simp_all add: be_bytes_def)

subsection \<open>SHA-256\<close>

text \<open>The 64 round constants, eight to a row of 32 bytes.\<close>

definition sha256_k :: "u32 list" where
  "sha256_k = concat (map (\<lambda>row. be_words (put_be 32 row))
    [0x428a2f9871374491b5c0fbcfe9b5dba53956c25b59f111f1923f82a4ab1c5ed5,
     0xd807aa9812835b01243185be550c7dc372be5d7480deb1fe9bdc06a7c19bf174,
     0xe49b69c1efbe47860fc19dc6240ca1cc2de92c6f4a7484aa5cb0a9dc76f988da,
     0x983e5152a831c66db00327c8bf597fc7c6e00bf3d5a7914706ca635114292967,
     0x27b70a852e1b21384d2c6dfc53380d13650a7354766a0abb81c2c92e92722c85,
     0xa2bfe8a1a81a664bc24b8b70c76c51a3d192e819d6990624f40e3585106aa070,
     0x19a4c1161e376c082748774c34b0bcb5391c0cb34ed8aa4a5b9cca4f682e6ff3,
     0x748f82ee78a5636f84c878148cc7020890befffaa4506cebbef9a3f7c67178f2])"

definition sha256_init :: "u32 list" where
  "sha256_init =
    [0x6a09e667, 0xbb67ae85, 0x3c6ef372, 0xa54ff53a,
     0x510e527f, 0x9b05688c, 0x1f83d9ab, 0x5be0cd19]"

definition shr :: "nat \<Rightarrow> u32 \<Rightarrow> u32" where
  "shr n x = drop_bit n x"

definition rotr :: "nat \<Rightarrow> u32 \<Rightarrow> u32" where
  "rotr n x = drop_bit n x OR push_bit (32 - n) x"

text \<open>The message schedule, newest word first.\<close>

primrec sha256_schedule :: "nat \<Rightarrow> u32 list \<Rightarrow> u32 list" where
  "sha256_schedule 0 ws = ws"
| "sha256_schedule (Suc n) ws =
    (let a = ws ! 1; b = ws ! 14;
         s1 = rotr 17 a XOR rotr 19 a XOR shr 10 a;
         s0 = rotr 7 b XOR rotr 18 b XOR shr 3 b
     in sha256_schedule n ((s1 + ws ! 6 + s0 + ws ! 15) # ws))"

fun sha256_round :: "u32 list \<Rightarrow> u32 \<times> u32 \<Rightarrow> u32 list" where
  "sha256_round [a, b, c, d, e, f, g, h] (k, w) =
    (let t1 = h + (rotr 6 e XOR rotr 11 e XOR rotr 25 e) + ((e AND f) XOR (NOT e AND g)) + k + w;
         t2 = (rotr 2 a XOR rotr 13 a XOR rotr 22 a) + ((a AND b) XOR (a AND c) XOR (b AND c))
     in [t1 + t2, a, b, c, d + t1, e, f, g])"
| "sha256_round s _ = s"

definition sha256_block :: "u32 list \<Rightarrow> bytes \<Rightarrow> u32 list" where
  "sha256_block st b =
    map2 (+) st (foldl sha256_round st (zip sha256_k (rev (sha256_schedule 48 (rev (be_words b))))))"

definition sha256 :: "bytes \<Rightarrow> bytes" where
  "sha256 m = be_bytes (foldl sha256_block sha256_init (chunks 64 (md_pad m)))"

subsection \<open>SHA-1\<close>

definition sha1_init :: "u32 list" where
  "sha1_init = [0x67452301, 0xefcdab89, 0x98badcfe, 0x10325476, 0xc3d2e1f0]"

definition rotl :: "nat \<Rightarrow> u32 \<Rightarrow> u32" where
  "rotl n x = push_bit n x OR drop_bit (32 - n) x"

primrec sha1_schedule :: "nat \<Rightarrow> u32 list \<Rightarrow> u32 list" where
  "sha1_schedule 0 ws = ws"
| "sha1_schedule (Suc n) ws =
    sha1_schedule n (rotl 1 (ws ! 2 XOR ws ! 7 XOR ws ! 13 XOR ws ! 15) # ws)"

definition sha1_f :: "nat \<Rightarrow> u32 \<Rightarrow> u32 \<Rightarrow> u32 \<Rightarrow> u32 \<times> u32" where
  "sha1_f t b c d =
    (if t < 20 then ((b AND c) OR (NOT b AND d), 0x5a827999)
     else if t < 40 then (b XOR c XOR d, 0x6ed9eba1)
     else if t < 60 then ((b AND c) OR (b AND d) OR (c AND d), 0x8f1bbcdc)
     else (b XOR c XOR d, 0xca62c1d6))"

fun sha1_round :: "u32 list \<Rightarrow> nat \<times> u32 \<Rightarrow> u32 list" where
  "sha1_round [a, b, c, d, e] (t, w) =
    (case sha1_f t b c d of (f, k) \<Rightarrow> [rotl 5 a + f + e + k + w, a, rotl 30 b, c, d])"
| "sha1_round s _ = s"

definition sha1_block :: "u32 list \<Rightarrow> bytes \<Rightarrow> u32 list" where
  "sha1_block st b =
    map2 (+) st (foldl sha1_round st (zip [0..<80] (rev (sha1_schedule 64 (rev (be_words b))))))"

definition sha1 :: "bytes \<Rightarrow> bytes" where
  "sha1 m = be_bytes (foldl sha1_block sha1_init (chunks 64 (md_pad m)))"

subsection \<open>Digest lengths\<close>

lemma length_sha256_round: "length (sha256_round s x) = length s"
  by (induction s x rule: sha256_round.induct) (simp_all add: Let_def)

lemma length_foldl_inv:
  "(\<And>s x. length (f s x) = length s) \<Longrightarrow> length (foldl f s xs) = length s"
  by (induction xs arbitrary: s) simp_all

lemma length_sha256 [simp]: "length (sha256 m) = 32"
  by (simp add: sha256_def length_foldl_inv sha256_block_def length_sha256_round sha256_init_def)

lemma length_sha1_round: "length (sha1_round s x) = length s"
  by (induction s x rule: sha1_round.induct) (simp_all split: prod.splits)

lemma length_sha1 [simp]: "length (sha1 m) = 20"
  by (simp add: sha1_def length_foldl_inv sha1_block_def length_sha1_round sha1_init_def)

end
