(* ===== verification/GoNet.thy ===== *)
theory GoNet
  imports GoPrelude
begin

text \<open>
  What the source uses of Go's \<open>net\<close> and \<open>io\<close>: a \<open>net.Conn\<close> as the two byte streams the process
  sees of it, \<open>Read\<close>, \<open>Write\<close> and \<open>Close\<close> on it, and \<open>io.ReadFull\<close> over any \<open>io.Reader\<close>.

  A connection holds the segments the peer will deliver (\<open>rx\<close>; a single \<open>Read\<close> returns bytes of one
  segment only, so short reads are part of the model), how the incoming stream ends (\<open>rx_end\<close>: an
  error such as \<open>EOF\<close> or a deadline, or \<open>None\<close> for a peer that stays silent for ever, on which
  \<open>Read\<close> never returns), the bytes written so far (\<open>tx\<close>), how many more the network accepts before
  writes fail (\<open>tx_room\<close>, \<open>None\<close> for no limit), and whether the process has closed it. An error made
  by \<open>fmt.Errorf\<close> is \<open>Errorf\<close>, with \<open>%w\<close> around a cause \<open>Wrapped\<close>; a wrapped \<open>EOF\<close> is not \<open>EOF\<close> itself.
\<close>

datatype io_err = EOF | UnexpectedEOF | ErrClosed | ErrTimeout | ErrNet
  | Errorf string | Wrapped string io_err

record conn =
  rx :: "bytes list"
  rx_end :: "io_err option"
  tx :: bytes
  tx_room :: "nat option"
  opened :: bool

type_synonym 'c reader = "nat \<Rightarrow> 'c \<Rightarrow> ('c \<times> bytes \<times> io_err option) option"
type_synonym 'c writer = "bytes \<Rightarrow> 'c \<Rightarrow> 'c \<times> nat \<times> io_err option"

definition conn_read :: "conn reader" where
  "conn_read n c =
     (if \<not> opened c then Some (c, [], Some ErrClosed)
      else if n = 0 then Some (c, [], None)
      else case rx c of
        [] \<Rightarrow> (case rx_end c of None \<Rightarrow> None | Some e \<Rightarrow> Some (c, [], Some e))
      | s # ss \<Rightarrow> Some (c\<lparr>rx := (if length s \<le> n then ss else drop n s # ss)\<rparr>, take n s, None))"

definition conn_write :: "conn writer" where
  "conn_write b c =
     (if \<not> opened c then (c, 0, Some ErrClosed)
      else case tx_room c of
        None \<Rightarrow> (c\<lparr>tx := tx c @ b\<rparr>, length b, None)
      | Some r \<Rightarrow>
          (if length b \<le> r
           then (c\<lparr>tx := tx c @ b, tx_room := Some (r - length b)\<rparr>, length b, None)
           else (c\<lparr>tx := tx c @ take r b, tx_room := Some 0\<rparr>, r, Some ErrNet)))"

definition idle_conn :: conn where
  "idle_conn = \<lparr>rx = [], rx_end = None, tx = [], tx_room = None, opened = True\<rparr>"

definition conn_close :: "conn \<Rightarrow> conn" where
  "conn_close c = c\<lparr>opened := False\<rparr>"

text \<open>The bytes still to be read from a connection, and how the stream ends after them.\<close>

definition conn_pending :: "conn \<Rightarrow> bytes" where
  "conn_pending c = (if opened c then concat (rx c) else [])"

definition conn_fin :: "conn \<Rightarrow> io_err option" where
  "conn_fin c = (if opened c then rx_end c else Some ErrClosed)"

definition conn_left :: "conn \<Rightarrow> nat" where
  "conn_left c = length (rx c) + length (concat (rx c))"

definition conn_kept :: "conn \<Rightarrow> bytes \<times> nat option \<times> bool" where
  "conn_kept c = (tx c, tx_room c, opened c)"

definition conn_can_send :: "conn \<Rightarrow> bool" where
  "conn_can_send c \<longleftrightarrow> opened c \<and> tx_room c = None"

subsection \<open>\<open>io.ReadFull\<close>\<close>

text \<open>
  \<open>io.ReadAtLeast\<close> with the buffer full as its minimum: read again while bytes are missing and no
  error has come. A reader that keeps returning no bytes and no error never ends the loop, hence
  the option. \<open>EOF\<close> after at least one byte becomes \<open>ErrUnexpectedEOF\<close>.
\<close>

partial_function (option) read_loop ::
  "'c reader \<Rightarrow> nat \<Rightarrow> bytes \<Rightarrow> 'c \<Rightarrow> ('c \<times> bytes \<times> io_err option) option" where
  "read_loop rd n acc c =
     (if n \<le> length acc then Some (c, acc, None)
      else case rd (n - length acc) c of
        None \<Rightarrow> None
      | Some (c', d, e) \<Rightarrow>
          (case e of
            None \<Rightarrow> read_loop rd n (acc @ d) c'
          | Some x \<Rightarrow> Some (c', acc @ d, Some x)))"

definition short_err :: "bytes \<Rightarrow> io_err \<Rightarrow> io_err" where
  "short_err got e = (if e = EOF \<and> got \<noteq> [] then UnexpectedEOF else e)"

definition read_full :: "'c reader \<Rightarrow> nat \<Rightarrow> ('c, io_err, bytes) io" where
  "read_full rd n c =
     (case read_loop rd n [] c of
        None \<Rightarrow> None
      | Some (c', b, e) \<Rightarrow>
          (case e of
            None \<Rightarrow> Some (c', Inr b)
          | Some x \<Rightarrow> if n \<le> length b then Some (c', Inr b) else Some (c', Inl (short_err b x))))"

text \<open>\<open>if _, err := w.Write(b); err != nil { return err }\<close>\<close>

definition write_all :: "'c writer \<Rightarrow> bytes \<Rightarrow> ('c, io_err, unit) io" where
  "write_all wr b c = (case wr b c of
      (c', n, None) \<Rightarrow> Some (c', Inr ())
    | (c', n, Some e) \<Rightarrow> Some (c', Inl e))"

subsection \<open>The contract of a byte stream\<close>

text \<open>
  What \<open>io.ReadFull\<close> and everything above it needs of a reader: a \<open>Read\<close> into a non-empty buffer
  hands over a prefix of the pending bytes and makes progress; an error comes only when nothing is
  pending, and it is the one the stream ends with; the rest of the state (\<open>kept\<close>) stays. \<open>rleft\<close>
  bounds how many more reads can succeed.
\<close>

locale stream_reader =
  fixes rd :: "'c reader"
    and pending :: "'c \<Rightarrow> bytes"
    and fin :: "'c \<Rightarrow> io_err option"
    and kept :: "'c \<Rightarrow> 'k"
    and rleft :: "'c \<Rightarrow> nat"
  assumes rd_progress: "0 < n \<Longrightarrow> rd n c = Some (c', d, None) \<Longrightarrow>
      length d \<le> n \<and> pending c = d @ pending c' \<and> fin c' = fin c \<and> kept c' = kept c \<and>
      rleft c' < rleft c"
    and rd_data: "0 < n \<Longrightarrow> pending c \<noteq> [] \<Longrightarrow> \<exists>c' d. rd n c = Some (c', d, None)"
    and rd_error: "0 < n \<Longrightarrow> rd n c = Some (c', d, Some e) \<Longrightarrow>
      d = [] \<and> fin c = Some e \<and> kept c' = kept c"
    and rd_ends: "0 < n \<Longrightarrow> fin c = Some e \<Longrightarrow> \<exists>r. rd n c = Some r"
begin

lemma read_loop_ok:
  "n \<le> length acc + length (pending c) \<Longrightarrow> length acc \<le> n \<Longrightarrow>
   \<exists>c'. read_loop rd n acc c = Some (c', acc @ take (n - length acc) (pending c), None) \<and>
     pending c' = drop (n - length acc) (pending c) \<and> fin c' = fin c \<and> kept c' = kept c"
proof (induction "rleft c" arbitrary: c acc rule: less_induct)
  case less
  show ?case
  proof (cases "n \<le> length acc")
    case True
    with less.prems show ?thesis by (simp add: read_loop.simps)
  next
    case False
    then have n: "0 < n - length acc" and p: "pending c \<noteq> []" using less.prems by auto
    obtain c' d where r: "rd (n - length acc) c = Some (c', d, None)"
      using rd_data [OF n p] by blast
    note pr = rd_progress [OF n r]
    have "\<exists>c''. read_loop rd n (acc @ d) c' =
        Some (c'', (acc @ d) @ take (n - length (acc @ d)) (pending c'), None) \<and>
        pending c'' = drop (n - length (acc @ d)) (pending c') \<and> fin c'' = fin c' \<and> kept c'' = kept c'"
      using pr less.prems False by (intro less.hyps) auto
    moreover have "read_loop rd n acc c = read_loop rd n (acc @ d) c'"
      using False r by (subst read_loop.simps) simp
    ultimately show ?thesis using pr by auto
  qed
qed

lemma read_loop_short:
  "length acc + length (pending c) < n \<Longrightarrow> fin c = Some e \<Longrightarrow>
   \<exists>c'. read_loop rd n acc c = Some (c', acc @ pending c, Some e) \<and> kept c' = kept c"
proof (induction "rleft c" arbitrary: c acc rule: less_induct)
  case less
  then have n: "0 < n - length acc" by simp
  obtain c' d x where r: "rd (n - length acc) c = Some (c', d, x)"
    using rd_ends [OF n less.prems(2)] by (metis prod_cases3)
  show ?case
  proof (cases x)
    case None
    note pr = rd_progress [OF n r [unfolded None]]
    have "\<exists>c''. read_loop rd n (acc @ d) c' = Some (c'', (acc @ d) @ pending c', Some e) \<and> kept c'' = kept c'"
      using pr less.prems by (intro less.hyps) auto
    with r None pr n show ?thesis by (subst read_loop.simps) auto
  next
    case (Some y)
    have "pending c = []" using rd_data [OF n] r Some by fastforce
    with rd_error [OF n r [unfolded Some]] r Some less.prems(2) n show ?thesis
      by (subst read_loop.simps) auto
  qed
qed

lemma read_loop_blocks:
  "length acc + length (pending c) < n \<Longrightarrow> fin c = None \<Longrightarrow> read_loop rd n acc c = None"
proof (induction "rleft c" arbitrary: c acc rule: less_induct)
  case less
  then have n: "0 < n - length acc" by simp
  show ?case
  proof (cases "rd (n - length acc) c")
    case None
    with n show ?thesis by (subst read_loop.simps) simp
  next
    case (Some r)
    obtain c' d x where r: "r = (c', d, x)" by (cases r)
    have x: "x = None" using rd_error [OF n] Some r less.prems(2) by (cases x) auto
    note pr = rd_progress [OF n Some [unfolded r x]]
    have "read_loop rd n (acc @ d) c' = None"
      using pr less.prems by (intro less.hyps) auto
    with Some r x n show ?thesis by (subst read_loop.simps) simp
  qed
qed

lemma read_full_ok:
  assumes "n \<le> length (pending c)"
  obtains c' where "read_full rd n c = Some (c', Inr (take n (pending c)))"
    "pending c' = drop n (pending c)" "fin c' = fin c" "kept c' = kept c"
  using read_loop_ok [of n "[]" c] assms by (auto simp: read_full_def)

lemma read_full_short:
  assumes "length (pending c) < n" "fin c = Some e"
  obtains c' where "read_full rd n c = Some (c', Inl (short_err (pending c) e))" "kept c' = kept c"
  using read_loop_short [of "[]" c n e] assms by (auto simp: read_full_def)

lemma read_full_blocks:
  "length (pending c) < n \<Longrightarrow> fin c = None \<Longrightarrow> read_full rd n c = None"
  using read_loop_blocks [of "[]" c n] by (simp add: read_full_def)

lemma read_full_total: "fin c = Some e \<Longrightarrow> \<exists>r. read_full rd n c = Some r"
  using read_full_ok [of n c] read_full_short [of c n e] by (metis not_le)

lemma read_full_Inr:
  assumes "read_full rd n c = Some (c', Inr b)"
  shows "n \<le> length (pending c) \<and> b = take n (pending c) \<and> length b = n \<and>
    pending c' = drop n (pending c) \<and> fin c' = fin c \<and> kept c' = kept c"
proof (cases "n \<le> length (pending c)")
  case True
  then show ?thesis using read_full_ok [OF True] assms by (metis Inr_inject length_take min.absorb2 option.inject prod.inject)
next
  case False
  then have "length (pending c) < n" by simp
  then show ?thesis using assms read_full_blocks read_full_short
    by (metis Inl_Inr_False not_None_eq option.inject prod.inject option.distinct(1))
qed

lemma read_full_Inl:
  assumes "read_full rd n c = Some (c', Inl e)"
  shows "length (pending c) < n \<and> kept c' = kept c \<and> (\<exists>x. fin c = Some x \<and> e = short_err (pending c) x)"
proof (cases "n \<le> length (pending c)")
  case True
  then show ?thesis using read_full_ok [OF True] assms by (metis Inl_Inr_False option.inject prod.inject)
next
  case False
  then have s: "length (pending c) < n" by simp
  then obtain x where x: "fin c = Some x" using assms read_full_blocks by fastforce
  obtain d where "read_full rd n c = Some (d, Inl (short_err (pending c) x))" "kept d = kept c"
    using read_full_short [OF s x] by blast
  with s x assms show ?thesis by simp
qed

end

text \<open>
  A reader on which an error changes nothing: a read cut short has drained the stream, and the
  stream stays ended.
\<close>

locale sticky_reader = stream_reader +
  assumes rd_error_same: "rd n c = Some (c', d, Some e) \<Longrightarrow> c' = c"
begin

lemma read_loop_drains:
  "length acc + length (pending c) < n \<Longrightarrow> fin c = Some e \<Longrightarrow>
   \<exists>c'. read_loop rd n acc c = Some (c', acc @ pending c, Some e) \<and> kept c' = kept c \<and>
     pending c' = [] \<and> fin c' = fin c"
proof (induction "rleft c" arbitrary: c acc rule: less_induct)
  case less
  then have n: "0 < n - length acc" by simp
  obtain c' d x where r: "rd (n - length acc) c = Some (c', d, x)"
    using rd_ends [OF n less.prems(2)] by (metis prod_cases3)
  show ?case
  proof (cases x)
    case None
    note pr = rd_progress [OF n r [unfolded None]]
    have "\<exists>c''. read_loop rd n (acc @ d) c' = Some (c'', (acc @ d) @ pending c', Some e) \<and>
        kept c'' = kept c' \<and> pending c'' = [] \<and> fin c'' = fin c'"
      using pr less.prems by (intro less.hyps) auto
    with r None pr n show ?thesis by (subst read_loop.simps) auto
  next
    case (Some y)
    have "pending c = []" using rd_data [OF n] r Some by fastforce
    with rd_error [OF n r [unfolded Some]] rd_error_same [OF r [unfolded Some]] r Some less.prems(2) n
    show ?thesis by (subst read_loop.simps) auto
  qed
qed

text \<open>A read into a buffer whose error is ignored still moves past the bytes it asked for.\<close>

lemma read_loop_skips:
  assumes "fin c \<noteq> None \<or> n \<le> length (pending c)"
  obtains c' got e where "read_loop rd n [] c = Some (c', got, e)" "got = take n (pending c)"
    "pending c' = drop n (pending c)" "fin c' = fin c" "kept c' = kept c"
proof (cases "n \<le> length (pending c)")
  case True
  with read_loop_ok [of n "[]" c] that show ?thesis by auto
next
  case False
  then obtain e where "fin c = Some e" using assms by auto
  with False read_loop_drains [of "[]" c n e] that show ?thesis by auto
qed

end

text \<open>
  What a writer promises while the network takes its bytes (\<open>can_send\<close>): a call whose buffer \<open>fits\<close> one
  write hands over all of it, \<open>sent\<close> being the bytes the peer can read.
\<close>

locale stream_writer =
  fixes wr :: "'c writer"
    and sent :: "'c \<Rightarrow> bytes"
    and can_send :: "'c \<Rightarrow> bool"
    and wkept :: "'c \<Rightarrow> 'k"
    and fits :: "bytes \<Rightarrow> bool"
  assumes wr_can: "can_send c \<Longrightarrow> fits b \<Longrightarrow>
      \<exists>c'. wr b c = (c', length b, None) \<and> sent c' = sent c @ b \<and> can_send c' \<and> wkept c' = wkept c"
begin

lemma write_all_can:
  assumes "can_send c" "fits b"
  obtains c' where "write_all wr b c = Some (c', Inr ())" "sent c' = sent c @ b" "can_send c'"
    "wkept c' = wkept c"
  using wr_can [OF assms] by (auto simp: write_all_def)

end

text \<open>
  A writer without framing of its own: every call that returns no error has handed over all its bytes,
  one with an error a prefix of them.
\<close>

locale prefix_writer = stream_writer +
  assumes wr_ok: "wr b c = (c', n, None) \<Longrightarrow> n = length b \<and> sent c' = sent c @ b \<and> wkept c' = wkept c"
    and wr_err: "wr b c = (c', n, Some e) \<Longrightarrow> \<exists>k \<le> length b. sent c' = sent c @ take k b"
begin

lemma write_all_Inr:
  "write_all wr b c = Some (c', Inr ()) \<Longrightarrow> sent c' = sent c @ b \<and> wkept c' = wkept c"
  by (auto simp: write_all_def split: prod.splits option.splits dest: wr_ok)

lemma write_all_Inl:
  "write_all wr b c = Some (c', Inl e) \<Longrightarrow> \<exists>k \<le> length b. sent c' = sent c @ take k b"
  by (auto simp: write_all_def split: prod.splits option.splits dest: wr_err)

end

text \<open>
  Both directions of one connection: reading leaves what was sent alone, writing what is pending.
\<close>

locale duplex = stream_reader rd pending fin kept rleft + stream_writer wr sent can_send wkept fits
  for rd :: "'c reader" and pending fin and kept :: "'c \<Rightarrow> 'k" and rleft
    and wr :: "'c writer" and sent can_send and wkept :: "'c \<Rightarrow> 'w" and fits +
  assumes kept_sent: "kept c' = kept c \<Longrightarrow> sent c' = sent c \<and> can_send c' = can_send c"
    and wkept_pending: "wkept c' = wkept c \<Longrightarrow> pending c' = pending c \<and> fin c' = fin c"

lemma write_all_total: "\<exists>c' r. write_all wr b c = Some (c', r)"
  by (auto simp: write_all_def split: prod.splits option.splits)

subsection \<open>A TCP connection meets both contracts\<close>

interpretation tcp: stream_reader conn_read conn_pending conn_fin conn_kept conn_left
proof
  fix n :: nat and c c' :: conn and d
  assume n: "0 < n" and r: "conn_read n c = Some (c', d, None)"
  obtain s ss where rx: "opened c" "rx c = s # ss"
    using n r by (auto simp: conn_read_def split: if_splits list.splits option.splits)
  have "length s + length (concat ss) = length s - n + min (length s) n + length (concat ss)" by simp
  with n r rx show "length d \<le> n \<and> conn_pending c = d @ conn_pending c' \<and> conn_fin c' = conn_fin c \<and>
      conn_kept c' = conn_kept c \<and> conn_left c' < conn_left c"
    by (auto simp: conn_read_def conn_pending_def conn_fin_def conn_kept_def conn_left_def)
next
  fix n :: nat and c :: conn
  assume "0 < n" "conn_pending c \<noteq> []"
  then show "\<exists>c' d. conn_read n c = Some (c', d, None)"
    by (auto simp: conn_read_def conn_pending_def neq_Nil_conv split: if_splits list.splits)
next
  fix n :: nat and c c' :: conn and d e
  assume "0 < n" "conn_read n c = Some (c', d, Some e)"
  then show "d = [] \<and> conn_fin c = Some e \<and> conn_kept c' = conn_kept c"
    by (auto simp: conn_read_def conn_fin_def split: if_splits list.splits option.splits)
next
  fix n :: nat and c :: conn and e
  assume "0 < n" "conn_fin c = Some e"
  then show "\<exists>r. conn_read n c = Some r"
    by (auto simp: conn_read_def conn_fin_def split: if_splits list.splits option.splits)
qed

interpretation tcps: sticky_reader conn_read conn_pending conn_fin conn_kept conn_left
  by unfold_locales (auto simp: conn_read_def split: if_splits list.splits option.splits)

interpretation tcpw: prefix_writer conn_write tx conn_can_send "\<lambda>c. (rx c, rx_end c, opened c)" "\<lambda>_. True"
proof
  fix b and c :: conn
  assume "conn_can_send c"
  then show "\<exists>c'. conn_write b c = (c', length b, None) \<and> tx c' = tx c @ b \<and> conn_can_send c' \<and>
      (rx c', rx_end c', opened c') = (rx c, rx_end c, opened c)"
    by (simp add: conn_write_def conn_can_send_def)
next
  fix b and c c' :: conn and n
  assume "conn_write b c = (c', n, None)"
  then show "n = length b \<and> tx c' = tx c @ b \<and> (rx c', rx_end c', opened c') = (rx c, rx_end c, opened c)"
    by (auto simp: conn_write_def split: if_splits option.splits)
next
  fix b and c c' :: conn and n e
  assume "conn_write b c = (c', n, Some e)"
  then show "\<exists>k \<le> length b. tx c' = tx c @ take k b"
    by (auto simp: conn_write_def split: if_splits option.splits)
       (metis le_cases take_all_iff order_refl nat_le_linear)+
qed

interpretation tcpd: duplex conn_read conn_pending conn_fin conn_kept conn_left
    conn_write tx conn_can_send "\<lambda>c. (rx c, rx_end c, opened c)" "\<lambda>_. True"
  by unfold_locales
    (auto simp: conn_kept_def conn_can_send_def conn_pending_def conn_fin_def)

lemma conn_write_can_send [simp]:
  "conn_can_send c \<Longrightarrow> conn_write b c = (c\<lparr>tx := tx c @ b\<rparr>, length b, None)"
  by (simp add: conn_write_def conn_can_send_def)

lemma write_all_tcp [simp]:
  "conn_can_send c \<Longrightarrow> write_all conn_write b c = Some (c\<lparr>tx := tx c @ b\<rparr>, Inr ())"
  by (simp add: write_all_def)

lemma conn_can_send_tx [simp]: "conn_can_send (c\<lparr>tx := b\<rparr>) = conn_can_send c"
  by (simp add: conn_can_send_def)

lemma conn_pending_tx [simp]: "conn_pending (c\<lparr>tx := b\<rparr>) = conn_pending c"
  by (simp add: conn_pending_def)

lemma conn_fin_tx [simp]: "conn_fin (c\<lparr>tx := b\<rparr>) = conn_fin c"
  by (simp add: conn_fin_def)

lemma conn_closed_pending [simp]: "conn_pending (conn_close c) = []"
  by (simp add: conn_pending_def conn_close_def)

end
