(* ===== verification/Protocol.thy ===== *)
theory Protocol
  imports GoJson GoHash GoNet
begin

text \<open>
  \<open>go-core/protocol/protocol.go\<close>: the control messages, their JSON form, the token hash and the
  framing (magic, version, 4-byte length, payload). \<open>WriteMessage\<close> and \<open>ReadMessage\<close> run over any
  \<open>io.Writer\<close> and \<open>io.Reader\<close>, as in the source; the contracts of these are the locales of
  theory \<open>GoNet\<close>, and the results are proved once from the contracts.
\<close>

definition ProtocolVersion :: byte where
  "ProtocolVersion = 1"

definition MaxFrameSize :: nat where
  "MaxFrameSize = 16 * 1024 * 1024"

definition Magic :: bytes where
  "Magic = string_bytes ''RHPR''"

record auth_request =
  ar_service_name :: string
  ar_token_hash :: string
  ar_service_type :: string
  ar_mux_enabled :: bool
  ar_mux_streams :: "32 word"

record auth_response =
  success :: bool
  message :: string
  session_id :: string

record envelope =
  env_auth :: "auth_request option"
  env_auth_resp :: "auth_response option"
  env_ping :: "unit option"
  env_pong :: "unit option"
  env_disconnect :: "string option"

definition no_message :: envelope where
  "no_message = \<lparr>env_auth = None, env_auth_resp = None, env_ping = None, env_pong = None,
     env_disconnect = None\<rparr>"

definition HashToken :: "string \<Rightarrow> string" where
  "HashToken token = hex_encode (sha256 (string_bytes token))"

lemma length_HashToken [simp]: "length (HashToken token) = 64"
  by (simp add: HashToken_def)

lemma HashToken_utf8 [simp]: "valid_utf8 (HashToken token)"
  unfolding HashToken_def by (rule valid_utf8_ascii [OF hex_encode_ascii])

subsection \<open>The JSON form of an envelope\<close>

text \<open>\<open>json.Marshal\<close> by the struct tags; \<open>omitempty\<close> drops nil pointers and the empty session id.\<close>

definition auth_request_json :: "auth_request \<Rightarrow> json" where
  "auth_request_json a = JObj
    [(''service_name'', JStr (ar_service_name a)),
     (''token_hash'', JStr (ar_token_hash a)),
     (''service_type'', JStr (ar_service_type a)),
     (''mux_enabled'', JBool (ar_mux_enabled a)),
     (''mux_streams'', JNum (dec (unat (ar_mux_streams a))))]"

definition auth_response_json :: "auth_response \<Rightarrow> json" where
  "auth_response_json r = JObj
    ([(''success'', JBool (success r)), (''message'', JStr (message r))] @
     (if session_id r = [] then [] else [(''session_id'', JStr (session_id r))]))"

definition omitempty :: "string \<Rightarrow> ('a \<Rightarrow> json) \<Rightarrow> 'a option \<Rightarrow> (string \<times> json) list" where
  "omitempty k f x = (case x of None \<Rightarrow> [] | Some a \<Rightarrow> [(k, f a)])"

definition envelope_json :: "envelope \<Rightarrow> json" where
  "envelope_json env = JObj
    (omitempty ''Auth'' auth_request_json (env_auth env) @
     omitempty ''AuthResp'' auth_response_json (env_auth_resp env) @
     omitempty ''Ping'' (\<lambda>_. JObj []) (env_ping env) @
     omitempty ''Pong'' (\<lambda>_. JObj []) (env_pong env) @
     omitempty ''Disconnect'' JStr (env_disconnect env))"

datatype json_err = JsonSyntax | JsonType

definition json_marshal :: "envelope \<Rightarrow> json_err + string" where
  "json_marshal env = Inr (json_print (envelope_json env))"

text \<open>
  \<open>json.Unmarshal\<close>: a value is decoded into the current content of its field, so a key that comes
  twice is merged; null leaves a plain field alone and clears a pointer; keys match up to case, a key
  without field is skipped; a value of the wrong type is an error of the whole call.
\<close>

definition dec_string :: "json \<Rightarrow> string \<Rightarrow> json_err + string" where
  "dec_string v cur = (case v of JNull \<Rightarrow> Inr cur | JStr s \<Rightarrow> Inr s | _ \<Rightarrow> Inl JsonType)"

definition dec_bool :: "json \<Rightarrow> bool \<Rightarrow> json_err + bool" where
  "dec_bool v cur = (case v of JNull \<Rightarrow> Inr cur | JBool b \<Rightarrow> Inr b | _ \<Rightarrow> Inl JsonType)"

definition dec_uint32 :: "json \<Rightarrow> 32 word \<Rightarrow> json_err + 32 word" where
  "dec_uint32 v cur = (case v of
      JNull \<Rightarrow> Inr cur
    | JNum n \<Rightarrow>
        if list_all is_digit n \<and> parse_dec n < 2 ^ 32 then Inr (of_nat (parse_dec n)) else Inl JsonType
    | _ \<Rightarrow> Inl JsonType)"

fun dec_fields :: "(string \<Rightarrow> json \<Rightarrow> 'a \<Rightarrow> json_err + 'a) \<Rightarrow> (string \<times> json) list \<Rightarrow> 'a \<Rightarrow> json_err + 'a" where
  "dec_fields f [] x = Inr x"
| "dec_fields f ((k, v) # kvs) x =
     (case f k v x of Inl e \<Rightarrow> Inl e | Inr y \<Rightarrow> dec_fields f kvs y)"

definition dec_struct :: "(string \<Rightarrow> json \<Rightarrow> 'a \<Rightarrow> json_err + 'a) \<Rightarrow> json \<Rightarrow> 'a \<Rightarrow> json_err + 'a" where
  "dec_struct f v cur = (case v of
      JNull \<Rightarrow> Inr cur | JObj kvs \<Rightarrow> dec_fields f kvs cur | _ \<Rightarrow> Inl JsonType)"

definition dec_ptr :: "'a \<Rightarrow> (json \<Rightarrow> 'a \<Rightarrow> json_err + 'a) \<Rightarrow> json \<Rightarrow> 'a option \<Rightarrow> json_err + 'a option" where
  "dec_ptr zero d v cur = (case v of
      JNull \<Rightarrow> Inr None
    | _ \<Rightarrow> map_sum id Some (d v (case cur of None \<Rightarrow> zero | Some x \<Rightarrow> x)))"

text \<open>\<open>foldName\<close>: letters to upper case, U+212A (Kelvin) to K and U+017F (long s) to S.\<close>

fun fold_name :: "string \<Rightarrow> string" where
  "fold_name [] = []"
| "fold_name (c # cs) =
    (if ord c = 0xE2 \<and> map ord (take 2 cs) = [0x84, 0xAA] then CHR ''K'' # fold_name (drop 2 cs)
     else if ord c = 0xC5 \<and> map ord (take 1 cs) = [0xBF] then CHR ''S'' # fold_name (drop 1 cs)
     else (if 97 \<le> ord c \<and> ord c \<le> 122 then chr (ord c - 32) else c) # fold_name cs)"

definition key_is :: "string \<Rightarrow> string \<Rightarrow> bool" where
  "key_is name k \<longleftrightarrow> fold_name k = fold_name name"

definition auth_request_field :: "string \<Rightarrow> json \<Rightarrow> auth_request \<Rightarrow> json_err + auth_request" where
  "auth_request_field k v a =
    (if key_is ''service_name'' k then
       map_sum id (\<lambda>s. a\<lparr>ar_service_name := s\<rparr>) (dec_string v (ar_service_name a))
     else if key_is ''token_hash'' k then
       map_sum id (\<lambda>s. a\<lparr>ar_token_hash := s\<rparr>) (dec_string v (ar_token_hash a))
     else if key_is ''service_type'' k then
       map_sum id (\<lambda>s. a\<lparr>ar_service_type := s\<rparr>) (dec_string v (ar_service_type a))
     else if key_is ''mux_enabled'' k then
       map_sum id (\<lambda>s. a\<lparr>ar_mux_enabled := s\<rparr>) (dec_bool v (ar_mux_enabled a))
     else if key_is ''mux_streams'' k then
       map_sum id (\<lambda>s. a\<lparr>ar_mux_streams := s\<rparr>) (dec_uint32 v (ar_mux_streams a))
     else Inr a)"

definition auth_response_field :: "string \<Rightarrow> json \<Rightarrow> auth_response \<Rightarrow> json_err + auth_response" where
  "auth_response_field k v r =
    (if key_is ''success'' k then map_sum id (\<lambda>s. r\<lparr>success := s\<rparr>) (dec_bool v (success r))
     else if key_is ''message'' k then map_sum id (\<lambda>s. r\<lparr>message := s\<rparr>) (dec_string v (message r))
     else if key_is ''session_id'' k then
       map_sum id (\<lambda>s. r\<lparr>session_id := s\<rparr>) (dec_string v (session_id r))
     else Inr r)"

definition zero_auth_request :: auth_request where
  "zero_auth_request = \<lparr>ar_service_name = [], ar_token_hash = [], ar_service_type = [],
     ar_mux_enabled = False, ar_mux_streams = 0\<rparr>"

definition zero_auth_response :: auth_response where
  "zero_auth_response = \<lparr>success = False, message = [], session_id = []\<rparr>"

definition envelope_field :: "string \<Rightarrow> json \<Rightarrow> envelope \<Rightarrow> json_err + envelope" where
  "envelope_field k v e =
    (if key_is ''Auth'' k then
       map_sum id (\<lambda>x. e\<lparr>env_auth := x\<rparr>)
         (dec_ptr zero_auth_request (dec_struct auth_request_field) v (env_auth e))
     else if key_is ''AuthResp'' k then
       map_sum id (\<lambda>x. e\<lparr>env_auth_resp := x\<rparr>)
         (dec_ptr zero_auth_response (dec_struct auth_response_field) v (env_auth_resp e))
     else if key_is ''Ping'' k then
       map_sum id (\<lambda>x. e\<lparr>env_ping := x\<rparr>) (dec_ptr () (dec_struct (\<lambda>_ _. Inr)) v (env_ping e))
     else if key_is ''Pong'' k then
       map_sum id (\<lambda>x. e\<lparr>env_pong := x\<rparr>) (dec_ptr () (dec_struct (\<lambda>_ _. Inr)) v (env_pong e))
     else if key_is ''Disconnect'' k then
       map_sum id (\<lambda>x. e\<lparr>env_disconnect := x\<rparr>) (dec_ptr [] dec_string v (env_disconnect e))
     else Inr e)"

definition json_unmarshal :: "string \<Rightarrow> json_err + envelope" where
  "json_unmarshal s = (case json_parse s of
      None \<Rightarrow> Inl JsonSyntax
    | Some v \<Rightarrow> dec_struct envelope_field v no_message)"

subsection \<open>Framing\<close>

datatype proto_err =
    MarshalMessage json_err
  | MessageTooLarge nat
  | WriteFailed io_err
  | ReadHeader io_err
  | InvalidMagic
  | UnsupportedVersion byte
  | FrameTooLarge nat
  | ReadPayload io_err
  | UnmarshalMessage json_err

definition frame_header :: "nat \<Rightarrow> bytes" where
  "frame_header n = Magic @ [ProtocolVersion] @ put_be 4 n"

definition WriteMessage :: "'c writer \<Rightarrow> envelope \<Rightarrow> ('c, proto_err, unit) io" where
  "WriteMessage wr env = (case json_marshal env of
      Inl e \<Rightarrow> io_fail (MarshalMessage e)
    | Inr s \<Rightarrow>
        let payload = string_bytes s in
        if MaxFrameSize < length payload then io_fail (MessageTooLarge (length payload))
        else io_bind (io_wrap WriteFailed (write_all wr (frame_header (length payload))))
               (\<lambda>_. io_wrap WriteFailed (write_all wr payload)))"

definition ReadMessage :: "'c reader \<Rightarrow> ('c, proto_err, envelope) io" where
  "ReadMessage rd =
    io_bind (io_wrap ReadHeader (read_full rd 9)) (\<lambda>header.
      if header ! 0 \<noteq> Magic ! 0 \<or> header ! 1 \<noteq> Magic ! 1 \<or>
         header ! 2 \<noteq> Magic ! 2 \<or> header ! 3 \<noteq> Magic ! 3 then io_fail InvalidMagic
      else if header ! 4 \<noteq> ProtocolVersion then io_fail (UnsupportedVersion (header ! 4))
      else
        let len = get_be (drop 5 header) in
        if MaxFrameSize < len then io_fail (FrameTooLarge len)
        else io_bind (io_wrap ReadPayload (read_full rd len)) (\<lambda>payload.
               case json_unmarshal (bytes_string payload) of
                 Inl e \<Rightarrow> io_fail (UnmarshalMessage e)
               | Inr env \<Rightarrow> io_return env))"

subsection \<open>JSON round trip of an envelope\<close>

text \<open>An envelope whose strings are valid UTF-8: what the codec carries unchanged.\<close>

definition auth_request_ok :: "auth_request \<Rightarrow> bool" where
  "auth_request_ok a \<longleftrightarrow> valid_utf8 (ar_service_name a) \<and> valid_utf8 (ar_token_hash a) \<and>
     valid_utf8 (ar_service_type a)"

definition auth_response_ok :: "auth_response \<Rightarrow> bool" where
  "auth_response_ok r \<longleftrightarrow> valid_utf8 (message r) \<and> valid_utf8 (session_id r)"

definition envelope_ok :: "envelope \<Rightarrow> bool" where
  "envelope_ok env \<longleftrightarrow>
     (case env_auth env of None \<Rightarrow> True | Some a \<Rightarrow> auth_request_ok a) \<and>
     (case env_auth_resp env of None \<Rightarrow> True | Some r \<Rightarrow> auth_response_ok r) \<and>
     (case env_disconnect env of None \<Rightarrow> True | Some d \<Rightarrow> valid_utf8 d)"

lemma literal_utf8 [simp]:
  "valid_utf8 ''service_name''" "valid_utf8 ''token_hash''" "valid_utf8 ''service_type''"
  "valid_utf8 ''mux_enabled''" "valid_utf8 ''mux_streams''" "valid_utf8 ''success''"
  "valid_utf8 ''message''" "valid_utf8 ''session_id''" "valid_utf8 ''Auth''" "valid_utf8 ''AuthResp''"
  "valid_utf8 ''Ping''" "valid_utf8 ''Pong''" "valid_utf8 ''Disconnect''" "valid_utf8 ''tcp''"
  "valid_utf8 ''udp''" "valid_utf8 ''OK''"
  by (auto intro!: valid_utf8_ascii simp: ord_def)

lemma depth_auth [simp]: "depth (auth_request_json a) = 1" "depth (auth_response_json r) = 1"
  by (simp_all add: auth_request_json_def auth_response_json_def)

lemma depth_envelope: "depth (envelope_json env) \<le> max_depth"
  by (simp add: envelope_json_def omitempty_def max_depth_def split: option.split)

lemma envelope_json_ok: "envelope_ok env \<Longrightarrow> json_ok (envelope_json env)"
  by (auto simp: envelope_json_def omitempty_def envelope_ok_def auth_request_json_def
      auth_response_json_def auth_request_ok_def auth_response_ok_def split: option.splits)

lemma dec_fields_append:
  "dec_fields f (xs @ ys) x = (case dec_fields f xs x of Inl e \<Rightarrow> Inl e | Inr y \<Rightarrow> dec_fields f ys y)"
  by (induction xs arbitrary: x) (auto split: sum.splits)

lemma key_is_refl [simp]: "key_is k k"
  by (simp add: key_is_def)

lemma key_is_distinct [simp]:
  "\<not> key_is ''service_name'' ''token_hash''" "\<not> key_is ''service_name'' ''service_type''"
  "\<not> key_is ''token_hash'' ''service_type''" "\<not> key_is ''service_name'' ''mux_enabled''"
  "\<not> key_is ''token_hash'' ''mux_enabled''" "\<not> key_is ''service_type'' ''mux_enabled''"
  "\<not> key_is ''service_name'' ''mux_streams''" "\<not> key_is ''token_hash'' ''mux_streams''"
  "\<not> key_is ''service_type'' ''mux_streams''" "\<not> key_is ''mux_enabled'' ''mux_streams''"
  "\<not> key_is ''success'' ''message''" "\<not> key_is ''success'' ''session_id''"
  "\<not> key_is ''message'' ''session_id''"
  "\<not> key_is ''Auth'' ''AuthResp''" "\<not> key_is ''Auth'' ''Ping''" "\<not> key_is ''Auth'' ''Pong''"
  "\<not> key_is ''Auth'' ''Disconnect''" "\<not> key_is ''AuthResp'' ''Ping''" "\<not> key_is ''AuthResp'' ''Pong''"
  "\<not> key_is ''AuthResp'' ''Disconnect''" "\<not> key_is ''Ping'' ''Pong''" "\<not> key_is ''Ping'' ''Disconnect''"
  "\<not> key_is ''Pong'' ''Disconnect''"
  by (simp_all add: key_is_def ord_def)

lemma dec_uint32_dec [simp]: "dec_uint32 (JNum (dec (unat w))) cur = Inr (w :: 32 word)"
proof -
  have "unat w < 2 ^ LENGTH(32)" by (rule unsigned_less)
  moreover have "list_all is_digit (dec (unat w))" using dec_digits by (simp add: list_all_iff)
  ultimately show ?thesis by (simp add: dec_uint32_def)
qed

lemma dec_auth_request:
  "dec_struct auth_request_field (auth_request_json a) zero_auth_request = Inr a"
  by (cases a) (simp add: dec_struct_def auth_request_json_def auth_request_field_def dec_string_def
      dec_bool_def zero_auth_request_def)

lemma dec_auth_response:
  "dec_struct auth_response_field (auth_response_json r) zero_auth_response = Inr r"
  by (cases r) (simp add: dec_struct_def auth_response_json_def auth_response_field_def dec_string_def
      dec_bool_def zero_auth_response_def)

lemma dec_ptr_None:
  "v \<noteq> JNull \<Longrightarrow> dec_ptr z d v None = map_sum id Some (d v z)"
  by (cases v) (simp_all add: dec_ptr_def)

lemma auth_json_not_null [simp]: "auth_request_json a \<noteq> JNull" "auth_response_json r \<noteq> JNull"
  by (simp_all add: auth_request_json_def auth_response_json_def)

lemma dec_envelope: "dec_struct envelope_field (envelope_json env) no_message = Inr env"
proof -
  have ping: "dec_struct (\<lambda>_ _. Inr) (JObj []) () = Inr ()" by (simp add: dec_struct_def)
  note f = omitempty_def envelope_field_def dec_ptr_None dec_auth_request dec_auth_response ping
    dec_string_def
  obtain a r p q d where env: "env = \<lparr>env_auth = a, env_auth_resp = r, env_ping = p, env_pong = q,
      env_disconnect = d\<rparr>" by (cases env)
  have "dec_fields envelope_field (omitempty ''Auth'' auth_request_json a) no_message =
      Inr (no_message\<lparr>env_auth := a\<rparr>)"
    by (cases a) (simp_all add: f no_message_def)
  moreover have "dec_fields envelope_field (omitempty ''AuthResp'' auth_response_json r)
      (no_message\<lparr>env_auth := a\<rparr>) = Inr (no_message\<lparr>env_auth := a, env_auth_resp := r\<rparr>)"
    by (cases r) (simp_all add: f no_message_def)
  moreover have "dec_fields envelope_field (omitempty ''Ping'' (\<lambda>_. JObj []) p)
      (no_message\<lparr>env_auth := a, env_auth_resp := r\<rparr>) =
      Inr (no_message\<lparr>env_auth := a, env_auth_resp := r, env_ping := p\<rparr>)"
    by (cases p) (simp_all add: f no_message_def)
  moreover have "dec_fields envelope_field (omitempty ''Pong'' (\<lambda>_. JObj []) q)
      (no_message\<lparr>env_auth := a, env_auth_resp := r, env_ping := p\<rparr>) =
      Inr (no_message\<lparr>env_auth := a, env_auth_resp := r, env_ping := p, env_pong := q\<rparr>)"
    by (cases q) (simp_all add: f no_message_def)
  moreover have "dec_fields envelope_field (omitempty ''Disconnect'' JStr d)
      (no_message\<lparr>env_auth := a, env_auth_resp := r, env_ping := p, env_pong := q\<rparr>) = Inr env"
    by (cases d) (simp_all add: f no_message_def env)
  ultimately show ?thesis
    by (simp add: dec_struct_def envelope_json_def dec_fields_append env)
qed

lemma json_unmarshal_marshal:
  "envelope_ok env \<Longrightarrow> json_marshal env = Inr s \<Longrightarrow> json_unmarshal s = Inr env"
  by (auto simp: json_marshal_def json_unmarshal_def json_parse_print envelope_json_ok depth_envelope
      dec_envelope)

subsection \<open>The framing contract\<close>

text \<open>
  The wire format as one function on the incoming bytes, with \<open>e\<close> the error the stream ends with:
  the message and the bytes after it, or why there is none. \<open>encode_message\<close> is what one
  \<open>WriteMessage\<close> puts on the wire.
\<close>

definition encode_message :: "envelope \<Rightarrow> bytes" where
  "encode_message env =
    (let p = string_bytes (json_print (envelope_json env)) in frame_header (length p) @ p)"

definition message_fits :: "envelope \<Rightarrow> bool" where
  "message_fits env \<longleftrightarrow> length (json_print (envelope_json env)) \<le> MaxFrameSize"

definition parse_message :: "io_err \<Rightarrow> bytes \<Rightarrow> proto_err + envelope \<times> bytes" where
  "parse_message e b =
    (if length b < 9 then Inl (ReadHeader (short_err b e))
     else if take 4 b \<noteq> Magic then Inl InvalidMagic
     else if b ! 4 \<noteq> ProtocolVersion then Inl (UnsupportedVersion (b ! 4))
     else
       let len = get_be (take 4 (drop 5 b)); body = drop 9 b in
       if MaxFrameSize < len then Inl (FrameTooLarge len)
       else if length body < len then Inl (ReadPayload (short_err body e))
       else case json_unmarshal (bytes_string (take len body)) of
           Inl x \<Rightarrow> Inl (UnmarshalMessage x)
         | Inr env \<Rightarrow> Inr (env, drop len body))"

lemma length_Magic [simp]: "length Magic = 4"
  by (simp add: Magic_def string_bytes_def)

lemma length_frame_header [simp]: "length (frame_header n) = 9"
  by (simp add: frame_header_def)

lemma magic_check:
  assumes "4 \<le> length b"
  shows "(b ! 0 \<noteq> Magic ! 0 \<or> b ! 1 \<noteq> Magic ! 1 \<or> b ! 2 \<noteq> Magic ! 2 \<or> b ! 3 \<noteq> Magic ! 3) \<longleftrightarrow>
    take 4 b \<noteq> Magic"
proof -
  obtain b0 b1 b2 b3 r where b: "b = b0 # b1 # b2 # b3 # r"
    using assms by (auto simp: numeral_eq_Suc Suc_le_length_iff)
  obtain m0 m1 m2 m3 where m: "Magic = [m0, m1, m2, m3]" by (simp add: Magic_def string_bytes_def)
  show ?thesis unfolding b m by (auto simp: nth_Cons')
qed

lemma parse_frame:
  assumes "length p \<le> MaxFrameSize"
  shows "parse_message e (frame_header (length p) @ p @ rest) =
    (case json_unmarshal (bytes_string p) of
       Inl x \<Rightarrow> Inl (UnmarshalMessage x) | Inr env \<Rightarrow> Inr (env, rest))"
proof -
  have len: "length p < 256 ^ 4" using assms by (simp add: MaxFrameSize_def)
  let ?h = "frame_header (length p)"
  have "take 4 (?h @ p @ rest) = Magic" by (simp add: frame_header_def)
  moreover have "(?h @ p @ rest) ! 4 = ProtocolVersion" by (simp add: frame_header_def nth_append)
  moreover have "take 4 (drop 5 (?h @ p @ rest)) = put_be 4 (length p)" by (simp add: frame_header_def)
  moreover have "drop 9 (?h @ p @ rest) = p @ rest" by simp
  ultimately show ?thesis using assms len
    by (simp add: parse_message_def Let_def split: sum.split)
qed

text \<open>A complete frame never fails with a read error, whatever follows it.\<close>

lemma parse_encode_message:
  assumes "envelope_ok env" "message_fits env"
  shows "parse_message e (encode_message env @ rest) = Inr (env, rest)"
  using parse_frame [of "string_bytes (json_print (envelope_json env))" e rest] assms
    json_unmarshal_marshal [OF assms(1)]
  by (simp add: encode_message_def message_fits_def Let_def json_marshal_def)

lemma WriteMessage_fits:
  "message_fits env \<Longrightarrow> WriteMessage wr env =
    io_bind (io_wrap WriteFailed (write_all wr (frame_header (length (json_print (envelope_json env))))))
      (\<lambda>_. io_wrap WriteFailed (write_all wr (string_bytes (json_print (envelope_json env)))))"
  by (simp add: WriteMessage_def json_marshal_def message_fits_def Let_def)

lemma ReadMessage_header:
  assumes "read_full rd 9 c = Some (c1, Inr h)" "length h = 9"
  shows "ReadMessage rd c =
    (if take 4 h \<noteq> Magic then Some (c1, Inl InvalidMagic)
     else if h ! 4 \<noteq> ProtocolVersion then Some (c1, Inl (UnsupportedVersion (h ! 4)))
     else if MaxFrameSize < get_be (drop 5 h) then Some (c1, Inl (FrameTooLarge (get_be (drop 5 h))))
     else case read_full rd (get_be (drop 5 h)) c1 of
         None \<Rightarrow> None
       | Some (c2, Inl e) \<Rightarrow> Some (c2, Inl (ReadPayload e))
       | Some (c2, Inr p) \<Rightarrow> Some (c2, case json_unmarshal (bytes_string p) of
             Inl e \<Rightarrow> Inl (UnmarshalMessage e) | Inr env \<Rightarrow> Inr env))"
  using assms magic_check [of h]
  by (auto simp: ReadMessage_def Let_def io_bind_def io_wrap_def split: option.split sum.split)

text \<open>Header and payload read one after the other, from whatever reader, make up the message.\<close>

lemma ReadMessage_parts:
  assumes "read_full rd 9 c = Some (c1, Inr (frame_header (length p)))"
    and "read_full rd (length p) c1 = Some (c', Inr p)"
    and "p = string_bytes (json_print (envelope_json env))" "envelope_ok env" "message_fits env"
  shows "ReadMessage rd c = Some (c', Inr env)"
proof -
  have len: "length p < 256 ^ 4" using assms(3,5) by (simp add: message_fits_def MaxFrameSize_def)
  have fh: "frame_header (length p) ! i = Magic ! i" if "i < 4" for i
    using that by (simp add: frame_header_def nth_append)
  have v: "frame_header (length p) ! 4 = ProtocolVersion" "drop 5 (frame_header (length p)) = put_be 4 (length p)"
    by (simp_all add: frame_header_def nth_append)
  show ?thesis
    using assms fh v len json_unmarshal_marshal [OF assms(4)]
    by (simp add: ReadMessage_def Let_def message_fits_def json_marshal_def)
qed

text \<open>A good header is followed by the payload: it is cut off, or it is there.\<close>

definition bad_header :: "bytes \<Rightarrow> bool" where
  "bad_header b \<longleftrightarrow> take 4 b \<noteq> Magic \<or> b ! 4 \<noteq> ProtocolVersion \<or> MaxFrameSize < get_be (take 4 (drop 5 b))"

lemma parse_payload:
  assumes "9 \<le> length b" "\<not> bad_header b"
  shows "parse_message e b = (let len = get_be (take 4 (drop 5 b)); body = drop 9 b in
    if length body < len then Inl (ReadPayload (short_err body e))
    else case json_unmarshal (bytes_string (take len body)) of
        Inl x \<Rightarrow> Inl (UnmarshalMessage x) | Inr env \<Rightarrow> Inr (env, drop len body))"
  using assms by (simp add: parse_message_def bad_header_def Let_def)

context stream_reader
begin

lemma ReadMessage_payload:
  assumes "read_full rd 9 c = Some (c1, Inr (take 9 (pending c)))" "9 \<le> length (pending c)" "\<not> bad_header (pending c)"
  shows "ReadMessage rd c = (case read_full rd (get_be (take 4 (drop 5 (pending c)))) c1 of
      None \<Rightarrow> None
    | Some (c', Inl e) \<Rightarrow> Some (c', Inl (ReadPayload e))
    | Some (c', Inr payload) \<Rightarrow> Some (c', case json_unmarshal (bytes_string payload) of
          Inl x \<Rightarrow> Inl (UnmarshalMessage x) | Inr env \<Rightarrow> Inr env))"
proof -
  let ?h = "take 9 (pending c)"
  have ck: "take 4 ?h = take 4 (pending c)" "?h ! 4 = pending c ! 4"
    "drop 5 ?h = take 4 (drop 5 (pending c))" using assms(2) by (simp_all add: drop_take)
  have "length ?h = 9" using assms(2) by simp
  from ReadMessage_header [OF assms(1) this, unfolded ck] assms(3) show ?thesis
    by (simp add: bad_header_def split: option.split sum.split)
qed

lemma ReadMessage_bad_header:
  assumes "read_full rd 9 c = Some (c1, Inr (take 9 (pending c)))" "9 \<le> length (pending c)" "bad_header (pending c)"
  shows "\<exists>x. parse_message e (pending c) = Inl x \<and> ReadMessage rd c = Some (c1, Inl x)"
proof -
  let ?h = "take 9 (pending c)"
  have ck: "take 4 ?h = take 4 (pending c)" "?h ! 4 = pending c ! 4"
    "drop 5 ?h = take 4 (drop 5 (pending c))" using assms(2) by (simp_all add: drop_take)
  have "length ?h = 9" using assms(2) by simp
  from ReadMessage_header [OF assms(1) this, unfolded ck] assms(2,3) show ?thesis
    by (simp add: bad_header_def parse_message_def Let_def)
qed

lemma ReadMessage_parse:
  assumes "fin c = Some e"
  obtains c' where "ReadMessage rd c = Some (c', map_sum id fst (parse_message e (pending c)))"
    "kept c' = kept c"
    "\<And>env rest. parse_message e (pending c) = Inr (env, rest) \<Longrightarrow> pending c' = rest \<and> fin c' = fin c"
proof (cases "length (pending c) < 9")
  case True
  then obtain c' where "read_full rd 9 c = Some (c', Inl (short_err (pending c) e))" "kept c' = kept c"
    using assms by (rule read_full_short)
  with True that [of c'] show ?thesis by (simp add: ReadMessage_def parse_message_def)
next
  case False
  then have l: "9 \<le> length (pending c)" by simp
  then obtain c1 where h: "read_full rd 9 c = Some (c1, Inr (take 9 (pending c)))"
    "pending c1 = drop 9 (pending c)" "fin c1 = fin c" "kept c1 = kept c" by (rule read_full_ok)
  let ?len = "get_be (take 4 (drop 5 (pending c)))"
  show ?thesis
  proof (cases "bad_header (pending c)")
    case True
    with ReadMessage_bad_header [OF h(1) l] obtain x where
      "parse_message e (pending c) = Inl x" "ReadMessage rd c = Some (c1, Inl x)" by blast
    with h that [of c1] show ?thesis by simp
  next
    case good: False
    note rm = ReadMessage_payload [OF h(1) l good] and pm = parse_payload [OF l good, of e, folded h(2), unfolded Let_def]
    show ?thesis
    proof (cases "length (pending c1) < ?len")
      case True
      have "fin c1 = Some e" using h(3) assms by simp
      with True obtain c' where "read_full rd ?len c1 = Some (c', Inl (short_err (pending c1) e))" "kept c' = kept c1"
        by (metis read_full_short)
      with True h that [of c'] show ?thesis by (simp add: rm pm)
    next
      case False
      then obtain c' where r: "read_full rd ?len c1 = Some (c', Inr (take ?len (pending c1)))"
        "pending c' = drop ?len (pending c1)" "fin c' = fin c1" "kept c' = kept c1" by (metis read_full_ok not_le)
      define u where "u = json_unmarshal (bytes_string (take ?len (pending c1)))"
      have p: "parse_message e (pending c) = (case u of
          Inl x \<Rightarrow> Inl (UnmarshalMessage x) | Inr env \<Rightarrow> Inr (env, pending c'))"
        unfolding pm u_def r(2) using False by simp
      have m: "ReadMessage rd c = Some (c', case u of Inl x \<Rightarrow> Inl (UnmarshalMessage x) | Inr env \<Rightarrow> Inr env)"
        by (simp add: rm r(1) u_def)
      show ?thesis
        by (rule that [of c'], unfold m p) (use r(3,4) h(3,4) in \<open>auto split: sum.splits\<close>)
    qed
  qed
qed

text \<open>The message is read from its bytes alone, even on a stream that never ends.\<close>

lemma ReadMessage_encoded:
  assumes "pending c = encode_message env @ rest" "envelope_ok env" "message_fits env"
  obtains c' where "ReadMessage rd c = Some (c', Inr env)" "pending c' = rest" "fin c' = fin c"
    "kept c' = kept c"
proof -
  let ?p = "string_bytes (json_print (envelope_json env))"
  have p: "pending c = frame_header (length ?p) @ ?p @ rest"
    using assms(1) by (simp add: encode_message_def Let_def)
  have pe: "parse_message EOF (pending c) = Inr (env, rest)"
    using parse_encode_message [OF assms(2,3)] assms(1) by simp
  have n: "9 \<le> length (pending c)" by (simp add: p)
  obtain c1 where h: "read_full rd 9 c = Some (c1, Inr (frame_header (length ?p)))"
    "pending c1 = ?p @ rest" "fin c1 = fin c" "kept c1 = kept c"
    using read_full_ok [OF n] by (metis length_frame_header p take_drop_append)
  obtain c' where b: "read_full rd (length ?p) c1 = Some (c', Inr ?p)" "pending c' = rest"
    "fin c' = fin c" "kept c' = kept c"
    using read_full_ok [of "length ?p" c1] h by (metis le_add1 length_append take_drop_append)
  have "ReadMessage rd c = Some (c', Inr env)"
    by (rule ReadMessage_parts [OF h(1) b(1) refl assms(2,3)])
  with b that show ?thesis by blast
qed

end

context stream_writer
begin

lemma WriteMessage_sends:
  assumes "can_send c" "message_fits env" "fits (take 9 (encode_message env))" "fits (drop 9 (encode_message env))"
  obtains c' where "WriteMessage wr env c = Some (c', Inr ())" "sent c' = sent c @ encode_message env"
    "can_send c'" "wkept c' = wkept c"
proof -
  let ?s = "json_print (envelope_json env)"
  have f: "fits (frame_header (length ?s))" "fits (string_bytes ?s)"
    using assms(3,4) by (simp_all add: encode_message_def Let_def take_drop_append)
  obtain c1 where h: "write_all wr (frame_header (length ?s)) c = Some (c1, Inr ())"
    "sent c1 = sent c @ frame_header (length ?s)" "can_send c1" "wkept c1 = wkept c"
    using assms(1) f(1) by (rule write_all_can)
  obtain c' where "write_all wr (string_bytes ?s) c1 = Some (c', Inr ())"
    "sent c' = sent c1 @ string_bytes ?s" "can_send c'" "wkept c' = wkept c1"
    using h(3) f(2) by (rule write_all_can)
  with h that [of c'] show ?thesis
    by (simp add: WriteMessage_fits [OF assms(2)] encode_message_def Let_def)
qed

end

lemma json_print_envelope_nonempty: "json_print (envelope_json env) \<noteq> []"
  by (simp add: envelope_json_def json_print_def print_tok_def)

text \<open>How long the JSON text of a message can get.\<close>

lemma print_string_length: "length (print_tok (TStr s)) \<le> 6 * length s + 2"
  using length_escape [of s] by (simp add: print_tok_def)

lemma print_other_length [simp]:
  "length (print_tok TLBrace) = 1" "length (print_tok TRBrace) = 1" "length (print_tok TColon) = 1"
  "length (print_tok TComma) = 1" "length (print_tok (TNum n)) = length n"
  "length (print_tok TTrue) = 4" "length (print_tok TFalse) = 5"
  by (simp_all add: print_tok_def)

lemma auth_message_length:
  "length (json_print (envelope_json (no_message\<lparr>env_auth := Some a\<rparr>))) \<le>
    6 * (length (ar_service_name a) + length (ar_token_hash a) + length (ar_service_type a)) + 500"
proof -
  have "unat (ar_mux_streams a) < 2 ^ 32" using unsigned_less [of "ar_mux_streams a"] by simp
  then have "length (dec (unat (ar_mux_streams a))) \<le> Suc 9" by (intro length_dec) simp
  moreover note print_string_length [of "''Auth''"] print_string_length [of "''service_name''"]
    print_string_length [of "''token_hash''"] print_string_length [of "''service_type''"]
    print_string_length [of "''mux_enabled''"] print_string_length [of "''mux_streams''"]
    print_string_length [of "ar_service_name a"] print_string_length [of "ar_token_hash a"]
    print_string_length [of "ar_service_type a"]
  ultimately show ?thesis
    by (simp add: json_print_def envelope_json_def auth_request_json_def omitempty_def no_message_def)
qed

lemma reply_message_length:
  "length (json_print (envelope_json (no_message\<lparr>env_auth_resp := Some r\<rparr>))) \<le>
    6 * (length (message r) + length (session_id r)) + 300"
proof -
  note print_string_length [of "''AuthResp''"] print_string_length [of "''success''"]
    print_string_length [of "''message''"] print_string_length [of "''session_id''"]
    print_string_length [of "message r"] print_string_length [of "session_id r"]
  then show ?thesis
    by (simp add: json_print_def envelope_json_def auth_response_json_def omitempty_def no_message_def)
qed
subsection \<open>Properties\<close>

text \<open>
  C2. A message survives the wire: what \<open>WriteMessage\<close> puts on a connection, \<open>ReadMessage\<close> at the other
  end returns as the same envelope and leaves exactly the bytes that follow, in whatever segments the
  bytes arrive and whether or not the stream ever ends (strings must be valid UTF-8, the JSON text at
  most 16 MiB).
\<close>

theorem message_roundtrip:
  assumes "conn_can_send a" "envelope_ok env" "message_fits env"
    and "WriteMessage conn_write env a = Some (a', r)"
    and "conn_pending b = drop (length (tx a)) (tx a') @ rest"
  shows "r = Inr () \<and> (\<exists>b'. ReadMessage conn_read b = Some (b', Inr env) \<and> conn_pending b' = rest)"
proof -
  obtain c' where "WriteMessage conn_write env a = Some (c', Inr ())" "tx c' = tx a @ encode_message env"
    using tcpw.WriteMessage_sends [OF assms(1,3)] by blast
  with assms(4,5) have "r = Inr ()" "conn_pending b = encode_message env @ rest" by simp_all
  with tcp.ReadMessage_encoded [OF this(2) assms(2,3)] show ?thesis by blast
qed

definition sample_envelope :: envelope where
  "sample_envelope = no_message\<lparr>env_auth := Some \<lparr>ar_service_name = ''a\"b'', ar_token_hash = ''00'',
     ar_service_type = ''udp'', ar_mux_enabled = True, ar_mux_streams = 7\<rparr>\<rparr>"

lemma sample_envelope_ok: "envelope_ok sample_envelope" "message_fits sample_envelope"
  by code_simp+

lemma idle_conn_can_send: "conn_can_send idle_conn"
  by (simp add: idle_conn_def conn_can_send_def)

lemma message_roundtrip_witness:
  "\<exists>b'. ReadMessage conn_read (idle_conn\<lparr>rx := [[82, 72], drop 2 (encode_message sample_envelope), [1, 2]]\<rparr>) =
      Some (b', Inr sample_envelope) \<and> conn_pending b' = [1, 2]"
proof -
  obtain c' where w: "WriteMessage conn_write sample_envelope idle_conn = Some (c', Inr ())"
    "tx c' = tx idle_conn @ encode_message sample_envelope"
    using tcpw.WriteMessage_sends [OF idle_conn_can_send sample_envelope_ok(2)] by blast
  have "take 2 (encode_message sample_envelope) = [82, 72]"
    by (simp add: encode_message_def Let_def frame_header_def Magic_def string_bytes_def)
  then have "[82, 72] @ drop 2 (encode_message sample_envelope) @ [1, 2] = encode_message sample_envelope @ [1, 2]"
    by (metis append.assoc append_take_drop_id)
  then show ?thesis using w(2)
      message_roundtrip [OF idle_conn_can_send sample_envelope_ok w(1),
        of "idle_conn\<lparr>rx := [[82, 72], drop 2 (encode_message sample_envelope), [1, 2]]\<rparr>" "[1, 2]"]
    by (simp add: idle_conn_def conn_pending_def)
qed

text \<open>
  C10. \<open>ReadMessage\<close> implements the wire format: on a stream that ends it always returns, with the
  message and the error \<open>parse_message\<close> gives for the bytes of the stream (short header, wrong magic,
  other version, length above 16 MiB, short payload, bad JSON), and it consumes that message alone.
\<close>

theorem ReadMessage_refines:
  assumes "conn_fin c = Some e"
  shows "\<exists>c'. ReadMessage conn_read c = Some (c', map_sum id fst (parse_message e (conn_pending c))) \<and>
    (\<forall>env rest. parse_message e (conn_pending c) = Inr (env, rest) \<longrightarrow> conn_pending c' = rest) \<and>
    tx c' = tx c"
  using tcp.ReadMessage_parse [OF assms] unfolding conn_kept_def by (metis prod.inject)

lemma ReadMessage_refines_witness:
  "\<exists>c'. ReadMessage conn_read (idle_conn\<lparr>rx := [[82, 72, 80], [82, 2, 0, 0, 0], [9, 9]], rx_end := Some EOF\<rparr>) =
      Some (c', Inl (UnsupportedVersion 2))"
proof -
  let ?c = "idle_conn\<lparr>rx := [[82, 72, 80], [82, 2, 0, 0, 0], [9, 9]], rx_end := Some EOF\<rparr>"
  have "conn_fin ?c = Some EOF" by (simp add: idle_conn_def conn_fin_def)
  moreover have "parse_message EOF (conn_pending ?c) = Inl (UnsupportedVersion 2)" by code_simp
  ultimately show ?thesis using ReadMessage_refines [of ?c EOF] by auto
qed

end
