(* ===== verification/Config.thy ===== *)
theory Config
  imports GoPrelude
begin

text \<open>
  \<open>go-core/config/config.go\<close>: the configuration record and the choices made from it. A nil pointer
  is \<open>None\<close>, a map of services a partial function. Reading the file and parsing TOML (a third-party
  package) are parameters of \<open>Load\<close>.
\<close>

record tls_config =
  TrustedRoot :: string
  PKCS12 :: string
  Hostname :: string
  AutoCert :: bool
  CertDir :: string
  Hosts :: "string list"

record noise_config =
  Pattern :: string
  LocalPrivateKey :: string
  RemotePublicKey :: string

record websocket_config =
  Path :: string

record transport_config =
  TransportType :: string
  TLS :: "tls_config option"
  Noise :: "noise_config option"
  WebSocket :: "websocket_config option"

record service_config =
  svc_type :: string
  svc_token :: string
  svc_bind_addr :: string
  svc_local_addr :: string
  svc_nodelay :: bool
  svc_mux_streams :: int
  svc_max_mux_streams :: int
  svc_retry_interval :: int

record server_config =
  srv_bind_addr :: string
  srv_default_token :: string
  srv_heartbeat_interval :: int
  srv_transport :: "transport_config option"
  srv_services :: "string \<rightharpoonup> service_config"

record client_config =
  cl_remote_addr :: string
  cl_default_token :: string
  cl_heartbeat_timeout :: int
  cl_retry_interval :: int
  cl_mux_connections :: int
  cl_transport :: "transport_config option"
  cl_services :: "string \<rightharpoonup> service_config"

record config =
  Server :: "server_config option"
  Client :: "client_config option"

definition GetTransportType :: "transport_config option \<Rightarrow> string" where
  "GetTransportType t = (case t of
      None \<Rightarrow> ''tcp''
    | Some c \<Rightarrow> if TransportType c = [] then ''tcp'' else TransportType c)"

datatype run_mode = ModeServer | ModeClient

datatype config_err = CannotRead string | ParseError string | MissingSection

definition Load :: "(string \<Rightarrow> 'e + bytes) \<Rightarrow> (bytes \<Rightarrow> 'e + config) \<Rightarrow> string \<Rightarrow> config_err + config" where
  "Load read_file toml_unmarshal path = (case read_file path of
      Inl _ \<Rightarrow> Inl (CannotRead path)
    | Inr data \<Rightarrow> (case toml_unmarshal data of
        Inl _ \<Rightarrow> Inl (ParseError path)
      | Inr cfg \<Rightarrow>
          if Server cfg = None \<and> Client cfg = None then Inl MissingSection else Inr cfg))"

definition DetermineMode :: "config \<Rightarrow> bool \<Rightarrow> bool \<Rightarrow> run_mode" where
  "DetermineMode cfg forceServer forceClient =
    (if forceServer then ModeServer
     else if forceClient then ModeClient
     else if Server cfg \<noteq> None \<and> Client cfg = None then ModeServer
     else if Client cfg \<noteq> None \<and> Server cfg = None then ModeClient
     else ModeServer)"

definition GetServiceToken :: "string \<Rightarrow> string \<Rightarrow> string" where
  "GetServiceToken svcToken defaultToken = (if svcToken \<noteq> [] then svcToken else defaultToken)"

text \<open>The default of an empty service type, which server and client apply at every use.\<close>

definition effective_type :: "service_config \<Rightarrow> string" where
  "effective_type svc = (if svc_type svc = [] then ''tcp'' else svc_type svc)"

lemma GetTransportType_nonempty [simp]: "GetTransportType t \<noteq> []"
  by (simp add: GetTransportType_def split: option.split)

lemma GetServiceToken_empty [simp]: "GetServiceToken s d = [] \<longleftrightarrow> s = [] \<and> d = []"
  by (simp add: GetServiceToken_def)

text \<open>
  The section the mode chosen by \<open>DetermineMode\<close> needs; \<open>server.Run\<close> and \<open>client.Run\<close> fail at once
  without it.
\<close>

definition has_section :: "config \<Rightarrow> run_mode \<Rightarrow> bool" where
  "has_section cfg m = (case m of ModeServer \<Rightarrow> Server cfg \<noteq> None | ModeClient \<Rightarrow> Client cfg \<noteq> None)"

lemma Load_Inr:
  "Load rf tu path = Inr cfg \<Longrightarrow>
    \<exists>data. rf path = Inr data \<and> tu data = Inr cfg \<and> (Server cfg \<noteq> None \<or> Client cfg \<noteq> None)"
  by (auto simp: Load_def split: sum.splits if_splits)

lemma DetermineMode_unforced:
  "Server cfg \<noteq> None \<or> Client cfg \<noteq> None \<Longrightarrow> has_section cfg (DetermineMode cfg False False)"
  by (auto simp: DetermineMode_def has_section_def)

text \<open>
  The mode a loaded configuration runs in has its section: without a flag that forces a mode,
  \<open>DetermineMode\<close> never picks a mode whose section \<open>Load\<close> left nil, whatever the file and the parser
  return.
\<close>

theorem loaded_mode_has_section:
  assumes "Load read_file toml_unmarshal path = Inr cfg"
  shows "has_section cfg (DetermineMode cfg False False)"
  using Load_Inr [OF assms] DetermineMode_unforced by blast

definition sample_config :: config where
  "sample_config = \<lparr>Server = None, Client = Some \<lparr>cl_remote_addr = ''vps:2333'', cl_default_token = ''t'',
     cl_heartbeat_timeout = 40, cl_retry_interval = 1, cl_mux_connections = 0, cl_transport = None,
     cl_services = (\<lambda>_. None)\<rparr>\<rparr>"

lemma loaded_mode_has_section_witness:
  "has_section sample_config (DetermineMode sample_config False False) \<and>
    DetermineMode sample_config False False = ModeClient"
proof -
  have "Load (\<lambda>p. Inr (string_bytes p) :: unit + bytes) (\<lambda>_. Inr sample_config) ''c.toml'' = Inr sample_config"
    by (simp add: Load_def sample_config_def)
  from loaded_mode_has_section [OF this] show ?thesis by (simp add: DetermineMode_def sample_config_def)
qed

end
