(* ===== verification/WSFrame.thy ===== *)
theory WSFrame
  imports GoNet
begin

text \<open>
  \<open>go-core/transport/wsframe.go\<close>: WebSocket framing (RFC 6455) around a connection. The state of a
  \<open>WSConn\<close> is the raw connection, the role (a client masks its frames), the payload of the last frame
  with the position read up to, and the bytes \<open>crypto/rand\<close> will deliver. The abstract view is one
  function on the raw bytes, \<open>ws_scan\<close>: the data they carry and how the stream of frames ends; the
  main results are that \<open>Read\<close> implements it, that it meets the contract of a byte stream, and that it
  inverts \<open>Write\<close>.
\<close>

record wsconn =
  ws_raw :: conn
  ws_client :: bool
  ws_buf :: bytes
  ws_pos :: nat
  ws_rand :: "nat \<Rightarrow> byte"
  ws_drawn :: nat

definition NewWSConn :: "conn \<Rightarrow> bool \<Rightarrow> (nat \<Rightarrow> byte) \<Rightarrow> wsconn" where
  "NewWSConn raw isClient rnd =
    \<lparr>ws_raw = raw, ws_client = isClient, ws_buf = [], ws_pos = 0, ws_rand = rnd, ws_drawn = 0\<rparr>"

definition MaxWSFrame :: nat where
  "MaxWSFrame = 16 * 1024 * 1024"

subsection \<open>Writing\<close>

text \<open>
  The frame \<open>writeFrame\<close> assembles: FIN and opcode, mask flag and length (7 bits, or 126 with 16
  bits, or 127 with 64), the mask key and the masked payload for a client.
\<close>

definition ws_length :: "byte \<Rightarrow> nat \<Rightarrow> bytes" where
  "ws_length maskBit len =
    (if len < 126 then [maskBit OR of_nat len]
     else if len < 65536 then [maskBit OR 126] @ put_be 2 len
     else [maskBit OR 127] @ put_be 8 len)"

definition ws_frame :: "bool \<Rightarrow> bytes \<Rightarrow> byte \<Rightarrow> bytes \<Rightarrow> bytes" where
  "ws_frame isClient maskKey opcode payload =
    [0x80 OR opcode] @ ws_length (if isClient then 0x80 else 0) (length payload) @
    (if isClient then maskKey @ xor_from maskKey 0 payload else payload)"

definition ws_header_size :: "bool \<Rightarrow> nat \<Rightarrow> nat" where
  "ws_header_size isClient len =
    2 + (if 126 \<le> len \<and> len < 65536 then 2 else if 65536 \<le> len then 8 else 0) +
    (if isClient then 4 else 0)"

definition ws_draw_key :: "wsconn \<Rightarrow> bytes \<times> wsconn" where
  "ws_draw_key ws = (map (ws_rand ws) [ws_drawn ws..<ws_drawn ws + 4], ws\<lparr>ws_drawn := ws_drawn ws + 4\<rparr>)"

definition writeFrame :: "byte \<Rightarrow> bytes \<Rightarrow> wsconn \<Rightarrow> wsconn \<times> io_err option" where
  "writeFrame opcode payload ws =
    (let (maskKey, ws1) = (if ws_client ws then ws_draw_key ws else ([], ws));
         (raw, n, e) = conn_write (ws_frame (ws_client ws) maskKey opcode payload) (ws_raw ws1)
     in (ws1\<lparr>ws_raw := raw\<rparr>, e))"

definition ws_write :: "wsconn writer" where
  "ws_write b ws = (case writeFrame 0x02 b ws of
      (ws', Some e) \<Rightarrow> (ws', 0, Some e)
    | (ws', None) \<Rightarrow> (ws', length b, None))"

subsection \<open>Reading\<close>

definition raw_full :: "nat \<Rightarrow> (wsconn, io_err, bytes) io" where
  "raw_full n ws = (case read_full conn_read n (ws_raw ws) of
      None \<Rightarrow> None
    | Some (raw, r) \<Rightarrow> Some (ws\<lparr>ws_raw := raw\<rparr>, r))"

text \<open>
  The answer to a ping: \<open>io.ReadFull\<close> into the buffer with its error ignored (missing bytes stay
  zero), then a pong with what the buffer holds, its error ignored too.
\<close>

definition ws_ping :: "nat \<Rightarrow> wsconn \<Rightarrow> wsconn option" where
  "ws_ping len ws =
    (case (if 0 < len then read_loop conn_read len [] (ws_raw ws) else Some (ws_raw ws, [], None)) of
       None \<Rightarrow> None
     | Some (raw, got, _) \<Rightarrow>
         Some (fst (writeFrame 0x0A (got @ replicate (len - length got) 0) (ws\<lparr>ws_raw := raw\<rparr>))))"

definition ws_ext_length :: "nat \<Rightarrow> (wsconn, io_err, nat) io" where
  "ws_ext_length len7 =
    (if len7 = 126 then io_bind (raw_full 2) (\<lambda>ext. io_return (get_be ext))
     else if len7 = 127 then io_bind (raw_full 8) (\<lambda>ext. io_return (get_be ext))
     else io_return len7)"

text \<open>The rest of a data frame after its two header bytes, \<open>h1\<close> the second of them.\<close>

definition ws_data_frame :: "byte \<Rightarrow> (wsconn, io_err, bytes) io" where
  "ws_data_frame h1 =
    io_bind (ws_ext_length (unat (h1 AND 0x7F))) (\<lambda>payloadLen.
    io_bind (if h1 AND 0x80 \<noteq> 0 then raw_full 4 else io_return [0, 0, 0, 0]) (\<lambda>maskKey.
    if MaxWSFrame < payloadLen then io_fail (Errorf ''ws frame too large'')
    else io_bind (if 0 < payloadLen then raw_full payloadLen else io_return []) (\<lambda>payload.
      io_return (if h1 AND 0x80 \<noteq> 0 then xor_from maskKey 0 payload else payload))))"

partial_function (option) readFrame :: "wsconn \<Rightarrow> (wsconn \<times> (io_err + bytes)) option" where
  "readFrame ws = (case raw_full 2 ws of
      None \<Rightarrow> None
    | Some (ws1, r) \<Rightarrow> (case r of
        Inl e \<Rightarrow> Some (ws1, Inl (Wrapped ''ws read header'' e))
      | Inr header \<Rightarrow>
          if (header ! 0) AND 0x0F = 0x08 then Some (ws1, Inl EOF)
          else if (header ! 0) AND 0x0F = 0x09 then
            (case ws_ping (unat ((header ! 1) AND 0x7F)) ws1 of
               None \<Rightarrow> None
             | Some ws2 \<Rightarrow> readFrame ws2)
          else ws_data_frame (header ! 1) ws1))"

definition ws_read :: "wsconn reader" where
  "ws_read n ws =
    (if ws_pos ws < length (ws_buf ws) then
       (let d = take n (drop (ws_pos ws) (ws_buf ws)); pos = ws_pos ws + length d in
        Some (if length (ws_buf ws) \<le> pos then ws\<lparr>ws_buf := [], ws_pos := 0\<rparr> else ws\<lparr>ws_pos := pos\<rparr>,
          d, None))
     else case readFrame ws of
       None \<Rightarrow> None
     | Some (ws1, Inl e) \<Rightarrow> Some (ws1, [], Some e)
     | Some (ws1, Inr payload) \<Rightarrow>
         (let d = take n payload in
          Some (if length d < length payload then ws1\<lparr>ws_buf := payload, ws_pos := length d\<rparr> else ws1,
            d, None)))"

definition ws_close :: "wsconn \<Rightarrow> wsconn" where
  "ws_close ws = ws\<lparr>ws_raw := conn_close (ws_raw ws)\<rparr>"

subsection \<open>The frames in a sequence of bytes\<close>

text \<open>
  \<open>take_n e n b\<close>: the next \<open>n\<close> bytes of \<open>b\<close> and the rest, or how a stream that ends with \<open>e\<close> cuts
  them off (\<open>None\<close>: it never does, the reader waits for ever).
\<close>

definition take_n :: "io_err option \<Rightarrow> nat \<Rightarrow> bytes \<Rightarrow> io_err option + bytes \<times> bytes" where
  "take_n e n b = (if n \<le> length b then Inr (take n b, drop n b) else Inl (map_option (short_err b) e))"

definition scan_ext :: "io_err option \<Rightarrow> nat \<Rightarrow> bytes \<Rightarrow> io_err option + nat \<times> bytes" where
  "scan_ext e len7 b =
    (if len7 = 126 then map_sum id (map_prod get_be id) (take_n e 2 b)
     else if len7 = 127 then map_sum id (map_prod get_be id) (take_n e 8 b)
     else Inr (len7, b))"

definition scan_data :: "io_err option \<Rightarrow> byte \<Rightarrow> bytes \<Rightarrow> io_err option + bytes \<times> bytes" where
  "scan_data e h1 b =
    (case scan_ext e (unat (h1 AND 0x7F)) b of
       Inl x \<Rightarrow> Inl x
     | Inr (len, b1) \<Rightarrow>
    (case (if h1 AND 0x80 \<noteq> 0 then take_n e 4 b1 else Inr ([0, 0, 0, 0], b1)) of
       Inl x \<Rightarrow> Inl x
     | Inr (key, b2) \<Rightarrow>
    (if MaxWSFrame < len then Inl (Some (Errorf ''ws frame too large''))
     else case take_n e len b2 of
       Inl x \<Rightarrow> Inl x
     | Inr (p, b3) \<Rightarrow> Inr (if h1 AND 0x80 \<noteq> 0 then xor_from key 0 p else p, b3))))"

lemma take_n_Inr: "take_n e n b = Inr (x, r) \<longleftrightarrow> n \<le> length b \<and> x = take n b \<and> r = drop n b"
  by (auto simp: take_n_def)

lemma scan_ext_rest: "scan_ext e n b = Inr (len, r) \<Longrightarrow> length r \<le> length b"
  by (auto simp: scan_ext_def take_n_def split: if_splits)

lemma scan_data_rest:
  assumes "scan_data e h b = Inr (p, r)"
  shows "length p + length r \<le> length b"
proof -
  obtain len b1 key b2 where s: "scan_ext e (unat (h AND 0x7F)) b = Inr (len, b1)"
    "(if h AND 0x80 \<noteq> 0 then take_n e 4 b1 else Inr ([0, 0, 0, 0], b1)) = Inr (key, b2)"
    "take_n e len b2 = Inr (take len b2, r)" "length p = length (take len b2)" "len \<le> length b2"
    using assms
    by (auto simp: scan_data_def take_n_Inr split: sum.splits prod.splits if_splits)
  have "length b2 \<le> length b1" using s(2) by (auto simp: take_n_Inr split: if_splits)
  with s scan_ext_rest [OF s(1)] show ?thesis by (auto simp: take_n_Inr)
qed

text \<open>
  The data of all frames up to the first that is cut off, too large or a close frame, and what the
  reader then returns. A ping is skipped with its unmasked payload.
\<close>

function ws_scan :: "io_err option \<Rightarrow> bytes \<Rightarrow> bytes \<times> io_err option" where
  "ws_scan e b =
    (if length b < 2 then ([], map_option (\<lambda>x. Wrapped ''ws read header'' (short_err b x)) e)
     else if (b ! 0) AND 0x0F = 0x08 then ([], Some EOF)
     else if (b ! 0) AND 0x0F = 0x09 then ws_scan e (drop (unat ((b ! 1) AND 0x7F)) (drop 2 b))
     else case scan_data e (b ! 1) (drop 2 b) of
       Inl x \<Rightarrow> ([], x)
     | Inr (p, r) \<Rightarrow> (case ws_scan e r of (d, f) \<Rightarrow> (p @ d, f)))"
  by pat_completeness auto
termination
  by (relation "measure (length \<circ> snd)") (auto dest!: scan_data_rest)

declare ws_scan.simps [simp del]

lemma ws_scan_short:
  "length b < 2 \<Longrightarrow> ws_scan e b = ([], map_option (\<lambda>x. Wrapped ''ws read header'' (short_err b x)) e)"
  by (simp add: ws_scan.simps [of e b])

subsection \<open>Reading implements the scan\<close>

abbreviation raw_pending :: "wsconn \<Rightarrow> bytes" where "raw_pending ws \<equiv> conn_pending (ws_raw ws)"
abbreviation raw_fin :: "wsconn \<Rightarrow> io_err option" where "raw_fin ws \<equiv> conn_fin (ws_raw ws)"

text \<open>
  \<open>ws_step ws b ws'\<close>: only the raw connection changed, \<open>b\<close> is what is left to read on it;
  \<open>agrees\<close>: an operation does what a scan of the pending bytes says.
\<close>

definition ws_kept :: "wsconn \<Rightarrow> bool \<times> bytes \<times> nat \<times> (nat \<Rightarrow> byte) \<times> bool" where
  "ws_kept ws = (ws_client ws, ws_buf ws, ws_pos ws, ws_rand ws, opened (ws_raw ws))"

definition ws_step :: "wsconn \<Rightarrow> bytes \<Rightarrow> wsconn \<Rightarrow> bool" where
  "ws_step ws b ws' \<longleftrightarrow> ws_kept ws' = ws_kept ws \<and> raw_pending ws' = b \<and> raw_fin ws' = raw_fin ws"

definition agrees :: "wsconn \<Rightarrow> (wsconn \<times> (io_err + 'a)) option \<Rightarrow> io_err option + 'a \<times> bytes \<Rightarrow> bool" where
  "agrees ws res spec = (case spec of
      Inl None \<Rightarrow> res = None
    | Inl (Some x) \<Rightarrow> \<exists>ws'. res = Some (ws', Inl x) \<and> ws_kept ws' = ws_kept ws
    | Inr (a, b) \<Rightarrow> \<exists>ws'. res = Some (ws', Inr a) \<and> ws_step ws b ws')"

lemma agrees_Inr [simp]:
  "agrees ws res (Inr (a, b)) \<longleftrightarrow> (\<exists>ws'. res = Some (ws', Inr a) \<and> ws_step ws b ws')"
  by (simp add: agrees_def)

lemma agrees_Inl [simp]:
  "agrees ws res (Inl None) \<longleftrightarrow> res = None"
  "agrees ws res (Inl (Some x)) \<longleftrightarrow> (\<exists>ws'. res = Some (ws', Inl x) \<and> ws_kept ws' = ws_kept ws)"
  by (simp_all add: agrees_def)

lemma agrees_trans:
  "ws_step ws b ws1 \<Longrightarrow> agrees ws1 res spec \<Longrightarrow> agrees ws res spec"
  by (auto simp: agrees_def ws_step_def split: sum.splits option.splits)

lemma agrees_bind:
  assumes m: "agrees ws (m ws) s"
    and f: "\<And>a b ws'. s = Inr (a, b) \<Longrightarrow> ws_step ws b ws' \<Longrightarrow> agrees ws' (f a ws') (g a b)"
  shows "agrees ws (io_bind m f ws) (case s of Inl x \<Rightarrow> Inl x | Inr (a, b) \<Rightarrow> g a b)"
proof (cases s)
  case (Inl x)
  with m show ?thesis by (cases x) auto
next
  case (Inr ab)
  obtain a b where ab: "ab = (a, b)" by (cases ab)
  then obtain ws' where w: "m ws = Some (ws', Inr a)" "ws_step ws b ws'" using m Inr by auto
  then have "agrees ws' (f a ws') (g a b)" using f Inr ab by simp
  with w Inr ab agrees_trans [OF w(2)] show ?thesis by simp
qed

lemma agrees_map:
  assumes "agrees ws (m ws) s"
  shows "agrees ws (io_bind m (\<lambda>x. io_return (f x)) ws) (map_sum id (map_prod f id) s)"
proof (cases s)
  case (Inl x)
  with assms show ?thesis by (cases x) auto
next
  case (Inr ab)
  with assms show ?thesis by (cases ab) auto
qed

lemma agrees_return: "ws_step ws b ws \<Longrightarrow> agrees ws (io_return a ws) (Inr (a, b))"
  by auto

lemma ws_step_refl [simp]: "ws_step ws (raw_pending ws) ws"
  by (simp add: ws_step_def)

lemma agrees_raw_full: "agrees ws (raw_full n ws) (take_n (raw_fin ws) n (raw_pending ws))"
proof (cases "n \<le> length (raw_pending ws)")
  case True
  then obtain c' where "read_full conn_read n (ws_raw ws) = Some (c', Inr (take n (raw_pending ws)))"
    "conn_pending c' = drop n (raw_pending ws)" "conn_fin c' = raw_fin ws"
    "conn_kept c' = conn_kept (ws_raw ws)" by (rule tcp.read_full_ok)
  with True show ?thesis
    by (auto simp: take_n_def raw_full_def ws_step_def ws_kept_def conn_kept_def)
next
  case False
  then have s: "length (raw_pending ws) < n" by simp
  show ?thesis
  proof (cases "raw_fin ws")
    case None
    with s tcp.read_full_blocks [OF s] show ?thesis by (simp add: take_n_def raw_full_def)
  next
    case (Some e)
    with s obtain c' where "read_full conn_read n (ws_raw ws) = Some (c', Inl (short_err (raw_pending ws) e))"
      "conn_kept c' = conn_kept (ws_raw ws)" by (metis tcp.read_full_short)
    with s Some show ?thesis by (auto simp: take_n_def raw_full_def ws_kept_def conn_kept_def)
  qed
qed

lemma agrees_raw_full_step:
  "ws_step ws b ws' \<Longrightarrow> agrees ws' (raw_full n ws') (take_n (raw_fin ws) n b)"
  using agrees_raw_full [of ws' n] by (simp add: ws_step_def)

lemma agrees_ext:
  "agrees ws (ws_ext_length n ws) (scan_ext (raw_fin ws) n (raw_pending ws))"
  using agrees_map [where f = get_be and m = "raw_full 2", OF agrees_raw_full]
    agrees_map [where f = get_be and m = "raw_full 8", OF agrees_raw_full]
  by (auto simp: ws_ext_length_def scan_ext_def)

lemma agrees_data:
  "agrees ws (ws_data_frame h ws) (scan_data (raw_fin ws) h (raw_pending ws))"
  unfolding ws_data_frame_def scan_data_def
proof (rule agrees_bind [OF agrees_ext])
  fix len b1 ws1
  assume s1: "ws_step ws b1 ws1"
  then have f1: "raw_fin ws1 = raw_fin ws" by (simp add: ws_step_def)
  let ?g = "\<lambda>key b2. if MaxWSFrame < len then Inl (Some (Errorf ''ws frame too large''))
     else case take_n (raw_fin ws) len b2 of Inl x \<Rightarrow> Inl x
       | Inr (p, b3) \<Rightarrow> Inr (if h AND 0x80 \<noteq> 0 then xor_from key 0 p else p, b3)"
  show "agrees ws1
      (io_bind (if h AND 0x80 \<noteq> 0 then raw_full 4 else io_return [0, 0, 0, 0])
        (\<lambda>maskKey. if MaxWSFrame < len then io_fail (Errorf ''ws frame too large'')
          else io_bind (if 0 < len then raw_full len else io_return [])
            (\<lambda>payload. io_return (if h AND 0x80 \<noteq> 0 then xor_from maskKey 0 payload else payload))) ws1)
      (case (if h AND 0x80 \<noteq> 0 then take_n (raw_fin ws) 4 b1 else Inr ([0, 0, 0, 0], b1)) of
        Inl x \<Rightarrow> Inl x | Inr (key, b2) \<Rightarrow> ?g key b2)"
  proof (rule agrees_bind)
    show "agrees ws1 ((if h AND 0x80 \<noteq> 0 then raw_full 4 else io_return [0, 0, 0, 0]) ws1)
        (if h AND 0x80 \<noteq> 0 then take_n (raw_fin ws) 4 b1 else Inr ([0, 0, 0, 0], b1))"
      using agrees_raw_full_step [OF s1, of 4] s1 by (auto simp: ws_step_def)
  next
    fix key b2 ws2
    assume s2: "ws_step ws1 b2 ws2"
    have fin: "raw_fin ws2 = raw_fin ws" using s2 f1 by (simp add: ws_step_def)
    have "agrees ws2 ((if 0 < len then raw_full len else io_return []) ws2) (take_n (raw_fin ws) len b2)"
      using agrees_raw_full_step [OF s2, of len] s2 f1 by (auto simp: ws_step_def take_n_def)
    then have "agrees ws2 (io_bind (if 0 < len then raw_full len else io_return [])
          (\<lambda>p. io_return (if h AND 0x80 \<noteq> 0 then xor_from key 0 p else p)) ws2)
        (case take_n (raw_fin ws) len b2 of Inl x \<Rightarrow> Inl x
          | Inr (p, b3) \<Rightarrow> Inr (if h AND 0x80 \<noteq> 0 then xor_from key 0 p else p, b3))"
      by (rule agrees_bind) (auto simp: ws_step_def)
    then show "agrees ws2 ((if MaxWSFrame < len then io_fail (Errorf ''ws frame too large'')
          else io_bind (if 0 < len then raw_full len else io_return [])
            (\<lambda>p. io_return (if h AND 0x80 \<noteq> 0 then xor_from key 0 p else p))) ws2) (?g key b2)"
      by auto
  qed
qed

lemma writeFrame_kept:
  "writeFrame op p ws = (ws', e) \<Longrightarrow>
    ws_kept ws' = ws_kept ws \<and> raw_pending ws' = raw_pending ws \<and> raw_fin ws' = raw_fin ws"
  by (auto simp: writeFrame_def ws_draw_key_def conn_write_def ws_kept_def conn_pending_def conn_fin_def
      Let_def split: prod.splits if_splits option.splits)

lemma ws_ping_scan:
  assumes "ws_step ws0 b ws" "raw_fin ws \<noteq> None \<or> n \<le> length b"
  obtains ws' where "ws_ping n ws = Some ws'" "ws_step ws0 (drop n b) ws'"
proof -
  have b: "raw_pending ws = b" using assms(1) by (simp add: ws_step_def)
  obtain raw got x where r: "(if 0 < n then read_loop conn_read n [] (ws_raw ws) else Some (ws_raw ws, [], None)) =
      Some (raw, got, x)" and p: "conn_pending raw = drop n b" "conn_fin raw = raw_fin ws"
      "conn_kept raw = conn_kept (ws_raw ws)"
  proof (cases "0 < n")
    case True
    with tcps.read_loop_skips [of "ws_raw ws" n] assms(2) b that show ?thesis by metis
  next
    case False
    with b that show ?thesis by simp
  qed
  define w where "w = writeFrame 0x0A (got @ replicate (n - length got) 0) (ws\<lparr>ws_raw := raw\<rparr>)"
  obtain ws' e where w': "w = (ws', e)" by (cases w)
  have "ws_kept ws' = ws_kept ws \<and> raw_pending ws' = drop n b \<and> raw_fin ws' = raw_fin ws"
    using writeFrame_kept [OF w' [unfolded w_def]] p by (simp add: ws_kept_def conn_kept_def)
  then have "ws_step ws0 (drop n b) ws'" using assms(1) by (simp add: ws_step_def)
  moreover have "ws_ping n ws = Some ws'" using r w' by (simp add: ws_ping_def w_def)
  ultimately show ?thesis by (intro that)
qed

lemma ws_ping_blocks:
  assumes "raw_fin ws = None" "length (raw_pending ws) < n"
  shows "ws_ping n ws = None"
  using tcp.read_loop_blocks [of "[]" "ws_raw ws" n] assms by (simp add: ws_ping_def)

text \<open>What one \<open>readFrame\<close> gives, against the scan of the pending bytes.\<close>

definition frame_agrees :: "wsconn \<Rightarrow> (wsconn \<times> (io_err + bytes)) option \<Rightarrow> bytes \<times> io_err option \<Rightarrow> bool" where
  "frame_agrees ws res scan = (case res of
      None \<Rightarrow> scan = ([], None)
    | Some (ws', Inl x) \<Rightarrow> scan = ([], Some x) \<and> ws_kept ws' = ws_kept ws
    | Some (ws', Inr p) \<Rightarrow>
        scan = (p @ fst (ws_scan (raw_fin ws') (raw_pending ws')), snd (ws_scan (raw_fin ws') (raw_pending ws'))) \<and>
        ws_kept ws' = ws_kept ws \<and> raw_fin ws' = raw_fin ws \<and>
        length p + length (raw_pending ws') < length (raw_pending ws))"

lemma raw_full_2:
  "length (raw_pending ws) < 2 \<Longrightarrow> raw_fin ws = None \<Longrightarrow> raw_full 2 ws = None"
  "length (raw_pending ws) < 2 \<Longrightarrow> raw_fin ws = Some e \<Longrightarrow>
    \<exists>ws'. raw_full 2 ws = Some (ws', Inl (short_err (raw_pending ws) e)) \<and> ws_kept ws' = ws_kept ws"
  "2 \<le> length (raw_pending ws) \<Longrightarrow>
    \<exists>ws'. raw_full 2 ws = Some (ws', Inr (take 2 (raw_pending ws))) \<and> ws_step ws (drop 2 (raw_pending ws)) ws'"
  using agrees_raw_full [of ws 2] by (auto simp: take_n_def)

text \<open>The cases of a frame: cut off in its header, a ping, and one with data.\<close>

lemma readFrame_short:
  assumes "length (raw_pending ws) < 2"
  shows "frame_agrees ws (readFrame ws) (ws_scan (raw_fin ws) (raw_pending ws))"
proof (cases "raw_fin ws")
  case None
  with assms raw_full_2(1) [OF assms] ws_scan_short [OF assms] show ?thesis
    by (subst readFrame.simps) (simp add: frame_agrees_def)
next
  case (Some x)
  with raw_full_2(2) [OF assms Some] ws_scan_short [OF assms] show ?thesis
    by (subst readFrame.simps) (auto simp: frame_agrees_def)
qed

lemma ws_stepD:
  "ws_step ws b ws' \<Longrightarrow> raw_fin ws' = raw_fin ws \<and> raw_pending ws' = b \<and> ws_kept ws' = ws_kept ws"
  by (simp add: ws_step_def)

lemma readFrame_ping:
  assumes "2 \<le> length (raw_pending ws)" "raw_pending ws ! 0 AND 0x0F = 0x09"
    and "raw_full 2 ws = Some (ws1, Inr (take 2 (raw_pending ws)))" "ws_step ws (drop 2 (raw_pending ws)) ws1"
    and IH: "\<And>ws2. length (raw_pending ws2) < length (raw_pending ws) \<Longrightarrow>
      frame_agrees ws2 (readFrame ws2) (ws_scan (raw_fin ws2) (raw_pending ws2))"
  shows "frame_agrees ws (readFrame ws) (ws_scan (raw_fin ws) (raw_pending ws))"
proof -
  let ?b = "raw_pending ws" and ?e = "raw_fin ws"
  let ?n = "unat (?b ! 1 AND 0x7F)"
  note e1 = ws_stepD [OF assms(4)]
  have h01: "take 2 ?b ! 0 = ?b ! 0" "take 2 ?b ! 1 = ?b ! 1" by simp_all
  have rf: "readFrame ws = (case ws_ping ?n ws1 of None \<Rightarrow> None | Some ws2 \<Rightarrow> readFrame ws2)"
    using assms(2,3) h01 by (simp add: readFrame.simps [of ws])
  have sc: "ws_scan ?e ?b = ws_scan ?e (drop ?n (drop 2 ?b))"
    using assms(1,2) by (simp add: ws_scan.simps [of ?e ?b])
  show ?thesis
  proof (cases "?e = None \<and> length (drop 2 ?b) < ?n")
    case True
    then have "drop ?n (drop 2 ?b) = []" by (intro drop_all) linarith
    then have "ws_scan ?e ?b = ([], None)" unfolding sc using True by (simp only: ws_scan_short) (simp add: ws_scan_short)
    moreover have "ws_ping ?n ws1 = None" using True e1 by (intro ws_ping_blocks) simp_all
    ultimately show ?thesis by (simp add: rf frame_agrees_def)
  next
    case False
    then obtain ws2 where p: "ws_ping ?n ws1 = Some ws2" and s2: "ws_step ws (drop ?n (drop 2 ?b)) ws2"
      using ws_ping_scan [OF assms(4)] e1 by (metis linorder_not_le)
    note e2 = ws_stepD [OF s2]
    then have lt: "length (raw_pending ws2) < length ?b" using assms(1) by simp
    have "readFrame ws = readFrame ws2" using p by (simp add: rf)
    moreover have "ws_scan ?e ?b = ws_scan (raw_fin ws2) (raw_pending ws2)" using e2 by (simp add: sc)
    ultimately show ?thesis using IH [OF lt] e2 lt
      by (auto simp: frame_agrees_def split: option.splits sum.splits prod.splits)
  qed
qed

lemma readFrame_data:
  assumes "2 \<le> length (raw_pending ws)" "raw_pending ws ! 0 AND 0x0F \<noteq> 0x08" "raw_pending ws ! 0 AND 0x0F \<noteq> 0x09"
    and "raw_full 2 ws = Some (ws1, Inr (take 2 (raw_pending ws)))" "ws_step ws (drop 2 (raw_pending ws)) ws1"
  shows "frame_agrees ws (readFrame ws) (ws_scan (raw_fin ws) (raw_pending ws))"
proof -
  let ?b = "raw_pending ws" and ?e = "raw_fin ws"
  note e1 = ws_stepD [OF assms(5)] and sc = ws_scan.simps [of ?e ?b]
  have r: "readFrame ws = ws_data_frame (?b ! 1) ws1" using assms(2-4) by (simp add: readFrame.simps [of ws])
  have ag: "agrees ws1 (ws_data_frame (?b ! 1) ws1) (scan_data ?e (?b ! 1) (drop 2 ?b))"
    using agrees_data [of ws1 "?b ! 1"] e1 by simp
  show ?thesis
  proof (cases "scan_data ?e (?b ! 1) (drop 2 ?b)")
    case (Inl x)
    with assms(1-3) have "ws_scan ?e ?b = ([], x)" by (simp add: sc)
    with Inl r ag e1 show ?thesis by (cases x) (auto simp: frame_agrees_def)
  next
    case (Inr pr)
    obtain p b' where pr: "pr = (p, b')" by (cases pr)
    with Inr ag obtain ws2 where w: "ws_data_frame (?b ! 1) ws1 = Some (ws2, Inr p)" "ws_step ws1 b' ws2"
      by auto
    have "ws_scan ?e ?b = (p @ fst (ws_scan ?e b'), snd (ws_scan ?e b'))"
      using assms(1-3) Inr pr by (simp add: sc split: prod.split)
    moreover have "length p + length b' \<le> length (drop 2 ?b)" using scan_data_rest Inr pr by blast
    ultimately show ?thesis using r w e1 assms(1)
      by (auto simp: frame_agrees_def ws_step_def)
  qed
qed

lemma readFrame_scan:
  "frame_agrees ws (readFrame ws) (ws_scan (raw_fin ws) (raw_pending ws))"
proof (induction "length (raw_pending ws)" arbitrary: ws rule: less_induct)
  case less
  let ?b = "raw_pending ws"
  show ?case
  proof (cases "length ?b < 2")
    case True
    then show ?thesis by (rule readFrame_short)
  next
    case False
    then obtain ws1 where h: "raw_full 2 ws = Some (ws1, Inr (take 2 ?b))" and s1: "ws_step ws (drop 2 ?b) ws1"
      using raw_full_2(3) [of ws] by auto
    from False have l: "2 \<le> length ?b" by simp
    consider (close) "?b ! 0 AND 0x0F = 0x08" | (ping) "?b ! 0 AND 0x0F = 0x09"
      | (data) "?b ! 0 AND 0x0F \<noteq> 0x08" "?b ! 0 AND 0x0F \<noteq> 0x09" by blast
    then show ?thesis
    proof cases
      case close
      with False h ws_stepD [OF s1] show ?thesis
        by (simp add: readFrame.simps [of ws] ws_scan.simps [of "raw_fin ws" ?b] frame_agrees_def)
    next
      case ping
      from readFrame_ping [OF l ping h s1 less] show ?thesis by blast
    next
      case data
      from readFrame_data [OF l data h s1] show ?thesis .
    qed
  qed
qed

subsection \<open>A \<open>WSConn\<close> is a byte stream\<close>

definition ws_pending :: "wsconn \<Rightarrow> bytes" where
  "ws_pending ws = drop (ws_pos ws) (ws_buf ws) @ fst (ws_scan (raw_fin ws) (raw_pending ws))"

definition ws_fin :: "wsconn \<Rightarrow> io_err option" where
  "ws_fin ws = snd (ws_scan (raw_fin ws) (raw_pending ws))"

definition ws_role :: "wsconn \<Rightarrow> bool \<times> (nat \<Rightarrow> byte) \<times> bool" where
  "ws_role ws = (ws_client ws, ws_rand ws, opened (ws_raw ws))"

definition ws_left :: "wsconn \<Rightarrow> nat" where
  "ws_left ws = length (drop (ws_pos ws) (ws_buf ws)) + length (raw_pending ws)"

lemma ws_read_buffered:
  assumes "ws_pos ws < length (ws_buf ws)" "0 < n"
  shows "\<exists>ws' d. ws_read n ws = Some (ws', d, None) \<and> length d \<le> n \<and> ws_pending ws = d @ ws_pending ws' \<and>
    ws_fin ws' = ws_fin ws \<and> ws_role ws' = ws_role ws \<and> ws_left ws' < ws_left ws"
proof -
  let ?rest = "drop (ws_pos ws) (ws_buf ws)"
  have "?rest = take n ?rest @ drop (length (take n ?rest)) ?rest" by (metis append_take_drop_id append_eq_conv_conj)
  moreover have "drop n ?rest = [] \<or> ws_pos ws + length (take n ?rest) = ws_pos ws + n" by auto
  ultimately show ?thesis using assms
    by (auto simp: ws_read_def Let_def ws_pending_def ws_fin_def ws_role_def ws_left_def add.commute)
qed

lemma ws_read_frame:
  assumes b: "\<not> ws_pos ws < length (ws_buf ws)" and n: "0 < n"
  shows "(case readFrame ws of
      None \<Rightarrow> ws_read n ws = None \<and> ws_pending ws = [] \<and> ws_fin ws = None
    | Some (ws1, Inl x) \<Rightarrow> ws_read n ws = Some (ws1, [], Some x) \<and> ws_pending ws = [] \<and> ws_fin ws = Some x \<and>
        ws_role ws1 = ws_role ws
    | Some (ws1, Inr p) \<Rightarrow> (\<exists>ws' d. ws_read n ws = Some (ws', d, None) \<and> length d \<le> n \<and>
        ws_pending ws = d @ ws_pending ws' \<and> ws_fin ws' = ws_fin ws \<and> ws_role ws' = ws_role ws \<and>
        ws_left ws' < ws_left ws))"
proof -
  have e: "drop (ws_pos ws) (ws_buf ws) = []" using b by simp
  note fa = readFrame_scan [of ws]
  show ?thesis
  proof (cases "readFrame ws")
    case None
    with fa b e show ?thesis by (simp add: frame_agrees_def ws_read_def ws_pending_def ws_fin_def)
  next
    case (Some wr)
    obtain ws1 r where wr: "wr = (ws1, r)" by (cases wr)
    show ?thesis
    proof (cases r)
      case (Inl x)
      with fa b e Some wr show ?thesis
        by (simp add: frame_agrees_def ws_read_def ws_pending_def ws_fin_def ws_kept_def ws_role_def)
    next
      case (Inr p)
      with fa Some wr have f:
        "ws_scan (raw_fin ws) (raw_pending ws) =
          (p @ fst (ws_scan (raw_fin ws1) (raw_pending ws1)), snd (ws_scan (raw_fin ws1) (raw_pending ws1)))"
        "ws_kept ws1 = ws_kept ws" "raw_fin ws1 = raw_fin ws"
        "length p + length (raw_pending ws1) < length (raw_pending ws)"
        by (simp_all add: frame_agrees_def)
      have k: "ws_buf ws1 = ws_buf ws" "ws_pos ws1 = ws_pos ws" "ws_role ws1 = ws_role ws"
        using f(2) by (simp_all add: ws_kept_def ws_role_def)
      have "p = take n p @ drop n p" by simp
      with b e Some wr Inr f k show ?thesis
        by (auto simp: ws_read_def Let_def ws_pending_def ws_fin_def ws_role_def ws_left_def not_less)
    qed
  qed
qed

lemma ws_read_cases:
  assumes n: "0 < n"
  shows "(ws_read n ws = None \<and> ws_pending ws = [] \<and> ws_fin ws = None) \<or>
    (\<exists>ws' x. ws_read n ws = Some (ws', [], Some x) \<and> ws_pending ws = [] \<and> ws_fin ws = Some x \<and>
       ws_role ws' = ws_role ws) \<or>
    (\<exists>ws' d. ws_read n ws = Some (ws', d, None) \<and> length d \<le> n \<and> ws_pending ws = d @ ws_pending ws' \<and>
       ws_fin ws' = ws_fin ws \<and> ws_role ws' = ws_role ws \<and> ws_left ws' < ws_left ws)"
proof (cases "ws_pos ws < length (ws_buf ws)")
  case True
  with ws_read_buffered [OF True n] show ?thesis by blast
next
  case False
  with ws_read_frame [OF False n] show ?thesis
    by (cases "readFrame ws") (auto split: sum.splits prod.splits)
qed

interpretation wsr: stream_reader ws_read ws_pending ws_fin ws_role ws_left
proof
  fix n :: nat and ws ws' :: wsconn and d
  assume "0 < n" "ws_read n ws = Some (ws', d, None)"
  with ws_read_cases [of n ws] show "length d \<le> n \<and> ws_pending ws = d @ ws_pending ws' \<and>
      ws_fin ws' = ws_fin ws \<and> ws_role ws' = ws_role ws \<and> ws_left ws' < ws_left ws" by auto
next
  fix n :: nat and ws :: wsconn
  assume "0 < n" "ws_pending ws \<noteq> []"
  with ws_read_cases [of n ws] show "\<exists>ws' d. ws_read n ws = Some (ws', d, None)" by auto
next
  fix n :: nat and ws ws' :: wsconn and d e
  assume "0 < n" "ws_read n ws = Some (ws', d, Some e)"
  with ws_read_cases [of n ws] show "d = [] \<and> ws_fin ws = Some e \<and> ws_role ws' = ws_role ws" by auto
next
  fix n :: nat and ws :: wsconn and e
  assume "0 < n" "ws_fin ws = Some e"
  with ws_read_cases [of n ws] show "\<exists>r. ws_read n ws = Some r" by auto
qed

subsection \<open>Scanning what was written\<close>

lemma and_127_mod: "(w :: byte) AND 0x7F = w mod 128"
  using take_bit_eq_mask [of 7 w] by (simp add: mask_eq_exp_minus_1 take_bit_eq_mod)

lemma unat_and_127: "unat ((w :: byte) AND 0x7F) = unat w mod 128"
  by (simp add: and_127_mod unat_mod_distrib)

lemma or_128_masks:
  "(0x80 OR w) AND 0x7F = (w AND 0x7F :: byte)"
  "(0x80 OR w) AND 0x80 = (0x80 :: byte)"
  "(0x80 OR w) AND 0x0F = (w AND 0x0F :: byte)"
  by (simp_all add: bit.conj_disj_distrib2)

lemma and_128_small:
  assumes "unat w < 128"
  shows "(w :: byte) AND 0x80 = 0"
proof -
  have "w mod 128 = w"
    by (rule word_unat_eq_iff [THEN iffD2]) (use assms in \<open>simp add: unat_mod_distrib\<close>)
  then have "w AND 0x80 = (w AND 0x7F) AND 0x80" by (simp add: and_127_mod)
  then show ?thesis by (simp add: and.assoc)
qed

definition mask_bit :: "bool \<Rightarrow> byte" where
  "mask_bit isClient = (if isClient then 0x80 else 0)"

lemma mask_bit_or:
  assumes "unat w < 128"
  shows "unat ((mask_bit cl OR w) AND 0x7F) = unat w" "(mask_bit cl OR w) AND 0x80 \<noteq> 0 \<longleftrightarrow> cl"
proof -
  have "unat (w AND 0x7F) = unat w" using assms by (simp add: unat_and_127)
  then show "unat ((mask_bit cl OR w) AND 0x7F) = unat w"
    by (cases cl) (simp_all only: mask_bit_def if_True if_False or_128_masks or.left_neutral)
  show "(mask_bit cl OR w) AND 0x80 \<noteq> 0 \<longleftrightarrow> cl"
    using and_128_small [OF assms]
    by (cases cl) (simp_all only: mask_bit_def if_True if_False or_128_masks or.left_neutral, simp_all)
qed

text \<open>The two header bytes, the length bytes and what follows them.\<close>

lemma ws_length_split:
  "ws_length (mask_bit cl) len =
    (mask_bit cl OR (if len < 126 then of_nat len else if len < 65536 then 126 else 127)) #
    (if len < 126 then [] else if len < 65536 then put_be 2 len else put_be 8 len)"
  by (simp add: ws_length_def)

lemma scan_ext_length:
  assumes "len \<le> MaxWSFrame"
  shows "scan_ext e (unat ((mask_bit cl OR (if len < 126 then of_nat len else if len < 65536 then 126 else 127)) AND 0x7F))
      ((if len < 126 then [] else if len < 65536 then put_be 2 len else put_be 8 len) @ r) = Inr (len, r)"
proof -
  have l: "len < 256 ^ 8" using assms by (simp add: MaxWSFrame_def)
  let ?w = "(if len < 126 then of_nat len else if len < 65536 then 126 else 127) :: byte"
  have "unat ?w < 128" by (simp add: unat_of_nat_byte)
  then have "unat ((mask_bit cl OR ?w) AND 0x7F) = unat ?w" by (rule mask_bit_or)
  moreover have "unat ?w = (if len < 126 then len else if len < 65536 then 126 else 127)"
    by (simp add: unat_of_nat_byte)
  ultimately show ?thesis using l by (auto simp: scan_ext_def take_n_def)
qed

lemma scan_data_frame:
  assumes "length p \<le> MaxWSFrame" "cl \<Longrightarrow> length key = 4"
    and h: "ws_length (mask_bit cl) (length p) = h1 # ext"
  shows "scan_data e h1 (ext @ (if cl then key @ xor_from key 0 p else p) @ r) = Inr (p, r)"
proof -
  let ?w = "(if length p < 126 then of_nat (length p) else if length p < 65536 then 126 else 127) :: byte"
  have hw: "h1 = mask_bit cl OR ?w"
    "ext = (if length p < 126 then [] else if length p < 65536 then put_be 2 (length p) else put_be 8 (length p))"
    using h by (simp_all add: ws_length_split)
  have "unat ?w < 128" by (simp add: unat_of_nat_byte)
  then have m: "h1 AND 0x80 \<noteq> 0 \<longleftrightarrow> cl" unfolding hw(1) by (rule mask_bit_or)
  have x: "scan_ext e (unat (h1 AND 0x7F)) (ext @ s) = Inr (length p, s)" for s
    unfolding hw by (rule scan_ext_length [OF assms(1)])
  show ?thesis
    using assms(1,2) m by (cases cl) (simp_all add: scan_data_def x take_n_def)
qed

lemma ws_frame_split:
  assumes "ws_length (mask_bit cl) (length p) = h1 # ext"
  shows "ws_frame cl key op p @ r =
    (0x80 OR op) # h1 # ext @ (if cl then key @ xor_from key 0 p else p) @ r"
  using assms by (simp add: ws_frame_def mask_bit_def)

text \<open>
  Any frame that is neither a close nor a ping frame is data, whatever its opcode: binary frames, and
  also text, continuation and pong frames.
\<close>

lemma ws_scan_frame:
  assumes "length p \<le> MaxWSFrame" "cl \<Longrightarrow> length key = 4" "op AND 0x0F \<noteq> 0x08" "op AND 0x0F \<noteq> 0x09"
  shows "ws_scan e (ws_frame cl key op p @ r) = (p @ fst (ws_scan e r), snd (ws_scan e r))"
proof -
  obtain h1 ext where h: "ws_length (mask_bit cl) (length p) = h1 # ext" by (simp add: ws_length_split)
  have "scan_data e h1 (ext @ (if cl then key @ xor_from key 0 p else p) @ r) = Inr (p, r)"
    by (rule scan_data_frame [OF assms(1,2) h])
  with assms(3,4) show ?thesis
    unfolding ws_frame_split [OF h] by (subst ws_scan.simps) (simp add: or_128_masks split: prod.split)
qed

text \<open>The bytes of a masked ping.\<close>

lemma ws_frame_ping:
  assumes "length p < 126"
  obtains h1 where "ws_frame True key 0x09 p @ r = 0x89 # h1 # key @ xor_from key 0 p @ r" "unat (h1 AND 0x7F) = length p"
proof -
  obtain h1 ext where h: "ws_length (mask_bit True) (length p) = h1 # ext" by (simp add: ws_length_split)
  then have hw: "h1 = mask_bit True OR of_nat (length p)" "ext = []" using assms by (simp_all add: ws_length_split)
  have "unat (h1 AND 0x7F) = length p"
    using mask_bit_or(1) [of "of_nat (length p)" True] assms unfolding hw by (simp add: unat_of_nat_byte)
  with that ws_frame_split [OF h, of key "0x09" r] hw(2) show ?thesis by simp
qed

lemma raw_full_ok:
  assumes "n \<le> length (raw_pending ws)"
  obtains c where "raw_full n ws = Some (ws\<lparr>ws_raw := c\<rparr>, Inr (take n (raw_pending ws)))"
    "conn_pending c = drop n (raw_pending ws)" "conn_kept c = conn_kept (ws_raw ws)"
  using tcp.read_full_ok [OF assms] by (metis (no_types, lifting) raw_full_def option.case(2) prod.case)

text \<open>A server answers a ping with what the \<open>n\<close> bytes after the header are.\<close>

lemma ws_ping_pongs:
  assumes "n \<le> length (raw_pending ws)" "conn_can_send (ws_raw ws)" "\<not> ws_client ws"
  obtains ws' where "ws_ping n ws = Some ws'" "raw_pending ws' = drop n (raw_pending ws)"
    "tx (ws_raw ws') = tx (ws_raw ws) @ ws_frame False [] 0x0A (take n (raw_pending ws))"
proof -
  obtain c where c: "read_loop conn_read n [] (ws_raw ws) = Some (c, take n (raw_pending ws), None)"
    "conn_pending c = drop n (raw_pending ws)" "conn_kept c = conn_kept (ws_raw ws)"
    using tcp.read_loop_ok [of n "[]" "ws_raw ws"] assms(1) by auto
  let ?f = "ws_frame False [] 0x0A (take n (raw_pending ws))"
  have r: "(if 0 < n then read_loop conn_read n [] (ws_raw ws) else Some (ws_raw ws, [], None)) =
      Some (if 0 < n then c else ws_raw ws, take n (raw_pending ws), None)" using c(1) by simp
  define raw where "raw = (if 0 < n then c else ws_raw ws)"
  have raw: "conn_can_send raw" "tx raw = tx (ws_raw ws)" "conn_pending raw = drop n (raw_pending ws)"
    using c assms(2) by (auto simp: raw_def conn_kept_def conn_can_send_def)
  then have w: "writeFrame 0x0A (take n (raw_pending ws)) (ws\<lparr>ws_raw := raw\<rparr>) = (ws\<lparr>ws_raw := raw\<lparr>tx := tx raw @ ?f\<rparr>\<rparr>, None)"
    using assms(3) by (simp add: writeFrame_def)
  define ws' where "ws' = ws\<lparr>ws_raw := raw\<lparr>tx := tx raw @ ?f\<rparr>\<rparr>"
  have rw: "ws_raw ws' = raw\<lparr>tx := tx raw @ ?f\<rparr>" by (simp add: ws'_def)
  have "ws_ping n ws = Some ws'"
    unfolding ws'_def using w assms(1) unfolding ws_ping_def r raw_def [symmetric] by simp
  moreover have "conn_pending (raw\<lparr>tx := t\<rparr>) = conn_pending raw" for t by (simp add: conn_pending_def)
  ultimately show ?thesis by (intro that [of ws']) (simp_all add: rw raw)
qed

text \<open>A data frame of two bytes.\<close>

lemma readFrame_two:
  assumes "raw_pending ws = 0x82 # 0x02 # x # y # r"
  shows "\<exists>ws'. readFrame ws = Some (ws', Inr [x, y]) \<and> raw_pending ws' = r"
proof -
  have "2 \<le> length (raw_pending ws)" using assms by simp
  from raw_full_2(3) [OF this] obtain ws1 where
    h: "raw_full 2 ws = Some (ws1, Inr [0x82, 0x02])" and s1: "ws_step ws (x # y # r) ws1" using assms by auto
  have "scan_data (raw_fin ws1) 0x02 (x # y # r) = Inr ([x, y], r)"
    by (simp add: scan_data_def scan_ext_def take_n_def MaxWSFrame_def)
  with agrees_data [of ws1 "0x02"] s1 obtain ws2 where
    "ws_data_frame 0x02 ws1 = Some (ws2, Inr [x, y])" "raw_pending ws2 = r" by (auto simp: ws_step_def)
  with h show ?thesis by (simp add: readFrame.simps [of ws])
qed

subsection \<open>Writing as a byte stream\<close>

text \<open>The size \<open>writeFrame\<close> allocates is the size of the frame it fills in.\<close>

lemma length_ws_frame:
  "(cl \<Longrightarrow> length key = 4) \<Longrightarrow> length (ws_frame cl key op p) = ws_header_size cl (length p) + length p"
  by (auto simp: ws_frame_def ws_length_def ws_header_size_def)

text \<open>
  \<open>ws_framed b d\<close>: the bytes \<open>b\<close> are whole frames that carry the data \<open>d\<close>. The bytes sent over a
  \<open>WSConn\<close> are counted from position \<open>n0\<close> on, where the HTTP upgrade ended.
\<close>

definition ws_framed :: "bytes \<Rightarrow> bytes \<Rightarrow> bool" where
  "ws_framed b d \<longleftrightarrow> (\<forall>e r. ws_scan e (b @ r) = (d @ fst (ws_scan e r), snd (ws_scan e r)))"

lemma ws_framed_Nil [simp]: "ws_framed [] []"
  by (simp add: ws_framed_def)

lemma ws_framed_append: "ws_framed b d \<Longrightarrow> ws_framed b' d' \<Longrightarrow> ws_framed (b @ b') (d @ d')"
  by (simp add: ws_framed_def)

lemma ws_framed_scan: "ws_framed b d \<Longrightarrow> fst (ws_scan e b) = d"
  unfolding ws_framed_def by (drule spec [where x = e], drule spec [where x = "[]"]) (simp add: ws_scan_short)

lemma ws_framed_frame:
  "length p \<le> MaxWSFrame \<Longrightarrow> (cl \<Longrightarrow> length key = 4) \<Longrightarrow> ws_framed (ws_frame cl key 0x02 p) p"
  unfolding ws_framed_def by (intro allI ws_scan_frame) simp_all

definition ws_sent :: "nat \<Rightarrow> wsconn \<Rightarrow> bytes" where
  "ws_sent n0 ws = fst (ws_scan None (drop n0 (tx (ws_raw ws))))"

definition ws_can_send :: "nat \<Rightarrow> wsconn \<Rightarrow> bool" where
  "ws_can_send n0 ws \<longleftrightarrow> conn_can_send (ws_raw ws) \<and> n0 \<le> length (tx (ws_raw ws)) \<and>
     ws_framed (drop n0 (tx (ws_raw ws))) (ws_sent n0 ws)"

definition ws_wkept :: "wsconn \<Rightarrow> bool \<times> bytes \<times> nat \<times> bytes list \<times> io_err option \<times> bool" where
  "ws_wkept ws = (ws_client ws, ws_buf ws, ws_pos ws, rx (ws_raw ws), rx_end (ws_raw ws), opened (ws_raw ws))"

definition ws_fits :: "bytes \<Rightarrow> bool" where
  "ws_fits b \<longleftrightarrow> length b \<le> MaxWSFrame"

lemma ws_can_send_new:
  "conn_can_send c \<Longrightarrow> ws_can_send (length (tx c)) (NewWSConn c cl rnd) \<and> ws_sent (length (tx c)) (NewWSConn c cl rnd) = []"
  by (simp add: ws_can_send_def ws_sent_def NewWSConn_def ws_scan_short)

lemma writeFrame_can_send:
  assumes "conn_can_send (ws_raw ws)"
  obtains ws' key where "writeFrame op p ws = (ws', None)"
    "tx (ws_raw ws') = tx (ws_raw ws) @ ws_frame (ws_client ws) key op p"
    "ws_client ws \<longrightarrow> length key = 4" "conn_can_send (ws_raw ws')" "ws_wkept ws' = ws_wkept ws"
  using assms that by (cases "ws_client ws") (auto simp: writeFrame_def ws_draw_key_def ws_wkept_def)

interpretation wsw: stream_writer ws_write "ws_sent n0" "ws_can_send n0" ws_wkept ws_fits for n0
proof
  fix b ws
  assume c: "ws_can_send n0 ws" and f: "ws_fits b"
  obtain ws' key where w: "writeFrame 0x02 b ws = (ws', None)"
    "tx (ws_raw ws') = tx (ws_raw ws) @ ws_frame (ws_client ws) key 0x02 b"
    "ws_client ws \<longrightarrow> length key = 4" "conn_can_send (ws_raw ws')" "ws_wkept ws' = ws_wkept ws"
    using c writeFrame_can_send [of ws] unfolding ws_can_send_def by metis
  have "ws_framed (drop n0 (tx (ws_raw ws'))) (ws_sent n0 ws @ b)"
    using c f w(2,3) by (simp add: ws_can_send_def ws_fits_def ws_framed_append ws_framed_frame)
  with c w ws_framed_scan [OF this] show "\<exists>ws'. ws_write b ws = (ws', length b, None) \<and>
      ws_sent n0 ws' = ws_sent n0 ws @ b \<and> ws_can_send n0 ws' \<and> ws_wkept ws' = ws_wkept ws"
    by (auto simp: ws_write_def ws_can_send_def ws_sent_def)
qed

text \<open>What one end has written is what the other end reads, whatever the segments it comes in.\<close>

lemma ws_pending_sent:
  assumes "ws_can_send n0 a" "ws_buf b = []" "raw_pending b = drop n0 (tx (ws_raw a))"
  shows "ws_pending b = ws_sent n0 a"
  using assms ws_framed_scan [of "drop n0 (tx (ws_raw a))" "ws_sent n0 a" "raw_fin b"]
  by (simp add: ws_pending_def ws_can_send_def)

subsection \<open>One data frame, one read\<close>

lemma raw_full_same: "raw_full n ws = Some (ws', r) \<Longrightarrow> conn_kept (ws_raw ws') = conn_kept (ws_raw ws)"
  by (cases r) (auto simp: raw_full_def split: option.splits dest: tcp.read_full_Inr tcp.read_full_Inl)

lemma ws_ext_length_same:
  "ws_ext_length n ws = Some (ws', r) \<Longrightarrow> conn_kept (ws_raw ws') = conn_kept (ws_raw ws)"
  by (auto simp: ws_ext_length_def io_bind_eq_Some split: if_splits dest!: raw_full_same)

lemma ws_data_frame_same:
  assumes "ws_data_frame h ws = Some (ws', r)"
  shows "conn_kept (ws_raw ws') = conn_kept (ws_raw ws)"
  using assms unfolding ws_data_frame_def
  by (auto simp: io_bind_eq_Some split: if_splits dest!: raw_full_same ws_ext_length_same)

text \<open>A frame that fits the buffer is handed over whole, and nothing is sent.\<close>

lemma ws_read_whole_frame:
  assumes "raw_pending ws = ws_frame cl key op p @ r" "length p \<le> MaxWSFrame" "cl \<Longrightarrow> length key = 4"
    and "op AND 0x0F \<noteq> 0x08" "op AND 0x0F \<noteq> 0x09" "length (ws_buf ws) \<le> ws_pos ws" "length p \<le> n"
  shows "\<exists>ws'. ws_read n ws = Some (ws', p, None) \<and> ws_step ws r ws' \<and> conn_kept (ws_raw ws') = conn_kept (ws_raw ws)"
proof -
  obtain h1 ext where h: "ws_length (mask_bit cl) (length p) = h1 # ext" by (simp add: ws_length_split)
  let ?rest = "ext @ (if cl then key @ xor_from key 0 p else p) @ r"
  have b: "raw_pending ws = (0x80 OR op) # h1 # ?rest"
    using assms(1) unfolding ws_frame_split [OF h] by simp
  obtain ws1 where w1: "raw_full 2 ws = Some (ws1, Inr [0x80 OR op, h1])" "ws_step ws ?rest ws1"
    using raw_full_2(3) [of ws] b by auto
  have "scan_data (raw_fin ws) h1 ?rest = Inr (p, r)" by (rule scan_data_frame [OF assms(2,3) h])
  with agrees_data [of ws1 h1] w1(2) obtain ws2
    where w2: "ws_data_frame h1 ws1 = Some (ws2, Inr p)" "ws_step ws1 r ws2" by (auto simp: ws_step_def)
  have "readFrame ws = Some (ws2, Inr p)"
    using w1(1) w2(1) assms(4,5) by (subst readFrame.simps) (simp add: or_128_masks)
  moreover have "ws_step ws r ws2" using w1(2) w2(2) by (simp add: ws_step_def)
  ultimately show ?thesis
    using assms(6,7) raw_full_same [OF w1(1)] ws_data_frame_same [OF w2(1)] by (simp add: ws_read_def)
qed

subsection \<open>Properties\<close>

definition ws_write_list :: "bytes list \<Rightarrow> wsconn \<Rightarrow> wsconn" where
  "ws_write_list ps ws = fold (\<lambda>p w. fst (ws_write p w)) ps ws"

lemma ws_write_list_sent:
  "ws_can_send n0 ws \<Longrightarrow> \<forall>p \<in> set ps. ws_fits p \<Longrightarrow>
    ws_can_send n0 (ws_write_list ps ws) \<and> ws_sent n0 (ws_write_list ps ws) = ws_sent n0 ws @ concat ps"
proof (induction ps arbitrary: ws)
  case Nil
  then show ?case by (simp add: ws_write_list_def)
next
  case (Cons p ps)
  then obtain ws' where w: "ws_write p ws = (ws', length p, None)" "ws_sent n0 ws' = ws_sent n0 ws @ p"
    "ws_can_send n0 ws'" using wsw.wr_can [of n0 ws p] by auto
  with Cons.IH [OF w(3)] Cons.prems(2) show ?case by (simp add: ws_write_list_def)
qed

text \<open>
  C5. Framing is transparent: whatever list of buffers one end of a WebSocket connection writes (each
  at most 16 MiB), in whatever segments the network delivers the frames, reading that many bytes at
  the other end returns exactly the concatenation of the buffers. Either end may be the masking client.
\<close>

theorem ws_transparent:
  assumes "conn_can_send c" "\<forall>p \<in> set ps. length p \<le> MaxWSFrame"
    and "conn_pending d = drop (length (tx c)) (tx (ws_raw (ws_write_list ps (NewWSConn c cl rnd))))"
  shows "\<exists>d'. read_full ws_read (length (concat ps)) (NewWSConn d cl' rnd') = Some (d', Inr (concat ps)) \<and>
    ws_pending d' = []"
proof -
  let ?n0 = "length (tx c)" and ?a = "ws_write_list ps (NewWSConn c cl rnd)" and ?b = "NewWSConn d cl' rnd'"
  have a: "ws_can_send ?n0 ?a" "ws_sent ?n0 ?a = concat ps"
    using ws_write_list_sent [of ?n0 "NewWSConn c cl rnd" ps] ws_can_send_new [OF assms(1)] assms(2)
    by (simp_all add: ws_fits_def)
  have "ws_pending ?b = concat ps"
    using ws_pending_sent [OF a(1), of ?b] assms(3) a(2) by (simp add: NewWSConn_def)
  then show ?thesis using wsr.read_full_ok [of "length (concat ps)" ?b] by (metis drop_all order_refl take_all)
qed

definition ws_example :: conn where
  "ws_example = \<lparr>rx = [[0x82, 0x82, 1], [2, 3, 4, 104], [107, 0x82, 0x81, 5, 6, 7, 8, 36]], rx_end = Some EOF,
    tx = [], tx_room = None, opened = True\<rparr>"

lemma ws_transparent_witness:
  "\<exists>d'. read_full ws_read (length [105, 105, 33 :: byte]) (NewWSConn ws_example False (\<lambda>_. 0)) =
      Some (d', Inr [105, 105, 33]) \<and> ws_pending d' = []"
proof -
  let ?c = "ws_example\<lparr>rx := []\<rparr>" and ?ps = "[[105, 105], [33 :: byte]]" and ?rnd = "\<lambda>i. of_nat (i + 1) :: byte"
  have "conn_can_send ?c" by (simp add: ws_example_def conn_can_send_def)
  moreover have "\<forall>p \<in> set ?ps. length p \<le> MaxWSFrame" by (simp add: MaxWSFrame_def)
  moreover have "conn_pending ws_example = drop (length (tx ?c)) (tx (ws_raw (ws_write_list ?ps (NewWSConn ?c True ?rnd))))"
    by code_simp
  ultimately show ?thesis using ws_transparent [of ?c ?ps ws_example True ?rnd False "\<lambda>_. 0"] by simp
qed

text \<open>
  C11. Reading implements the scan of the raw bytes: a Read into a non-empty buffer hands over the next
  bytes of the data the frames carry, in order and without loss, returns an error only when all of it
  has been handed over, and then the one the frames end with; it fails to return only if the raw
  connection stays silent. Segmentation, pings and the size of the buffer make no difference.
\<close>

theorem ws_read_refines:
  assumes "0 < n"
  shows "(case ws_read n ws of
      None \<Rightarrow> ws_pending ws = [] \<and> ws_fin ws = None
    | Some (ws', d, None) \<Rightarrow> length d \<le> n \<and> ws_pending ws = d @ ws_pending ws' \<and> ws_fin ws' = ws_fin ws
    | Some (ws', d, Some e) \<Rightarrow> d = [] \<and> ws_pending ws = [] \<and> ws_fin ws = Some e)"
  using ws_read_cases [OF assms, of ws] by (auto split: option.splits)

lemma ws_read_refines_witness:
  "(case ws_read 1 (NewWSConn ws_example False (\<lambda>_. 0)) of
      None \<Rightarrow> False
    | Some (ws', d, None) \<Rightarrow> length d \<le> 1 \<and> ws_pending (NewWSConn ws_example False (\<lambda>_. 0)) = d @ ws_pending ws'
    | Some (ws', d, Some e) \<Rightarrow> False)"
proof -
  have "ws_pending (NewWSConn ws_example False (\<lambda>_. 0)) \<noteq> []" by code_simp
  then show ?thesis using ws_read_refines [of 1 "NewWSConn ws_example False (\<lambda>_. 0)"]
    by (auto split: option.splits)
qed

text \<open>
  C35. A ping of a client, whose frame must be masked, is read as if it were not. Of the mask key and the
  masked payload the server takes as many bytes as the payload has, sends them back as its pong, and goes
  on with the last four of them as the header of the next frame: a client whose key and payload end in the
  bytes of a data frame makes \<open>readFrame\<close> return data that nobody sent.
\<close>

theorem ws_ping_desync:
  assumes "length p < 126" "length key = 4" "raw_pending ws = ws_frame True key 0x09 p @ r"
    and "conn_can_send (ws_raw ws)" "\<not> ws_client ws" "sent = key @ xor_from key 0 p"
  shows "(\<exists>ws'. readFrame ws = readFrame ws' \<and> raw_pending ws' = drop (length p) sent @ r \<and>
      tx (ws_raw ws') = tx (ws_raw ws) @ ws_frame False [] 0x0A (take (length p) sent)) \<and>
    (\<forall>x y. drop (length p) sent = [0x82, 0x02, x, y] \<longrightarrow>
      (\<exists>ws'. readFrame ws = Some (ws', Inr [x, y]) \<and> raw_pending ws' = r))"
proof -
  obtain h1 where h: "raw_pending ws = 0x89 # h1 # sent @ r" "unat (h1 AND 0x7F) = length p"
    using ws_frame_ping [OF assms(1), of key r] unfolding assms(3,6) by auto
  then have "2 \<le> length (raw_pending ws)" by simp
  then obtain c where c: "raw_full 2 ws = Some (ws\<lparr>ws_raw := c\<rparr>, Inr [0x89, h1])" "conn_pending c = sent @ r"
    "conn_kept c = conn_kept (ws_raw ws)" by (rule raw_full_ok) (simp add: h(1))
  let ?ws = "ws\<lparr>ws_raw := c\<rparr>"
  have "length p \<le> length (raw_pending ?ws)" "conn_can_send (ws_raw ?ws)" "\<not> ws_client ?ws"
    using c(2,3) assms(4,5,6) by (auto simp: conn_kept_def conn_can_send_def)
  then obtain ws' where w: "ws_ping (length p) ?ws = Some ws'" "raw_pending ws' = drop (length p) (raw_pending ?ws)"
    "tx (ws_raw ws') = tx (ws_raw ?ws) @ ws_frame False [] 0x0A (take (length p) (raw_pending ?ws))" by (rule ws_ping_pongs)
  have l: "length p \<le> length sent" using assms(6) by simp
  have 1: "readFrame ws = readFrame ws'" using c(1) h(2) w(1) by (simp add: readFrame.simps [of ws])
  have 2: "raw_pending ws' = drop (length p) sent @ r"
    "tx (ws_raw ws') = tx (ws_raw ws) @ ws_frame False [] 0x0A (take (length p) sent)"
    using w(2,3) c(2,3) l by (simp_all add: conn_kept_def)
  have "\<exists>ws''. readFrame ws = Some (ws'', Inr [x, y]) \<and> raw_pending ws'' = r"
    if "drop (length p) sent = [0x82, 0x02, x, y]" for x y
    unfolding 1 by (rule readFrame_two) (simp add: 2(1) that)
  with 1 2 show ?thesis by blast
qed

text \<open>An empty ping whose mask key is a frame.\<close>

lemma ws_ping_desync_witness:
  "\<exists>ws'. readFrame (NewWSConn (idle_conn\<lparr>rx := [ws_frame True [0x82, 0x02, 0x41, 0x42] 0x09 []]\<rparr>) False (\<lambda>_. 0)) =
     Some (ws', Inr [0x41, 0x42])"
proof -
  let ?key = "[0x82, 0x02, 0x41, 0x42] :: bytes"
  let ?ws = "NewWSConn (idle_conn\<lparr>rx := [ws_frame True ?key 0x09 []]\<rparr>) False (\<lambda>_. 0)"
  have "length ([] :: bytes) < 126" "length ?key = 4" "raw_pending ?ws = ws_frame True ?key 0x09 [] @ []"
    "conn_can_send (ws_raw ?ws)" "\<not> ws_client ?ws" "?key = ?key @ xor_from ?key 0 []"
    by (simp_all add: NewWSConn_def idle_conn_def conn_pending_def conn_can_send_def)
  from ws_ping_desync [OF this] show ?thesis by auto
qed

end
