(* ===== verification/GoStrings.thy ===== *)
theory GoStrings
  imports GoText "HOL-Library.Sublist"
begin

text \<open>
  The functions of Go's \<open>strings\<close> package the source uses, on the bytes of a string. The case
  conversions are exact on ASCII and on the runes outside ASCII whose image is ASCII; every other rune
  keeps its bytes, which no comparison of the source with an ASCII text can tell apart from its image.
\<close>

subsection \<open>Cutting\<close>

fun cut :: "string \<Rightarrow> string \<Rightarrow> (string \<times> string) option" where
  "cut sep s =
    (if prefix sep s then Some ([], drop (length sep) s)
     else case s of [] \<Rightarrow> None | c # cs \<Rightarrow> map_option (apfst (Cons c)) (cut sep cs))"

declare cut.simps [simp del]

definition contains :: "string \<Rightarrow> string \<Rightarrow> bool" where
  "contains s sub \<longleftrightarrow> cut sub s \<noteq> None"

text \<open>At most \<open>k\<close> cuts.\<close>

primrec cuts :: "nat \<Rightarrow> string \<Rightarrow> string \<Rightarrow> string list" where
  "cuts 0 sep s = [s]"
| "cuts (Suc k) sep s = (case cut sep s of None \<Rightarrow> [s] | Some (a, b) \<Rightarrow> a # cuts k sep b)"

definition SplitN :: "string \<Rightarrow> string \<Rightarrow> nat \<Rightarrow> string list" where
  "SplitN s sep n = cuts (n - 1) sep s"

definition Split :: "string \<Rightarrow> string \<Rightarrow> string list" where
  "Split s sep = cuts (length s) sep s"

lemma cut_append:
  assumes "cut sep s = Some (a, b)" shows "s = a @ sep @ b"
  using assms
proof (induction s arbitrary: a)
  case Nil
  then show ?case by (auto simp: cut.simps [of sep "[]"] prefix_def split: if_splits)
next
  case (Cons c s)
  show ?case
  proof (cases "prefix sep (c # s)")
    case True
    with Cons.prems show ?thesis by (auto simp: cut.simps [of sep "c # s"] prefix_def)
  next
    case False
    with Cons.prems obtain a' where "cut sep s = Some (a', b)" "a = c # a'"
      by (auto simp: cut.simps [of sep "c # s"] split: option.splits)
    with Cons.IH show ?thesis by simp
  qed
qed

text \<open>The first occurrence of a one-letter separator.\<close>

lemma cut_char:
  "x \<notin> set a \<Longrightarrow> cut [x] (a @ x # b) = Some (a, b)"
  by (induction a) (simp_all add: cut.simps [of "[x]" "_ # _"])

lemma cut_char_None: "cut [x] s = None \<longleftrightarrow> x \<notin> set s"
  by (induction s) (auto simp: cut.simps [of "[x]" "_ # _"] cut.simps [of "[x]" "[]"])

lemma cut_char_first:
  assumes "cut [x] s = Some (a, b)" shows "x \<notin> set a"
  using assms
proof (induction s arbitrary: a)
  case Nil
  then show ?case by (simp add: cut.simps [of "[x]" "[]"])
next
  case (Cons c s)
  then show ?case by (auto simp: cut.simps [of "[x]" "c # s"] split: if_splits)
qed

text \<open>A two-letter separator whose first letter does not occur before it.\<close>

lemma cut_crlf: "x \<notin> set a \<Longrightarrow> cut [x, y] (a @ x # y # b) = Some (a, b)"
  by (induction a) (simp_all add: cut.simps [of "[x, y]" "_ # _"])

subsection \<open>Trimming\<close>

text \<open>The UTF-8 text of every rune \<open>unicode.IsSpace\<close> accepts.\<close>

definition space_texts :: "string list" where
  "space_texts = map (map chr)
    ([[9], [10], [11], [12], [13], [32], [0xC2, 0x85], [0xC2, 0xA0], [0xE1, 0x9A, 0x80]] @
     map (\<lambda>k. [0xE2, 0x80, k]) ([0x80..<0x8B] @ [0xA8, 0xA9, 0xAF]) @ [[0xE2, 0x81, 0x9F], [0xE3, 0x80, 0x80]])"

function strip :: "string list \<Rightarrow> string \<Rightarrow> string" where
  "strip texts s = (case find (\<lambda>t. t \<noteq> [] \<and> prefix t s) texts of
      None \<Rightarrow> s
    | Some t \<Rightarrow> strip texts (drop (length t) s))"
  by pat_completeness auto
termination
  by (relation "measure (length \<circ> snd)") (auto simp: find_Some_iff prefix_def)

declare strip.simps [simp del]

definition TrimSpace :: "string \<Rightarrow> string" where
  "TrimSpace s = rev (strip (map rev space_texts) (rev (strip space_texts s)))"

lemma strip_same:
  assumes "\<And>t. t \<in> set texts \<Longrightarrow> t = [] \<or> \<not> prefix t s"
  shows "strip texts s = s"
proof -
  have "find (\<lambda>t. t \<noteq> [] \<and> prefix t s) texts = None" using assms by (auto simp: find_None_iff)
  then show ?thesis by (subst strip.simps) simp
qed

text \<open>A text that starts and ends with a printable ASCII letter is left as it is.\<close>

definition plain :: "char \<Rightarrow> bool" where
  "plain c \<longleftrightarrow> 33 \<le> ord c \<and> ord c < 127"

lemma space_texts_first: "t \<in> set space_texts \<Longrightarrow> \<exists>c r. t = c # r \<and> \<not> plain c"
proof -
  have "list_all (\<lambda>t. t \<noteq> [] \<and> \<not> plain (hd t)) space_texts" by code_simp
  moreover assume "t \<in> set space_texts"
  ultimately show ?thesis by (cases t) (auto simp: list_all_iff)
qed

lemma space_texts_last: "t \<in> set (map rev space_texts) \<Longrightarrow> \<exists>c r. t = c # r \<and> \<not> plain c"
proof -
  have "list_all (\<lambda>t. t \<noteq> [] \<and> \<not> plain (hd t)) (map rev space_texts)" by code_simp
  then have "\<forall>t \<in> set (map rev space_texts). t \<noteq> [] \<and> \<not> plain (hd t)" by (simp only: list_all_iff)
  moreover assume "t \<in> set (map rev space_texts)"
  ultimately have "t \<noteq> [] \<and> \<not> plain (hd t)" by (rule bspec)
  then show ?thesis by (cases t) simp_all
qed

lemma strip_plain: "plain c \<Longrightarrow> strip space_texts (c # s) = c # s" "plain c \<Longrightarrow> strip (map rev space_texts) (c # s) = c # s"
  by (rule strip_same; fastforce dest: space_texts_first space_texts_last)+

lemma strip_Nil [simp]: "strip texts [] = []"
  by (rule strip_same) auto

lemma TrimSpace_plain: "plain c \<Longrightarrow> plain d \<Longrightarrow> TrimSpace (c # s @ [d]) = c # s @ [d]"
  by (simp add: TrimSpace_def strip_plain)

lemma TrimSpace_all_plain: "\<forall>c \<in> set s. plain c \<Longrightarrow> TrimSpace s = s"
proof (cases s)
  case (Cons c r)
  moreover assume "\<forall>c \<in> set s. plain c"
  ultimately show ?thesis
    by (cases r rule: rev_cases) (simp_all add: TrimSpace_def strip_plain)
qed (simp add: TrimSpace_def)

lemma strip_char:
  assumes "[c] \<in> set texts" "list_all (\<lambda>t. t = [] \<or> hd t \<noteq> c \<or> t = [c]) texts"
  shows "strip texts (c # s) = strip texts s"
proof -
  have "find (\<lambda>t. t \<noteq> [] \<and> prefix t (c # s)) texts \<noteq> None" using assms(1) by (auto simp: find_None_iff)
  then obtain t where t: "find (\<lambda>t. t \<noteq> [] \<and> prefix t (c # s)) texts = Some t" by blast
  then have "t \<in> set texts" "t \<noteq> []" "prefix t (c # s)" by (auto simp: find_Some_iff)
  moreover from this have "hd t = c" by (auto simp: prefix_Cons)
  ultimately have "t = [c]" using assms(2) by (auto simp: list_all_iff)
  with t show ?thesis by (subst strip.simps) simp
qed

lemma strip_crlf: "strip (map rev space_texts) (CHR 0x0A # CHR 0x0D # s) = strip (map rev space_texts) s"
proof -
  have "[CHR 0x0A] \<in> set (map rev space_texts)" "[CHR 0x0D] \<in> set (map rev space_texts)" by code_simp+
  moreover have "list_all (\<lambda>t. t = [] \<or> hd t \<noteq> CHR 0x0A \<or> t = [CHR 0x0A]) (map rev space_texts)"
    "list_all (\<lambda>t. t = [] \<or> hd t \<noteq> CHR 0x0D \<or> t = [CHR 0x0D]) (map rev space_texts)" by code_simp+
  ultimately show ?thesis by (simp only: strip_char)
qed

lemma strip_space: "strip space_texts (CHR '' '' # s) = strip space_texts s"
proof (rule strip_char)
  show "[CHR '' ''] \<in> set space_texts" by code_simp
  show "list_all (\<lambda>t. t = [] \<or> hd t \<noteq> CHR '' '' \<or> t = [CHR '' '']) space_texts" by code_simp
qed

text \<open>A header line: text between printable letters, and the line break after it.\<close>

lemma TrimSpace_line:
  "plain c \<Longrightarrow> plain d \<Longrightarrow> TrimSpace (c # s @ [d, CHR 0x0D, CHR 0x0A]) = c # s @ [d]"
  by (simp add: TrimSpace_def strip_plain strip_crlf)

lemma TrimSpace_after_space:
  "\<forall>c \<in> set s. plain c \<Longrightarrow> TrimSpace (CHR '' '' # s) = s"
  using TrimSpace_all_plain [of s] by (simp add: TrimSpace_def strip_space)

lemma strip_keeps:
  "\<forall>t \<in> set texts. c \<notin> set t \<Longrightarrow> \<exists>r'. strip texts (r @ [c]) = r' @ [c]"
proof (induction "length r" arbitrary: r rule: less_induct)
  case less
  show ?case
  proof (cases "find (\<lambda>t. t \<noteq> [] \<and> prefix t (r @ [c])) texts")
    case None
    then show ?thesis by (subst strip.simps) simp
  next
    case (Some t)
    then have t: "t \<in> set texts" "t \<noteq> []" "prefix t (r @ [c])" unfolding find_Some_iff by (metis nth_mem)+
    then have "prefix t r" using less.prems by (auto simp: prefix_snoc)
    then obtain r2 where "r = t @ r2" by (auto simp: prefix_def)
    with less.hyps [of r2] less.prems t(2) Some show ?thesis by (subst strip.simps) simp
  qed
qed

lemma TrimSpace_starts: "plain c \<Longrightarrow> \<exists>t. TrimSpace (c # s) = c # t"
proof -
  assume c: "plain c"
  have "list_all (list_all (\<lambda>x. \<not> plain x)) (map rev space_texts)" by code_simp
  then have "\<forall>t \<in> set (map rev space_texts). \<forall>x \<in> set t. \<not> plain x" unfolding list_all_iff by blast
  with c have "\<forall>t \<in> set (map rev space_texts). c \<notin> set t" by blast
  from strip_keeps [OF this] obtain r where "strip (map rev space_texts) (rev s @ [c]) = r @ [c]" by blast
  with c show ?thesis by (simp add: TrimSpace_def strip_plain)
qed

subsection \<open>Case\<close>

fun ToLower :: "string \<Rightarrow> string" where
  "ToLower [] = []"
| "ToLower (c # cs) =
    (if ord c = 0xE2 \<and> map ord (take 2 cs) = [0x84, 0xAA] then CHR ''k'' # ToLower (drop 2 cs)
     else if ord c = 0xC4 \<and> map ord (take 1 cs) = [0xB0] then CHR ''i'' # ToLower (drop 1 cs)
     else (if 65 \<le> ord c \<and> ord c \<le> 90 then chr (ord c + 32) else c) # ToLower cs)"

fun ToUpper :: "string \<Rightarrow> string" where
  "ToUpper [] = []"
| "ToUpper (c # cs) =
    (if ord c = 0xC4 \<and> map ord (take 1 cs) = [0xB1] then CHR ''I'' # ToUpper (drop 1 cs)
     else if ord c = 0xC5 \<and> map ord (take 1 cs) = [0xBF] then CHR ''S'' # ToUpper (drop 1 cs)
     else (if 97 \<le> ord c \<and> ord c \<le> 122 then chr (ord c - 32) else c) # ToUpper cs)"

definition ascii_lower :: "char \<Rightarrow> char" where
  "ascii_lower c = (if 65 \<le> ord c \<and> ord c \<le> 90 then chr (ord c + 32) else c)"

lemma ToLower_ascii: "\<forall>c \<in> set a. ord c < 0x80 \<Longrightarrow> ToLower (a @ b) = map ascii_lower a @ ToLower b"
  by (induction a) (auto simp: ascii_lower_def)

definition HasPrefix :: "string \<Rightarrow> string \<Rightarrow> bool" where
  "HasPrefix s p \<longleftrightarrow> prefix p s"

end
