(* ===== verification/GoBufio.thy ===== *)
theory GoBufio
  imports GoNet GoStrings
begin

text \<open>
  Go's \<open>bufio.Reader\<close> as the source uses it: \<open>bufio.NewReader\<close>, \<open>ReadString\<close> and \<open>Buffered\<close>. The reader
  takes up to 4096 bytes at a time from its source and hands out lines, so it may hold bytes its caller
  never asked for. \<open>line_source\<close> is what reading lines needs of the source.
\<close>

record 'c bufreader =
  bf_src :: 'c
  bf_buf :: bytes
  bf_err :: "io_err option"

definition NewReader :: "'c \<Rightarrow> 'c bufreader" where
  "NewReader c = \<lparr>bf_src = c, bf_buf = [], bf_err = None\<rparr>"

definition bf_size :: nat where
  "bf_size = 4096"

text \<open>
  \<open>fill\<close>: at most \<open>k\<close> reads into the free part of the buffer, until one brings bytes or an error; after
  the last empty one the error is \<open>io.ErrNoProgress\<close>.
\<close>

primrec bf_fill :: "'c reader \<Rightarrow> nat \<Rightarrow> 'c bufreader \<Rightarrow> 'c bufreader option" where
  "bf_fill rd 0 b = Some (b\<lparr>bf_err := Some (Errorf ''multiple Read calls return no data or error'')\<rparr>)"
| "bf_fill rd (Suc k) b = (case rd (bf_size - length (bf_buf b)) (bf_src b) of
      None \<Rightarrow> None
    | Some (c, d, e) \<Rightarrow>
        (let b' = b\<lparr>bf_src := c, bf_buf := bf_buf b @ d, bf_err := e\<rparr> in
         if e \<noteq> None \<or> d \<noteq> [] then Some b' else bf_fill rd k b'))"

text \<open>
  \<open>ReadString(delim)\<close>: look for the delimiter in the buffer; without it, give up with the pending error,
  or set a full buffer aside, or fill.
\<close>

partial_function (option) bf_read_until ::
  "'c reader \<Rightarrow> byte \<Rightarrow> bytes \<Rightarrow> 'c bufreader \<Rightarrow> ('c bufreader \<times> bytes \<times> io_err option) option" where
  "bf_read_until rd delim acc b =
    (if delim \<in> set (bf_buf b) then
       Some (b\<lparr>bf_buf := tl (dropWhile (\<lambda>x. x \<noteq> delim) (bf_buf b))\<rparr>,
         acc @ takeWhile (\<lambda>x. x \<noteq> delim) (bf_buf b) @ [delim], None)
     else if bf_err b \<noteq> None then Some (b\<lparr>bf_buf := [], bf_err := None\<rparr>, acc @ bf_buf b, bf_err b)
     else if bf_size \<le> length (bf_buf b) then bf_read_until rd delim (acc @ bf_buf b) (b\<lparr>bf_buf := []\<rparr>)
     else (case bf_fill rd 100 b of None \<Rightarrow> None | Some b' \<Rightarrow> bf_read_until rd delim acc b'))"

definition ReadString :: "'c reader \<Rightarrow> ('c bufreader, io_err, string) io" where
  "ReadString rd b = (case bf_read_until rd 10 [] b of
      None \<Rightarrow> None
    | Some (b', l, None) \<Rightarrow> Some (b', Inr (bytes_string l))
    | Some (b', l, Some e) \<Rightarrow> Some (b', Inl e))"

subsection \<open>Reading lines\<close>

lemma first_split: "x \<notin> set a \<Longrightarrow> x \<notin> set l \<Longrightarrow> a @ x # b = l @ x # r \<longleftrightarrow> a = l \<and> b = r"
proof (induction a arbitrary: l)
  case (Cons c a)
  then show ?case by (cases l) auto
qed (auto simp: Cons_eq_append_conv)

lemma first_later: "x \<notin> set a \<Longrightarrow> a @ p = l @ x # r \<Longrightarrow> \<exists>l'. l = a @ l' \<and> p = l' @ x # r"
proof (induction a arbitrary: l)
  case (Cons c a)
  then show ?case by (cases l) auto
qed simp

lemma newline_byte: "(of_nat (of_char c) :: byte) = 10 \<longleftrightarrow> c = CHR 0x0A"
proof
  assume "(of_nat (of_char c) :: byte) = 10"
  from arg_cong [OF this, of unat] have "of_char c = (10 :: nat)" by (simp add: unat_of_nat_byte)
  then have "char_of (of_char c :: nat) = char_of (10 :: nat)" by simp
  also have "\<dots> = CHR 0x0A" by code_simp
  finally show "c = CHR 0x0A" by simp
qed simp

lemma newline_bytes: "(10 :: byte) \<in> set (string_bytes l) \<longleftrightarrow> CHR 0x0A \<in> set l"
proof -
  have "(10 :: byte) \<in> set (string_bytes l) \<longleftrightarrow> (\<exists>c \<in> set l. (of_nat (of_char c) :: byte) = 10)"
    unfolding string_bytes_def set_map image_iff by (simp only: eq_commute [of 10])
  then show ?thesis unfolding newline_byte by simp
qed

text \<open>
  \<open>pend\<close> are bytes the source is certain to deliver; a read while some of them are left brings at least
  one and none beyond them. \<open>whole\<close> is kept by every read that has room for all of them: of a connection,
  that no segment has been taken in part.
\<close>

locale line_source =
  fixes rd :: "'c reader" and pend :: "'c \<Rightarrow> bytes" and keep :: "'c \<Rightarrow> 'k" and whole :: "'c \<Rightarrow> bool"
  assumes delivers: "0 < n \<Longrightarrow> pend c \<noteq> [] \<Longrightarrow>
    \<exists>c' d. rd n c = Some (c', d, None) \<and> d \<noteq> [] \<and> length d \<le> n \<and> pend c = d @ pend c' \<and> keep c' = keep c \<and>
      (whole c \<and> length (pend c) \<le> n \<longrightarrow> whole c')"
begin

definition line_ready :: "'c bufreader \<Rightarrow> bool" where
  "line_ready b \<longleftrightarrow> bf_err b = None \<and> length (bf_buf b) \<le> bf_size"

text \<open>All that is left fits the buffer, and the source has been read by whole segments.\<close>

definition fits_whole :: "'c bufreader \<Rightarrow> bool" where
  "fits_whole b \<longleftrightarrow> length (bf_buf b) + length (pend (bf_src b)) \<le> bf_size \<and> whole (bf_src b)"

lemma fill_delivers:
  assumes "line_ready b" "length (bf_buf b) < bf_size" "pend (bf_src b) \<noteq> []"
  obtains b' d where "bf_fill rd 100 b = Some b'" "d \<noteq> []" "bf_buf b' = bf_buf b @ d" "line_ready b'"
    "pend (bf_src b) = d @ pend (bf_src b')" "keep (bf_src b') = keep (bf_src b)" "fits_whole b \<longrightarrow> fits_whole b'"
proof -
  have "0 < bf_size - length (bf_buf b)" using assms(2) by simp
  from delivers [OF this assms(3)] obtain c' d where r:
    "rd (bf_size - length (bf_buf b)) (bf_src b) = Some (c', d, None)" "d \<noteq> []"
    "length d \<le> bf_size - length (bf_buf b)" "pend (bf_src b) = d @ pend c'" "keep c' = keep (bf_src b)"
    "whole (bf_src b) \<and> length (pend (bf_src b)) \<le> bf_size - length (bf_buf b) \<longrightarrow> whole c'" by blast
  have "bf_fill rd (Suc k) b = Some (b\<lparr>bf_src := c', bf_buf := bf_buf b @ d, bf_err := None\<rparr>)" for k
    using r(1,2) by simp
  from this [of 99] have "bf_fill rd 100 b = Some (b\<lparr>bf_src := c', bf_buf := bf_buf b @ d, bf_err := None\<rparr>)"
    by (simp only: Suc_numeral num.simps arith_simps)
  then show ?thesis
    by (rule that [where d = d]) (use r assms(2) in \<open>auto simp: line_ready_def fits_whole_def\<close>)
qed

lemma read_until_line:
  "line_ready b \<Longrightarrow> delim \<notin> set l \<Longrightarrow> bf_buf b @ pend (bf_src b) = l @ delim # r \<Longrightarrow>
   \<exists>b'. bf_read_until rd delim acc b = Some (b', acc @ l @ [delim], None) \<and> line_ready b' \<and>
     bf_buf b' @ pend (bf_src b') = r \<and> keep (bf_src b') = keep (bf_src b) \<and>
     (fits_whole b \<longrightarrow> fits_whole b')"
proof (induction "2 * length (pend (bf_src b)) + length (bf_buf b)" arbitrary: b acc l rule: less_induct)
  case less
  show ?case
  proof (cases "delim \<in> set (bf_buf b)")
    case True
    then obtain x y where xy: "bf_buf b = x @ delim # y" "delim \<notin> set x" by (metis split_list_first)
    with less.prems have e: "x @ delim # (y @ pend (bf_src b)) = l @ delim # r" by simp
    with first_split xy(2) less.prems(2) have l: "x = l" "y @ pend (bf_src b) = r" by metis+
    have "takeWhile (\<lambda>z. z \<noteq> delim) (bf_buf b) = l" "dropWhile (\<lambda>z. z \<noteq> delim) (bf_buf b) = delim # y"
      using xy l less.prems(2) by (simp_all add: takeWhile_append dropWhile_append)
    with True l less.prems(1) xy(1) show ?thesis
      by (simp add: bf_read_until.simps [of rd delim acc b] line_ready_def fits_whole_def)
  next
    case nd: False
    show ?thesis
    proof (cases "bf_size \<le> length (bf_buf b)")
      case True
      let ?b = "b\<lparr>bf_buf := []\<rparr>"
      obtain l' where l': "l = bf_buf b @ l'" "pend (bf_src b) = l' @ delim # r"
        using first_later [OF nd less.prems(3)] by blast
      have "bf_buf b \<noteq> []" using True by (auto simp: bf_size_def)
      then have "\<exists>b'. bf_read_until rd delim (acc @ bf_buf b) ?b = Some (b', (acc @ bf_buf b) @ l' @ [delim], None) \<and>
          line_ready b' \<and> bf_buf b' @ pend (bf_src b') = r \<and> keep (bf_src b') = keep (bf_src ?b) \<and>
          (fits_whole ?b \<longrightarrow> fits_whole b')"
        using less.prems l' by (intro less.hyps) (auto simp: line_ready_def)
      moreover have "fits_whole b \<longrightarrow> fits_whole ?b" by (simp add: fits_whole_def)
      ultimately show ?thesis using True nd less.prems(1) l'
        by (auto simp: bf_read_until.simps [of rd delim acc b] line_ready_def)
    next
      case False
      with nd less.prems have "pend (bf_src b) \<noteq> []" by auto
      with False less.prems(1) obtain b' d where f: "bf_fill rd 100 b = Some b'" "d \<noteq> []" "bf_buf b' = bf_buf b @ d"
        "line_ready b'" "pend (bf_src b) = d @ pend (bf_src b')" "keep (bf_src b') = keep (bf_src b)"
        "fits_whole b \<longrightarrow> fits_whole b'"
        by (auto elim: fill_delivers)
      have "\<exists>b''. bf_read_until rd delim acc b' = Some (b'', acc @ l @ [delim], None) \<and> line_ready b'' \<and>
          bf_buf b'' @ pend (bf_src b'') = r \<and> keep (bf_src b'') = keep (bf_src b') \<and>
          (fits_whole b' \<longrightarrow> fits_whole b'')"
        using f less.prems by (intro less.hyps) auto
      with f False nd less.prems(1) show ?thesis
        by (auto simp: bf_read_until.simps [of rd delim acc b] line_ready_def)
    qed
  qed
qed

text \<open>\<open>snd k\<close>: whether what is left fits the buffer from the start.\<close>

definition holds :: "'c bufreader \<Rightarrow> string \<Rightarrow> 'k \<times> bool \<Rightarrow> bool" where
  "holds b s k \<longleftrightarrow> line_ready b \<and> bf_buf b @ pend (bf_src b) = string_bytes s \<and> keep (bf_src b) = fst k \<and>
     (snd k \<longrightarrow> fits_whole b)"

lemma ReadString_line:
  assumes "holds b (l @ CHR 0x0A # s) k" "CHR 0x0A \<notin> set l"
  shows "\<exists>b'. ReadString rd b = Some (b', Inr (l @ [CHR 0x0A])) \<and> holds b' s k"
proof -
  have nl: "string_bytes (l @ CHR 0x0A # s) = string_bytes l @ 10 # string_bytes s" by (simp add: string_bytes_def)
  have "(10 :: byte) \<notin> set (string_bytes l)" using assms(2) by (simp add: newline_bytes)
  with read_until_line [of b 10 "string_bytes l" "string_bytes s" "[]"] assms(1) nl
  obtain b' where "bf_read_until rd 10 [] b = Some (b', string_bytes l @ [10], None)" "holds b' s k"
    by (auto simp: holds_def)
  moreover have "bytes_string (string_bytes l @ [10]) = l @ [CHR 0x0A]"
    using bytes_string_bytes [of "l @ [CHR 0x0A]"] by (simp add: string_bytes_def)
  ultimately show ?thesis by (simp add: ReadString_def)
qed

lemma holds_new:
  "pend c = string_bytes s \<Longrightarrow> q \<longrightarrow> length (pend c) \<le> bf_size \<and> whole c \<Longrightarrow> holds (NewReader c) s (keep c, q)"
  by (simp add: holds_def NewReader_def line_ready_def fits_whole_def)

end

subsection \<open>Readers that end\<close>

text \<open>
  Over a stream that ends at last, with an error or a deadline, a line is read or fails in finite time:
  \<open>bf_less\<close> orders the reader by whether an error is pending, by what its source can still deliver, then
  by what is buffered.
\<close>

context stream_reader
begin

definition bf_ends :: "'c bufreader \<Rightarrow> bool" where
  "bf_ends b \<longleftrightarrow> bf_err b \<noteq> None \<or> fin (bf_src b) \<noteq> None"

definition bf_less :: "'c bufreader rel" where
  "bf_less = inv_image (less_than <*lex*> less_than <*lex*> less_than)
     (\<lambda>b. (if bf_err b = None then 1 else 0, rleft (bf_src b), length (bf_buf b)))"

lemma wf_bf_less: "wf bf_less"
  by (simp add: bf_less_def wf_inv_image wf_lex_prod)

lemma bf_less_trans: "(b1, b2) \<in> bf_less \<Longrightarrow> (b2, b3) \<in> bf_less \<Longrightarrow> (b1, b3) \<in> bf_less"
proof -
  have "trans bf_less" unfolding bf_less_def by (intro trans_inv_image trans_lex_prod) simp_all
  then show "(b1, b2) \<in> bf_less \<Longrightarrow> (b2, b3) \<in> bf_less \<Longrightarrow> (b1, b3) \<in> bf_less" by (rule transD)
qed

lemma bf_fill_ends:
  "fin (bf_src b) \<noteq> None \<Longrightarrow> length (bf_buf b) < bf_size \<Longrightarrow> bf_err b = None \<Longrightarrow>
   \<exists>b'. bf_fill rd k b = Some b' \<and> bf_ends b' \<and> (b', b) \<in> bf_less"
proof (induction k arbitrary: b)
  case 0
  then show ?case by (simp add: bf_ends_def bf_less_def)
next
  case (Suc k)
  have n: "0 < bf_size - length (bf_buf b)" using Suc.prems(2) by simp
  with Suc.prems(1) obtain c d e where r: "rd (bf_size - length (bf_buf b)) (bf_src b) = Some (c, d, e)"
    by (metis rd_ends option.exhaust prod_cases3)
  show ?case
  proof (cases e)
    case (Some x)
    with r Suc.prems show ?thesis by (simp add: bf_ends_def bf_less_def)
  next
    case None
    with rd_progress [OF n] r have p: "fin c = fin (bf_src b)" "rleft c < rleft (bf_src b)" by auto
    show ?thesis
    proof (cases "d = []")
      case False
      with r None p Suc.prems show ?thesis by (simp add: bf_ends_def bf_less_def)
    next
      case True
      with Suc.IH [of "b\<lparr>bf_src := c, bf_err := None\<rparr>"] p Suc.prems obtain b' where
        "bf_fill rd k (b\<lparr>bf_src := c, bf_err := None\<rparr>) = Some b'" "bf_ends b'"
        "(b', b\<lparr>bf_src := c, bf_err := None\<rparr>) \<in> bf_less" by auto
      with r None True p Suc.prems show ?thesis by (auto simp: bf_less_def)
    qed
  qed
qed

lemma read_until_ends:
  "bf_ends b \<Longrightarrow> \<exists>b' l e. bf_read_until rd delim acc b = Some (b', l, e) \<and> (e = None \<longrightarrow> bf_ends b' \<and> (b', b) \<in> bf_less)"
proof (induction b arbitrary: acc rule: wf_induct_rule [OF wf_bf_less])
  case (1 b)
  note unfold = bf_read_until.simps [of rd delim acc b]
  consider "delim \<in> set (bf_buf b)" | "delim \<notin> set (bf_buf b)" "bf_err b \<noteq> None"
    | "delim \<notin> set (bf_buf b)" "bf_err b = None" "bf_size \<le> length (bf_buf b)"
    | "delim \<notin> set (bf_buf b)" "bf_err b = None" "length (bf_buf b) < bf_size" by linarith
  then show ?case
  proof cases
    case 1
    have "length (dropWhile (\<lambda>x. x \<noteq> delim) (bf_buf b)) \<le> length (bf_buf b)" by (rule length_dropWhile_le)
    moreover have "bf_buf b \<noteq> []" using 1 by auto
    ultimately have "length (tl (dropWhile (\<lambda>x. x \<noteq> delim) (bf_buf b))) < length (bf_buf b)"
      by (cases "bf_buf b") auto
    with 1 "1.prems" show ?thesis by (auto simp: unfold bf_ends_def bf_less_def)
  next
    case 2
    then show ?thesis by (auto simp: unfold)
  next
    case 3
    let ?b = "b\<lparr>bf_buf := []\<rparr>"
    have "bf_buf b \<noteq> []" using 3(3) by (auto simp: bf_size_def)
    then have l: "(?b, b) \<in> bf_less" by (simp add: bf_less_def)
    have "bf_ends ?b" using "1.prems" by (simp add: bf_ends_def)
    from "1.IH" [OF l this, of "acc @ bf_buf b"] obtain b' l' e where
      "bf_read_until rd delim (acc @ bf_buf b) ?b = Some (b', l', e)" "e = None \<longrightarrow> bf_ends b' \<and> (b', ?b) \<in> bf_less"
      by blast
    with l 3 show ?thesis by (auto simp: unfold intro: bf_less_trans)
  next
    case 4
    then have "fin (bf_src b) \<noteq> None" using "1.prems" by (simp add: bf_ends_def)
    from bf_fill_ends [OF this 4(3,2)] obtain b1 where
      f: "bf_fill rd 100 b = Some b1" "bf_ends b1" "(b1, b) \<in> bf_less" by blast
    from "1.IH" [OF f(3,2), of acc] obtain b' l e where "bf_read_until rd delim acc b1 = Some (b', l, e)"
      "e = None \<longrightarrow> bf_ends b' \<and> (b', b1) \<in> bf_less" by blast
    with f 4 show ?thesis by (auto simp: unfold intro: bf_less_trans)
  qed
qed

lemma ReadString_ends:
  "bf_ends b \<Longrightarrow> (\<exists>b' e. ReadString rd b = Some (b', Inl e)) \<or>
    (\<exists>b' l. ReadString rd b = Some (b', Inr l) \<and> bf_ends b' \<and> (b', b) \<in> bf_less)"
  using read_until_ends [of b 10 "[]"] by (auto simp: ReadString_def split: option.split)

lemma bf_ends_new: "fin c \<noteq> None \<Longrightarrow> bf_ends (NewReader c)"
  by (simp add: bf_ends_def NewReader_def)

end

subsection \<open>A connection as a source of lines\<close>

text \<open>
  The segments of a connection but the last \<open>k\<close>: what a peer sends before it waits for an answer. A read
  never reaches beyond them while some of their bytes are left.
\<close>

definition conn_head :: "nat \<Rightarrow> conn \<Rightarrow> bytes" where
  "conn_head k c = (if opened c \<and> [] \<notin> set (rx c) then concat (take (length (rx c) - k) (rx c)) else [])"

definition conn_later :: "nat \<Rightarrow> conn \<Rightarrow> bytes list \<times> io_err option \<times> bytes \<times> nat option \<times> bool \<times> bool" where
  "conn_later k c = (drop (length (rx c) - k) (rx c), rx_end c, tx c, tx_room c, opened c, [] \<in> set (rx c))"

text \<open>\<open>ss\<close>: the segments there were at the beginning.\<close>

definition whole_segments :: "bytes list \<Rightarrow> conn \<Rightarrow> bool" where
  "whole_segments ss c \<longleftrightarrow> suffix (rx c) ss"

interpretation tcpl: line_source conn_read "conn_head k" "conn_later k" "whole_segments ss" for k ss
proof
  fix n :: nat and c :: conn
  assume n: "0 < n" and p: "conn_head k c \<noteq> []"
  have "k < length (rx c)" using p by (rule contrapos_np) (simp add: conn_head_def)
  with p obtain t ts where rx: "rx c = t # ts" "opened c" "k < length (rx c)" "t \<noteq> []" "[] \<notin> set ts"
    by (cases "rx c") (auto simp: conn_head_def split: if_splits)
  then have [simp]: "Suc (length ts) - k = Suc (length ts - k)" by simp
  have "suffix ts us" if "suffix (t # ts) us" for us using that by (rule suffix_ConsD)
  then show "\<exists>c' d. conn_read n c = Some (c', d, None) \<and> d \<noteq> [] \<and> length d \<le> n \<and>
      conn_head k c = d @ conn_head k c' \<and> conn_later k c' = conn_later k c \<and>
      (whole_segments ss c \<and> length (conn_head k c) \<le> n \<longrightarrow> whole_segments ss c')"
    using rx n by (auto simp: conn_read_def conn_head_def conn_later_def whole_segments_def)
qed

lemma conn_write_rest [simp]:
  "rx (c\<lparr>tx := b\<rparr>) = rx c" "conn_head k (c\<lparr>tx := b\<rparr>) = conn_head k c"
  by (simp_all add: conn_head_def)

text \<open>
  What the reader leaves for others. The text it was asked for, \<open>n\<close> bytes, ends in a segment of which
  \<open>seg\<close> remains, followed by the segments \<open>post\<close>. The reader has taken a first part of \<open>seg\<close> along, which
  goes with its buffer, and nothing of \<open>post\<close>; it has taken all of \<open>seg\<close> if text and \<open>seg\<close> fit the buffer,
  and then, as when \<open>seg\<close> is empty, the connection goes on with \<open>post\<close>.
\<close>

definition read_ahead :: "nat \<Rightarrow> bytes \<Rightarrow> bytes list \<Rightarrow> conn \<Rightarrow> bool" where
  "read_ahead n seg post c' \<longleftrightarrow> (\<exists>lost left. seg = lost @ left \<and> concat (rx c') = left @ concat post \<and>
     (left = [] \<longrightarrow> rx c' = post) \<and> (n + length seg \<le> bf_size \<longrightarrow> left = []))"

lemma read_ahead_boundary: "read_ahead n [] post c' \<longleftrightarrow> rx c' = post"
  by (auto simp: read_ahead_def)

text \<open>A connection after the exchange, with nothing else changed but what was sent.\<close>

definition after_exchange :: "nat \<Rightarrow> bytes \<Rightarrow> bytes list \<Rightarrow> conn \<Rightarrow> bytes \<Rightarrow> conn \<Rightarrow> bool" where
  "after_exchange n seg post c sent c' \<longleftrightarrow> read_ahead n seg post c' \<and> rx_end c' = rx_end c \<and>
     tx c' = tx c @ sent \<and> conn_can_send c'"

lemma conn_head_start:
  assumes "rx c = pre @ (s1 @ s2) # post" "conn_can_send c" "[] \<notin> set (rx c)"
  shows "conn_head (length post) c = concat pre @ s1 @ s2"
  using assms by (simp add: conn_head_def conn_can_send_def)

lemma conn_later_done:
  assumes "rx c = pre @ (s1 @ s2) # post" "s1 \<noteq> []" "conn_can_send c" "[] \<notin> set (rx c)"
    and "conn_later (length post) c' = conn_later (length post) c" "lost @ conn_head (length post) c' = s2"
    and "n + length s2 \<le> bf_size \<longrightarrow> whole_segments (rx c) c'"
  shows "after_exchange n s2 post c [] c'"
proof -
  let ?k = "length post"
  have l: "drop (length (rx c') - ?k) (rx c') = post" "rx_end c' = rx_end c" "tx c' = tx c"
    "tx_room c' = tx_room c" "opened c' = opened c" "[] \<notin> set (rx c')" using assms(1,4,5) by (simp_all add: conn_later_def)
  have "opened c'" using l(5) assms(3) by (simp add: conn_can_send_def)
  define left where "left = take (length (rx c') - ?k) (rx c')"
  have left: "conn_head ?k c' = concat left" "rx c' = left @ post" "[] \<notin> set left"
    using l(1,6) \<open>opened c'\<close> by (auto simp: conn_head_def left_def) (metis append_take_drop_id, meson in_set_takeD)
  have "left = []" if w: "whole_segments (rx c) c'"
  proof (rule ccontr)
    assume "left \<noteq> []"
    from w left(2) assms(1) have "suffix left (pre @ [s1 @ s2])" by (auto simp: whole_segments_def suffix_def)
    with \<open>left \<noteq> []\<close> obtain us where "left = us @ [s1 @ s2]" by (auto simp: suffix_snoc)
    then have "length (s1 @ s2) \<le> length (concat left)" by simp
    also have "\<dots> \<le> length s2" using assms(6) left(1) by (metis length_append le_add2)
    finally show False using assms(2) by simp
  qed
  moreover have "concat left = [] \<longrightarrow> left = []" using left(3) by (cases left) auto
  ultimately have "read_ahead n s2 post c'"
    unfolding read_ahead_def using assms(6,7) left
    by (intro exI [of _ lost] exI [of _ "concat left"]) auto
  with l assms(3) show ?thesis by (simp add: after_exchange_def conn_can_send_def)
qed

text \<open>A head that ends with a segment.\<close>

lemma head_segments:
  assumes "concat (take (length ss - k) ss) = h" "h \<noteq> []" "[] \<notin> set ss"
  obtains pre s1 where "ss = pre @ (s1 @ []) # drop (length ss - k) ss" "s1 \<noteq> []" "concat pre @ s1 = h"
proof -
  let ?t = "take (length ss - k) ss"
  have "?t \<noteq> []" using assms(1,2) by auto
  then have t: "?t = butlast ?t @ [last ?t]" by simp
  then have "concat (butlast ?t) @ last ?t = h" using assms(1) by (metis concat_append concat.simps append_Nil2)
  moreover have "last ?t \<noteq> []" using \<open>?t \<noteq> []\<close> assms(3) by (metis last_in_set in_set_takeD)
  moreover have "ss = butlast ?t @ (last ?t @ []) # drop (length ss - k) ss"
    using t by (metis append_Nil2 append_take_drop_id append_Cons append_Nil append_assoc)
  ultimately show ?thesis using that by blast
qed

subsection \<open>Headers\<close>

text \<open>
  \<open>fmt.Sprintf\<close> texts of header lines, and the loop every header reader of the source has: read a line,
  stop at a blank one, else go on with \<open>f\<close> of the trimmed line.
\<close>

definition crlf :: string where
  "crlf = [CHR 0x0D, CHR 0x0A]"

definition header_lines :: "string list \<Rightarrow> string" where
  "header_lines ls = concat (map (\<lambda>l. l @ crlf) ls) @ crlf"

partial_function (option) read_headers ::
  "'c reader \<Rightarrow> (string \<Rightarrow> 'a \<Rightarrow> 'a) \<Rightarrow> 'a \<Rightarrow> 'c bufreader \<Rightarrow> ('c bufreader \<times> (io_err + 'a)) option" where
  "read_headers rd f a b = (case ReadString rd b of
      None \<Rightarrow> None
    | Some (b', Inl e) \<Rightarrow> Some (b', Inl e)
    | Some (b', Inr line) \<Rightarrow>
        if TrimSpace line = [] then Some (b', Inr a) else read_headers rd f (f (TrimSpace line) a) b')"

lemma TrimSpace_blank: "TrimSpace crlf = []"
  by code_simp

definition header_line :: "string \<Rightarrow> bool" where
  "header_line l \<longleftrightarrow> CHR 0x0A \<notin> set l \<and> TrimSpace (l @ crlf) \<noteq> []"

context line_source
begin

lemma ReadString_crlf:
  assumes "holds b ((l @ crlf) @ s) k" "CHR 0x0A \<notin> set l"
  shows "\<exists>b'. ReadString rd b = Some (b', Inr (l @ crlf)) \<and> holds b' s k"
  using ReadString_line [of b "l @ [CHR 0x0D]" s k] assms by (simp add: crlf_def)

lemma read_headers_lines:
  "\<forall>l \<in> set ls. header_line l \<Longrightarrow> holds b (header_lines ls @ s) k \<Longrightarrow>
   \<exists>b'. read_headers rd f a b = Some (b', Inr (fold (\<lambda>l. f (TrimSpace (l @ crlf))) ls a)) \<and> holds b' s k"
proof (induction ls arbitrary: a b)
  case Nil
  from Nil(2) have "holds b (([] @ crlf) @ s) k" by (simp add: header_lines_def)
  from ReadString_crlf [OF this] show ?case
    by (auto simp: read_headers.simps [of rd f a b] TrimSpace_blank)
next
  case (Cons l ls)
  have "holds b ((l @ crlf) @ header_lines ls @ s) k" using Cons.prems(2) by (simp add: header_lines_def)
  moreover have l: "header_line l" using Cons.prems(1) by simp
  ultimately obtain b1 where 1: "ReadString rd b = Some (b1, Inr (l @ crlf))" "holds b1 (header_lines ls @ s) k"
    using ReadString_crlf unfolding header_line_def by meson
  with Cons.IH [OF _ 1(2), of "f (TrimSpace (l @ crlf)) a"] Cons.prems(1) l show ?case
    by (simp add: read_headers.simps [of rd f a b] header_line_def)
qed

end

context stream_reader
begin

lemma read_headers_ends: "bf_ends b \<Longrightarrow> \<exists>r. read_headers rd f a b = Some r"
proof (induction b arbitrary: a rule: wf_induct_rule [OF wf_bf_less])
  case (1 b)
  from ReadString_ends [OF "1.prems"] show ?case
  proof (elim disjE exE conjE)
    fix b' l
    assume "ReadString rd b = Some (b', Inr l)" "bf_ends b'" "(b', b) \<in> bf_less"
    with "1.IH" show ?thesis by (simp add: read_headers.simps [of rd f a b])
  qed (simp add: read_headers.simps [of rd f a b])
qed

end

end
