(* ===== verification/GoBase64.thy ===== *)
theory GoBase64
  imports GoText
begin

text \<open>
  \<open>encoding/base64\<close>, \<open>StdEncoding\<close>: the encoder, and the decoder with its rules for padding and for line
  breaks, which it skips wherever they are. Used for the noise keys and the WebSocket accept key.
\<close>

text \<open>The alphabet \<open>A-Z a-z 0-9 + /\<close> by its character codes.\<close>

definition b64_char :: "nat \<Rightarrow> char" where
  "b64_char n = chr (if n < 26 then n + 65 else if n < 52 then n + 71 else if n < 62 then n - 4
     else if n = 62 then 43 else 47)"

definition b64_val :: "char \<Rightarrow> nat option" where
  "b64_val c =
    (let k = ord c in
     if 65 \<le> k \<and> k \<le> 90 then Some (k - 65)
     else if 97 \<le> k \<and> k \<le> 122 then Some (k - 71)
     else if 48 \<le> k \<and> k \<le> 57 then Some (k + 4)
     else if k = 43 then Some 62 else if k = 47 then Some 63 else None)"

fun b64_encode :: "bytes \<Rightarrow> string" where
  "b64_encode [] = []"
| "b64_encode [x] = [b64_char (unat x div 4), b64_char (unat x mod 4 * 16), CHR ''='', CHR ''='']"
| "b64_encode [x, y] =
    [b64_char (unat x div 4), b64_char (unat x mod 4 * 16 + unat y div 16), b64_char (unat y mod 16 * 4), CHR ''='']"
| "b64_encode (x # y # z # r) =
    b64_char (unat x div 4) # b64_char (unat x mod 4 * 16 + unat y div 16) #
    b64_char (unat y mod 16 * 4 + unat z div 64) # b64_char (unat z mod 64) # b64_encode r"

text \<open>One quantum of four letters; only the last may be padded.\<close>

definition b64_bytes3 :: "nat \<Rightarrow> nat \<Rightarrow> nat \<Rightarrow> nat \<Rightarrow> bytes" where
  "b64_bytes3 a b c d = [of_nat (a * 4 + b div 16), of_nat (b mod 16 * 16 + c div 4), of_nat (c mod 4 * 64 + d)]"

fun b64_quanta :: "string \<Rightarrow> bytes option" where
  "b64_quanta [] = Some []"
| "b64_quanta (a # b # c # d # r) =
    (case (b64_val a, b64_val b) of
       (Some va, Some vb) \<Rightarrow>
         (case b64_val c of
            Some vc \<Rightarrow>
              (case b64_val d of
                 Some vd \<Rightarrow> map_option ((@) (b64_bytes3 va vb vc vd)) (b64_quanta r)
               | None \<Rightarrow> if d = CHR ''='' \<and> r = [] then Some (take 2 (b64_bytes3 va vb vc 0)) else None)
          | None \<Rightarrow> if c = CHR ''='' \<and> d = CHR ''='' \<and> r = [] then Some (take 1 (b64_bytes3 va vb 0 0)) else None)
     | _ \<Rightarrow> None)"
| "b64_quanta _ = None"

definition b64_decode :: "string \<Rightarrow> bytes option" where
  "b64_decode s = b64_quanta (filter (\<lambda>c. ord c \<noteq> 10 \<and> ord c \<noteq> 13) s)"

lemma b64_val_char [simp]: "n < 64 \<Longrightarrow> b64_val (b64_char n) = Some n"
  by (auto simp: b64_val_def b64_char_def Let_def)

lemma b64_val_pad [simp]: "b64_val (CHR ''='') = None"
  by code_simp

lemma b64_pad_no_break [simp]: "ord (CHR ''='') = 61"
  by code_simp

lemma b64_char_no_break [simp]:
  assumes "n < 64" shows "ord (b64_char n) \<noteq> 10" "ord (b64_char n) \<noteq> 13"
proof -
  have "b64_val (b64_char n) \<noteq> None" using assms by simp
  then show "ord (b64_char n) \<noteq> 10" "ord (b64_char n) \<noteq> 13"
    by (auto simp: b64_val_def Let_def split: if_splits)
qed

lemma unat_byte_div: "256 \<le> n * k \<Longrightarrow> unat (w :: byte) div k < n"
  by (metis less_le_trans less_mult_imp_div_less unat_less_256)

lemma b64_index:
  "unat (x :: byte) div 4 < 64" "unat (x :: byte) mod 4 * 16 < 64" "unat (y :: byte) mod 16 * 4 < 64"
  "unat x mod 4 * 16 + unat y div 16 < 64" "unat y mod 16 * 4 + unat (z :: byte) div 64 < 64"
proof -
  have "unat y div 16 < 16" "unat z div 64 < 4" "unat x div 4 < 64" by (simp_all add: unat_byte_div)
  moreover have "unat x mod 4 < 4" "unat y mod 16 < 16" by simp_all
  ultimately show "unat x div 4 < 64" "unat x mod 4 * 16 < 64" "unat y mod 16 * 4 < 64"
    "unat x mod 4 * 16 + unat y div 16 < 64" "unat y mod 16 * 4 + unat z div 64 < 64" by linarith+
qed

lemma b64_group:
  "of_nat (unat x div 4 * 4 + (unat x mod 4 * 16 + unat y div 16) div 16) = (x :: byte)"
  "of_nat ((unat x mod 4 * 16 + unat y div 16) mod 16 * 16 + (unat y mod 16 * 4 + unat z div 64) div 4) = (y :: byte)"
  "of_nat ((unat y mod 16 * 4 + unat z div 64) mod 4 * 64 + unat z mod 64) = (z :: byte)"
proof -
  have "unat y div 16 < 16" "unat z div 64 < 4" by (simp_all add: unat_byte_div)
  then have "unat x div 4 * 4 + (unat x mod 4 * 16 + unat y div 16) div 16 = unat x"
    "(unat x mod 4 * 16 + unat y div 16) mod 16 * 16 + (unat y mod 16 * 4 + unat z div 64) div 4 = unat y"
    "(unat y mod 16 * 4 + unat z div 64) mod 4 * 64 + unat z mod 64 = unat z"
    by simp_all
  then show "of_nat (unat x div 4 * 4 + (unat x mod 4 * 16 + unat y div 16) div 16) = x"
    "of_nat ((unat x mod 4 * 16 + unat y div 16) mod 16 * 16 + (unat y mod 16 * 4 + unat z div 64) div 4) = y"
    "of_nat ((unat y mod 16 * 4 + unat z div 64) mod 4 * 64 + unat z mod 64) = z"
    by (simp_all only: of_nat_unat ucast_id)
qed

lemma b64_quanta_encode: "b64_quanta (b64_encode b) = Some b"
proof (induction b rule: b64_encode.induct)
  case 1
  then show ?case by simp
next
  case (2 x)
  then show ?case using b64_group(1) [of x 0] by (simp add: b64_index b64_bytes3_def)
next
  case (3 x y)
  then show ?case using b64_group(1) [of x y] b64_group(2) [of x y 0] by (simp add: b64_index b64_bytes3_def)
next
  case (4 x y z r)
  then show ?case using b64_group(1) [of x y] b64_group(2) [of x y z] b64_group(3) [of y z]
    by (simp add: b64_index b64_bytes3_def)
qed

lemma b64_encode_no_break: "filter (\<lambda>c. ord c \<noteq> 10 \<and> ord c \<noteq> 13) (b64_encode b) = b64_encode b"
  by (induction b rule: b64_encode.induct) (simp_all add: b64_index)

lemma b64_decode_encode [simp, codec_simps]: "b64_decode (b64_encode b) = Some b"
  by (simp add: b64_decode_def b64_encode_no_break b64_quanta_encode)

lemma length_b64_encode: "length (b64_encode b) = 4 * ((length b + 2) div 3)"
proof (induction b rule: b64_encode.induct)
  case (4 x y z r)
  have "(5 + length r) div 3 = Suc ((length r + 2) div 3)" using div_add_self1 [of 3 "length r + 2"] by simp
  with 4 show ?case by (simp add: add.commute)
qed simp_all

end
