(* ===== verification/WebSocket.thy ===== *)
theory WebSocket
  imports GoBufio GoHash GoBase64 WSFrame Config
begin

text \<open>
  \<open>go-core/transport/websocket.go\<close>: the HTTP exchange that turns a connection into a WebSocket one. The
  16 bytes \<open>crypto/rand\<close> gives for the key and those it will give for mask keys are arguments. What the
  \<open>bufio.Reader\<close> of the exchange has read ahead is dropped with it, as in the code: the raw connection
  goes on where the reader stopped reading.
\<close>

definition ws_path :: "websocket_config option \<Rightarrow> string" where
  "ws_path cfg = (case cfg of None \<Rightarrow> ''/tunnel'' | Some c \<Rightarrow> if Path c \<noteq> [] then Path c else ''/tunnel'')"

definition ws_request_lines :: "string \<Rightarrow> string \<Rightarrow> string \<Rightarrow> string list" where
  "ws_request_lines path host key =
    [''GET '' @ path @ '' HTTP/1.1'', ''Host: '' @ host, ''Upgrade: websocket'', ''Connection: Upgrade'',
     ''Sec-WebSocket-Key: '' @ key, ''Sec-WebSocket-Version: 13'']"

definition ws_request :: "string \<Rightarrow> string \<Rightarrow> string \<Rightarrow> string" where
  "ws_request path host key = header_lines (ws_request_lines path host key)"

definition ws_response_lines :: "string \<Rightarrow> string list" where
  "ws_response_lines accept =
    [''HTTP/1.1 101 Switching Protocols'', ''Upgrade: websocket'', ''Connection: Upgrade'',
     ''Sec-WebSocket-Accept: '' @ accept]"

definition ws_response :: "string \<Rightarrow> string" where
  "ws_response accept = header_lines (ws_response_lines accept)"

definition ws_magic :: string where
  "ws_magic = ''258EAFA5-E914-47DA-95CA-C5AB0DC85B11''"

definition ws_accept :: "string \<Rightarrow> string" where
  "ws_accept wsKey = b64_encode (sha1 (string_bytes (wsKey @ ws_magic)))"

text \<open>What the header loop of the server does with a trimmed line.\<close>

definition ws_key_line :: "string \<Rightarrow> string \<Rightarrow> string" where
  "ws_key_line trimmed wsKey =
    (if HasPrefix (ToLower trimmed) ''sec-websocket-key'' then
       (case SplitN trimmed '':'' 2 of [_, v] \<Rightarrow> TrimSpace v | _ \<Rightarrow> wsKey)
     else wsKey)"

text \<open>The \<open>WebSocketConfig\<close> argument of the server side is not used by the code and left out.\<close>

definition WSClientUpgrade ::
  "bytes \<Rightarrow> (nat \<Rightarrow> byte) \<Rightarrow> string \<Rightarrow> websocket_config option \<Rightarrow> (conn, io_err, wsconn) io" where
  "WSClientUpgrade keyBytes rnd host cfg c =
    (case conn_write (string_bytes (ws_request (ws_path cfg) host (b64_encode keyBytes))) c of
      (c1, _, Some e) \<Rightarrow> Some (c1, Inl (Wrapped ''ws upgrade write'' e))
    | (c1, _, None) \<Rightarrow>
        (case ReadString conn_read (NewReader c1) of
          None \<Rightarrow> None
        | Some (b, Inl e) \<Rightarrow> Some (bf_src b, Inl (Wrapped ''ws upgrade read status'' e))
        | Some (b, Inr statusLine) \<Rightarrow>
            if \<not> contains statusLine ''101''
            then Some (bf_src b, Inl (Errorf (''ws upgrade failed: '' @ TrimSpace statusLine)))
            else (case read_headers conn_read (\<lambda>_ a. a) () b of
              None \<Rightarrow> None
            | Some (b', Inl e) \<Rightarrow> Some (bf_src b', Inl (Wrapped ''ws upgrade read headers'' e))
            | Some (b', Inr _) \<Rightarrow> Some (bf_src b', Inr (NewWSConn (bf_src b') True rnd)))))"

definition WSServerUpgrade :: "(nat \<Rightarrow> byte) \<Rightarrow> (conn, io_err, wsconn) io" where
  "WSServerUpgrade rnd c =
    (case ReadString conn_read (NewReader c) of
      None \<Rightarrow> None
    | Some (b, Inl e) \<Rightarrow> Some (bf_src b, Inl (Wrapped ''ws accept read'' e))
    | Some (b, Inr _) \<Rightarrow>
        (case read_headers conn_read ws_key_line [] b of
          None \<Rightarrow> None
        | Some (b', Inl e) \<Rightarrow> Some (bf_src b', Inl (Wrapped ''ws accept read headers'' e))
        | Some (b', Inr wsKey) \<Rightarrow>
            if wsKey = [] then Some (bf_src b', Inl (Errorf ''missing Sec-WebSocket-Key header''))
            else (case conn_write (string_bytes (ws_response (ws_accept wsKey))) (bf_src b') of
              (c1, _, Some e) \<Rightarrow> Some (c1, Inl (Wrapped ''ws accept write'' e))
            | (c1, _, None) \<Rightarrow> Some (c1, Inr (NewWSConn c1 False rnd)))))"

subsection \<open>What the texts contain\<close>

lemma b64_char_plain: "n < 64 \<Longrightarrow> plain (b64_char n)"
proof -
  have "list_all (\<lambda>n. plain (b64_char n)) [0..<64]" by code_simp
  moreover assume "n < 64"
  ultimately show ?thesis by (simp add: list_all_iff)
qed

lemma b64_encode_plain: "\<forall>c \<in> set (b64_encode b). plain c"
proof (induction b rule: b64_encode.induct)
  case 1
  then show ?case by simp
next
  case (2 x)
  have "plain (CHR ''='')" by code_simp
  moreover have "unat x div 4 < 64" "unat x mod 4 * 16 < 64" using unat_less_256 [of x] by linarith+
  ultimately show ?case by (simp add: b64_char_plain)
next
  case (3 x y)
  have "plain (CHR ''='')" by code_simp
  moreover have "unat x div 4 < 64" "unat x mod 4 * 16 + unat y div 16 < 64" "unat y mod 16 * 4 < 64"
    using unat_less_256 [of x] unat_less_256 [of y] by linarith+
  ultimately show ?case by (simp add: b64_char_plain)
next
  case (4 x y z r)
  moreover have "unat x div 4 < 64" "unat x mod 4 * 16 + unat y div 16 < 64"
    "unat y mod 16 * 4 + unat z div 64 < 64" "unat z mod 64 < 64"
    using unat_less_256 [of x] unat_less_256 [of y] unat_less_256 [of z] by linarith+
  ultimately show ?case by (simp add: b64_char_plain)
qed

lemma plain_not_newline: "plain c \<Longrightarrow> c \<noteq> CHR 0x0A"
  by (auto simp: plain_def ord_def)

lemma header_line_plain:
  assumes "plain c" "CHR 0x0A \<notin> set s" shows "header_line (c # s)"
proof -
  obtain t where "TrimSpace (c # s @ crlf) = c # t" using TrimSpace_starts [OF assms(1)] by blast
  with assms plain_not_newline [OF assms(1)] show ?thesis by (auto simp: header_line_def)
qed

lemma plain_letters: "list_all plain ''GHUCShpcwukoerv:-13''"
  by code_simp

lemma b64_no_newline: "CHR 0x0A \<notin> set (b64_encode b)"
  using b64_encode_plain plain_not_newline by blast

lemma ws_request_headers:
  assumes "CHR 0x0A \<notin> set path" "CHR 0x0A \<notin> set host"
  shows "\<forall>l \<in> set (ws_request_lines path host (b64_encode k)). header_line l"
  using plain_letters b64_no_newline [of k] assms
  by (auto simp: ws_request_lines_def intro!: header_line_plain)

lemma ws_response_headers: "\<forall>l \<in> set (ws_response_lines (b64_encode k)). header_line l"
  using plain_letters b64_no_newline [of k] by (auto simp: ws_response_lines_def intro!: header_line_plain)

text \<open>Only the key line of the request yields a key, and it yields the key.\<close>

lemma ws_key_line_other:
  assumes "plain c" "ord c < 0x80" "ascii_lower c \<noteq> CHR ''s''"
  shows "ws_key_line (TrimSpace (c # s)) a = a"
proof -
  obtain t where "TrimSpace (c # s) = c # t" using TrimSpace_starts [OF assms(1)] by blast
  moreover have "ToLower (c # t) = ascii_lower c # ToLower t" using ToLower_ascii [of "[c]" t] assms(2) by simp
  ultimately show ?thesis using assms(3) by (auto simp: ws_key_line_def HasPrefix_def)
qed

lemma ws_key_line_version: "ws_key_line (TrimSpace (''Sec-WebSocket-Version: 13'' @ crlf)) a = a"
proof -
  have "TrimSpace (''Sec-WebSocket-Version: 13'' @ crlf) = ''Sec-WebSocket-Version: 13''"
    "\<not> HasPrefix (ToLower ''Sec-WebSocket-Version: 13'') ''sec-websocket-key''" by code_simp+
  then show ?thesis by (simp only: ws_key_line_def if_False)
qed

lemma ws_key_line_key:
  assumes "\<forall>c \<in> set key. plain c" "key \<noteq> []"
  shows "ws_key_line (TrimSpace ((''Sec-WebSocket-Key: '' @ key) @ crlf)) a = key"
proof -
  obtain k d where key: "key = k @ [d]" "plain d" using assms by (metis rev_exhaust in_set_conv_decomp)
  have "plain (CHR ''S'')" using plain_letters by simp
  from TrimSpace_line [OF this key(2), of "''ec-WebSocket-Key: '' @ k"]
  have t: "TrimSpace ((''Sec-WebSocket-Key: '' @ key) @ crlf) = ''Sec-WebSocket-Key: '' @ key"
    by (simp add: key crlf_def)
  have "list_all (\<lambda>c. ord c < 0x80) ''Sec-WebSocket-Key: ''"
    "map ascii_lower ''Sec-WebSocket-Key: '' = ''sec-websocket-key'' @ '': ''" by code_simp+
  then have p: "HasPrefix (ToLower (''Sec-WebSocket-Key: '' @ key)) ''sec-websocket-key''"
    using ToLower_ascii [of "''Sec-WebSocket-Key: ''" key]
    unfolding HasPrefix_def list_all_iff by (metis append_assoc prefixI)
  have "cut '':'' (''Sec-WebSocket-Key'' @ CHR '':'' # ('' '' @ key)) = Some (''Sec-WebSocket-Key'', '' '' @ key)"
    by (rule cut_char) simp
  then have "SplitN (''Sec-WebSocket-Key: '' @ key) '':'' 2 = [''Sec-WebSocket-Key'', '' '' @ key]"
    by (simp add: SplitN_def)
  with t p TrimSpace_after_space [OF assms(1)] show ?thesis by (simp only: ws_key_line_def if_True) simp
qed


subsection \<open>The exchange\<close>

text \<open>Reading a block of lines that ends with a blank one, first line and rest as the code does.\<close>

lemma read_block:
  assumes "\<forall>l \<in> set (first # ls). header_line l" "rx c = pre @ (s1 @ s2) # post" "s1 \<noteq> []"
    and "concat pre @ s1 = string_bytes (header_lines (first # ls))" "conn_can_send c" "[] \<notin> set (rx c)"
  obtains b b' where "ReadString conn_read (NewReader c) = Some (b, Inr (first @ crlf))"
    "read_headers conn_read f a b = Some (b', Inr (fold (\<lambda>l. f (TrimSpace (l @ crlf))) ls a))"
    "after_exchange (length (header_lines (first # ls))) s2 post c [] (bf_src b')"
proof -
  let ?k = "length post" and ?r = "bytes_string s2" and ?q = "length (header_lines (first # ls)) + length s2 \<le> bf_size"
  have "conn_head ?k c = string_bytes (header_lines (first # ls)) @ s2"
    unfolding conn_head_start [OF assms(2,5,6)] append_assoc [symmetric] assms(4) ..
  then have h: "conn_head ?k c = string_bytes ((first @ crlf) @ header_lines ls @ ?r)"
    and q: "?q \<longrightarrow> length (conn_head ?k c) \<le> bf_size \<and> whole_segments (rx c) c"
    by (simp_all add: header_lines_def whole_segments_def)
  have "CHR 0x0A \<notin> set first" using assms(1) by (simp add: header_line_def)
  from tcpl.ReadString_crlf [OF tcpl.holds_new [OF h q] this] obtain b where
    b: "ReadString conn_read (NewReader c) = Some (b, Inr (first @ crlf))"
    "tcpl.holds ?k (rx c) b (header_lines ls @ ?r) (conn_later ?k c, ?q)" by blast
  from tcpl.read_headers_lines [OF _ b(2), of f a] assms(1) obtain b' where
    b': "read_headers conn_read f a b = Some (b', Inr (fold (\<lambda>l. f (TrimSpace (l @ crlf))) ls a))"
    "tcpl.holds ?k (rx c) b' ?r (conn_later ?k c, ?q)" by auto
  from b'(2) have "after_exchange (length (header_lines (first # ls))) s2 post c [] (bf_src b')"
    by (intro conn_later_done [OF assms(2,3,5,6), where lost = "bf_buf b'"])
      (auto simp: tcpl.holds_def tcpl.fits_whole_def)
  with b(1) b'(1) that show ?thesis by blast
qed

lemma client_upgrade:
  assumes "conn_can_send c" "[] \<notin> set (rx c)" "rx c = pre @ (s1 @ s2) # post" "s1 \<noteq> []"
    and "concat pre @ s1 = string_bytes (ws_response (b64_encode a))"
  shows "\<exists>c'. WSClientUpgrade kb rnd host cfg c = Some (c', Inr (NewWSConn c' True rnd)) \<and>
    after_exchange (length (ws_response (b64_encode a))) s2 post c
      (string_bytes (ws_request (ws_path cfg) host (b64_encode kb))) c'"
proof -
  let ?r = "string_bytes (ws_request (ws_path cfg) host (b64_encode kb))"
  let ?c = "c\<lparr>tx := tx c @ ?r\<rparr>"
  let ?ls = "''HTTP/1.1 101 Switching Protocols'' # tl (ws_response_lines (b64_encode a))"
  have ls: "ws_response (b64_encode a) = header_lines ?ls" by (simp add: ws_response_def ws_response_lines_def)
  have h: "\<forall>l \<in> set ?ls. header_line l" "rx ?c = pre @ (s1 @ s2) # post"
    "concat pre @ s1 = string_bytes (header_lines ?ls)" "conn_can_send ?c" "[] \<notin> set (rx ?c)"
    using ws_response_headers [of a] assms by (simp_all add: ws_response_def ws_response_lines_def)
  from read_block [OF h(1,2) assms(4) h(3-5), of "\<lambda>_ a. a" "()"] obtain b b' where
    r: "ReadString conn_read (NewReader ?c) = Some (b, Inr (''HTTP/1.1 101 Switching Protocols'' @ crlf))"
    "read_headers conn_read (\<lambda>_ a. a) () b = Some (b', Inr ())"
    "after_exchange (length (header_lines ?ls)) s2 post ?c [] (bf_src b')" by auto
  have "contains (''HTTP/1.1 101 Switching Protocols'' @ crlf) ''101''" by code_simp
  with assms(1) r have "WSClientUpgrade kb rnd host cfg c = Some (bf_src b', Inr (NewWSConn (bf_src b') True rnd))"
    unfolding WSClientUpgrade_def by (simp del: append_Cons append_Nil)
  with r(3) show ?thesis unfolding ls by (simp add: after_exchange_def)
qed

lemma server_upgrade:
  assumes "conn_can_send c" "[] \<notin> set (rx c)" "rx c = pre @ (s1 @ s2) # post" "s1 \<noteq> []"
    and "CHR 0x0A \<notin> set path" "CHR 0x0A \<notin> set host" "kb \<noteq> []"
    and "concat pre @ s1 = string_bytes (ws_request path host (b64_encode kb))"
  shows "\<exists>c'. WSServerUpgrade rnd c = Some (c', Inr (NewWSConn c' False rnd)) \<and>
    after_exchange (length (ws_request path host (b64_encode kb))) s2 post c
      (string_bytes (ws_response (ws_accept (b64_encode kb)))) c'"
proof -
  let ?key = "b64_encode kb"
  have ne: "?key \<noteq> []" using assms(7) by (cases kb rule: b64_encode.cases) simp_all
  let ?f = "\<lambda>l. ws_key_line (TrimSpace (l @ crlf))"
  let ?ls = "(''GET '' @ path @ '' HTTP/1.1'') # tl (ws_request_lines path host ?key)"
  have "list_all (\<lambda>c. plain c \<and> ord c < 0x80 \<and> ascii_lower c \<noteq> CHR ''s'') ''HUC''" by code_simp
  then have other: "?f (''Host: '' @ host) a = a" "?f ''Upgrade: websocket'' a = a" "?f ''Connection: Upgrade'' a = a" for a
    using ws_key_line_other [of "CHR ''H''"] ws_key_line_other [of "CHR ''U''"] ws_key_line_other [of "CHR ''C''"]
      by simp_all
  have k: "fold ?f (tl (ws_request_lines path host ?key)) [] = ?key"
    using ws_key_line_key [OF b64_encode_plain ne] ws_key_line_version other
    by (simp add: ws_request_lines_def)
  have ls: "ws_request path host ?key = header_lines ?ls" by (simp add: ws_request_def ws_request_lines_def)
  have "\<forall>l \<in> set ?ls. header_line l" using ws_request_headers [OF assms(5,6), of kb] by (simp add: ws_request_lines_def)
  from read_block [OF this assms(3,4) assms(8) [unfolded ls] assms(1,2), of ws_key_line "[]", unfolded k]
  obtain b b' where "ReadString conn_read (NewReader c) = Some (b, Inr ((''GET '' @ path @ '' HTTP/1.1'') @ crlf))"
    "read_headers conn_read ws_key_line [] b = Some (b', Inr ?key)"
    "after_exchange (length (header_lines ?ls)) s2 post c [] (bf_src b')" .
  with ne show ?thesis unfolding ls by (auto simp: WSServerUpgrade_def after_exchange_def read_ahead_def)
qed

lemma ws_response_length: "length (ws_response (ws_accept key)) = 129"
  by (simp add: ws_response_def ws_response_lines_def header_lines_def crlf_def ws_accept_def length_b64_encode)

subsection \<open>Properties\<close>

text \<open>
  C6. A WebSocket client and the server agree, for every segmentation of what each gets: when the request
  and the response arrive, both upgrades return, the client's connection masking and the server's not,
  and each end has sent exactly the text the other one waits for. What follows the exchange is there to
  be read if it comes in segments of its own (\<open>cseg = []\<close>). Bytes in the same segment as the end of the
  exchange are not safe: the buffered reader takes a first part of them along and is dropped, and if
  exchange and rest of the segment fit its 4096 bytes, all of them are lost.
\<close>

theorem ws_upgrade_agrees:
  assumes "conn_can_send c" "[] \<notin> set (rx c)" "rx c = cpre @ (cend @ cseg) # cpost" "cend \<noteq> []"
    and "conn_can_send s" "[] \<notin> set (rx s)" "rx s = spre @ (send @ sseg) # spost" "send \<noteq> []"
    and "CHR 0x0A \<notin> set (ws_path cfg)" "CHR 0x0A \<notin> set host" "length kb = 16"
    and "request = ws_request (ws_path cfg) host (b64_encode kb)" "response = ws_response (ws_accept (b64_encode kb))"
    and "concat spre @ send = string_bytes request" "concat cpre @ cend = string_bytes response"
  shows "\<exists>c' s'. WSClientUpgrade kb crnd host cfg c = Some (c', Inr (NewWSConn c' True crnd)) \<and>
    WSServerUpgrade srnd s = Some (s', Inr (NewWSConn s' False srnd)) \<and>
    tx c' = tx c @ string_bytes request \<and> read_ahead (length response) cseg cpost c' \<and> (cseg = [] \<longrightarrow> rx c' = cpost) \<and>
    tx s' = tx s @ string_bytes response \<and> read_ahead (length request) sseg spost s' \<and> (sseg = [] \<longrightarrow> rx s' = spost) \<and>
    rx_end c' = rx_end c \<and> rx_end s' = rx_end s \<and> conn_can_send c' \<and> conn_can_send s'"
proof -
  have "kb \<noteq> []" using assms(11) by auto
  from server_upgrade [OF assms(5-10) this assms(14) [unfolded assms(12)], of srnd] obtain s' where
    "WSServerUpgrade srnd s = Some (s', Inr (NewWSConn s' False srnd))"
    "after_exchange (length request) sseg spost s (string_bytes response) s'" unfolding assms(12,13) by blast
  moreover obtain a where a: "ws_accept (b64_encode kb) = b64_encode a" by (simp add: ws_accept_def)
  from client_upgrade [OF assms(1-4) assms(15) [unfolded assms(13) a], of kb crnd host cfg] obtain c' where
    "WSClientUpgrade kb crnd host cfg c = Some (c', Inr (NewWSConn c' True crnd))"
    "after_exchange (length response) cseg cpost c (string_bytes request) c'" unfolding assms(12,13) a by blast
  ultimately show ?thesis by (auto simp: after_exchange_def read_ahead_boundary)
qed

text \<open>A frame that comes with the response is lost, one that comes after it is not.\<close>

lemma ws_upgrade_agrees_witness:
  "\<exists>c' s'. WSClientUpgrade (replicate 16 0) (\<lambda>_. 1) ''a.b'' None
      (idle_conn\<lparr>rx := [string_bytes (ws_response (ws_accept (b64_encode (replicate 16 0)))) @ [0x89, 0], [0x82, 0]]\<rparr>) =
        Some (c', Inr (NewWSConn c' True (\<lambda>_. 1))) \<and> rx c' = [[0x82, 0]] \<and>
    WSServerUpgrade (\<lambda>_. 2)
      (idle_conn\<lparr>rx := [string_bytes (ws_request ''/tunnel'' ''a.b'' (b64_encode (replicate 16 0)))]\<rparr>) =
        Some (s', Inr (NewWSConn s' False (\<lambda>_. 2)))"
proof -
  let ?kb = "replicate 16 (0 :: byte)"
  let ?resp = "ws_response (ws_accept (b64_encode ?kb))" and ?req = "ws_request ''/tunnel'' ''a.b'' (b64_encode ?kb)"
  have ne: "string_bytes ?resp \<noteq> []" "string_bytes ?req \<noteq> []"
    by (simp_all add: ws_response_def ws_request_def header_lines_def crlf_def)
  note ne = ne ne [THEN not_sym]
  let ?c = "idle_conn\<lparr>rx := [string_bytes ?resp @ [0x89, 0], [0x82, 0]]\<rparr>"
  let ?s = "idle_conn\<lparr>rx := [string_bytes ?req]\<rparr>"
  have c: "conn_can_send ?c" "[] \<notin> set (rx ?c)" "rx ?c = [] @ (string_bytes ?resp @ [0x89, 0]) # [[0x82, 0]]"
    and s: "conn_can_send ?s" "[] \<notin> set (rx ?s)" "rx ?s = [] @ (string_bytes ?req @ []) # []"
    and p: "CHR 0x0A \<notin> set (ws_path None)" "CHR 0x0A \<notin> set ''a.b''" "length ?kb = 16"
      "?req = ws_request (ws_path None) ''a.b'' (b64_encode ?kb)"
      "concat [] @ string_bytes ?req = string_bytes ?req" "concat [] @ string_bytes ?resp = string_bytes ?resp"
    using ne by (auto simp: idle_conn_def conn_can_send_def ws_path_def simp del: string_bytes_Nil)
  from ws_upgrade_agrees [OF c ne(1) s ne(2) p(1-4) refl p(5,6), of "\<lambda>_. 1" "\<lambda>_. 2"] obtain c' s' where
    r: "WSClientUpgrade ?kb (\<lambda>_. 1) ''a.b'' None ?c = Some (c', Inr (NewWSConn c' True (\<lambda>_. 1)))"
    "WSServerUpgrade (\<lambda>_. 2) ?s = Some (s', Inr (NewWSConn s' False (\<lambda>_. 2)))"
    "read_ahead (length ?resp) [0x89, 0] [[0x82, 0]] c'" by blast
  have "length ?resp + length [0x89 :: byte, 0] \<le> bf_size" by (simp add: ws_response_length bf_size_def)
  with r(3) have "rx c' = [[0x82, 0]]" by (auto simp: read_ahead_def)
  with r(1,2) show ?thesis by blast
qed

text \<open>
  C23. Both upgrades return: when the stream of the connection ends at last, with \<open>EOF\<close>, an error or a
  deadline, neither side hangs, whatever the peer sends before.
\<close>

theorem ws_upgrades_return:
  assumes "rx_end c = Some e"
  shows "(\<exists>r. WSClientUpgrade kb rnd host cfg c = Some r) \<and> (\<exists>r. WSServerUpgrade rnd c = Some r)"
proof -
  have ends: "tcp.bf_ends (NewReader c')" if "rx_end c' = Some e" for c'
    using that by (auto simp: conn_fin_def intro: tcp.bf_ends_new)
  obtain c1 n r where w: "conn_write (string_bytes (ws_request (ws_path cfg) host (b64_encode kb))) c = (c1, n, r)"
    by (cases "conn_write (string_bytes (ws_request (ws_path cfg) host (b64_encode kb))) c") auto
  then have "rx_end c1 = Some e" using assms by (auto simp: conn_write_def split: if_splits option.splits)
  note c1 = ends [OF this]
  have "\<exists>r. WSClientUpgrade kb rnd host cfg c = Some r"
  proof (cases r)
    case None
    from tcp.ReadString_ends [OF c1] show ?thesis
    proof (elim disjE exE conjE)
      fix b l
      assume r: "ReadString conn_read (NewReader c1) = Some (b, Inr l)" "tcp.bf_ends b"
      from tcp.read_headers_ends [OF r(2), of "\<lambda>_ a. a" "()"] obtain x where
        h: "read_headers conn_read (\<lambda>_ a. a) () b = Some x" by blast
      show ?thesis
        unfolding WSClientUpgrade_def w None r(1) prod.case option.case sum.case h
        by (cases x; cases "snd x"; cases "contains l ''101''") simp_all
    qed (use w None in \<open>simp add: WSClientUpgrade_def\<close>)
  qed (use w in \<open>simp add: WSClientUpgrade_def\<close>)
  moreover from tcp.ReadString_ends [OF ends [OF assms]] have "\<exists>r. WSServerUpgrade rnd c = Some r"
  proof (elim disjE exE conjE)
    fix b l
    assume "ReadString conn_read (NewReader c) = Some (b, Inr l)" "tcp.bf_ends b"
    moreover from tcp.read_headers_ends [OF this(2), of ws_key_line "[]"] obtain x where
      "read_headers conn_read ws_key_line [] b = Some x" by blast
    ultimately show ?thesis
      by (cases x; cases "snd x") (simp_all add: WSServerUpgrade_def split: prod.split option.split)
  qed (simp add: WSServerUpgrade_def)
  ultimately show ?thesis by blast
qed

lemma ws_upgrades_return_witness:
  "\<exists>r. WSServerUpgrade (\<lambda>_. 0) (idle_conn\<lparr>rx := [[1, 10], [2]], rx_end := Some ErrTimeout\<rparr>) = Some r"
  using ws_upgrades_return [of "idle_conn\<lparr>rx := [[1, 10], [2]], rx_end := Some ErrTimeout\<rparr>" ErrTimeout] by simp

end
