(* ===== verification/Noise.thy ===== *)
theory Noise
  imports Config GoNet GoBase64
begin

text \<open>
  \<open>go-core/transport/noise.go\<close>: the key exchange and the encrypted connection. A \<open>NoiseConn\<close> is the raw
  connection with the key of each direction. The 32 bytes \<open>io.ReadFull(rand.Reader, \<dots>)\<close> delivers, or its
  error, are an argument. The abstract view is \<open>nz_frames\<close>, the payloads of the frames in a sequence of bytes.
\<close>

record noiseconn =
  nz_raw :: conn
  nz_enc :: bytes
  nz_dec :: bytes

datatype noise_err = NoiseConfigNil | InvalidPrivateKey | NoiseIO io_err

subsection \<open>Keys\<close>

definition clampKey :: "bytes \<Rightarrow> bytes" where
  "clampKey k = (let k1 = k[0 := k ! 0 AND 248]; k2 = k1[31 := k1 ! 31 AND 127] in k2[31 := k2 ! 31 OR 64])"

definition scalarBaseMult :: "bytes \<Rightarrow> bytes" where
  "scalarBaseMult scalar = scalar[0 := scalar ! 0 XOR 0x09]"

definition scalarMult :: "bytes \<Rightarrow> bytes \<Rightarrow> bytes" where
  "scalarMult scalar point = map2 (XOR) scalar point"

text \<open>The key pair \<open>GenNoiseKeypair\<close> prints, private key first, in base64.\<close>

definition GenNoiseKeypair :: "io_err + bytes \<Rightarrow> io_err + string \<times> string" where
  "GenNoiseKeypair rnd = (case rnd of
      Inl e \<Rightarrow> Inl e
    | Inr r \<Rightarrow> let priv = clampKey r; pub = scalarBaseMult priv in Inr (b64_encode priv, b64_encode pub))"

subsection \<open>The upgrade\<close>

definition nz_new :: "bytes \<Rightarrow> (conn, noise_err, noiseconn) io" where
  "nz_new shared c = Some (c, Inr \<lparr>nz_raw = c, nz_enc = shared, nz_dec = shared\<rparr>)"

definition NoiseServerUpgrade :: "noise_config option \<Rightarrow> io_err + bytes \<Rightarrow> (conn, noise_err, noiseconn) io" where
  "NoiseServerUpgrade cfg rnd = (case cfg of
      None \<Rightarrow> io_fail NoiseConfigNil
    | Some nc \<Rightarrow>
      (case b64_decode (LocalPrivateKey nc) of
         None \<Rightarrow> io_fail InvalidPrivateKey
       | Some privKeyBytes \<Rightarrow>
         if length privKeyBytes \<noteq> 32 then io_fail InvalidPrivateKey
         else (case rnd of
             Inl e \<Rightarrow> io_fail (NoiseIO e)
           | Inr r \<Rightarrow>
               let ephPriv = clampKey r; ephPub = scalarBaseMult ephPriv in
               io_bind (io_wrap NoiseIO (write_all conn_write ephPub)) (\<lambda>_.
               io_bind (io_wrap NoiseIO (read_full conn_read 32)) (\<lambda>clientPub.
               nz_new (scalarMult ephPriv clientPub))))))"

definition NoiseClientUpgrade :: "noise_config option \<Rightarrow> io_err + bytes \<Rightarrow> (conn, noise_err, noiseconn) io" where
  "NoiseClientUpgrade cfg rnd = (case cfg of
      None \<Rightarrow> io_fail NoiseConfigNil
    | Some nc \<Rightarrow>
      io_bind (io_wrap NoiseIO (read_full conn_read 32)) (\<lambda>serverPub.
      case rnd of
        Inl e \<Rightarrow> io_fail (NoiseIO e)
      | Inr r \<Rightarrow>
          let ephPriv = clampKey r; ephPub = scalarBaseMult ephPriv in
          io_bind (io_wrap NoiseIO (write_all conn_write ephPub)) (\<lambda>_.
          nz_new (scalarMult ephPriv serverPub))))"

subsection \<open>The connection\<close>

definition xorCrypt :: "bytes \<Rightarrow> bytes \<Rightarrow> bytes" where
  "xorCrypt data key = xor_from key 0 data"

text \<open>
  The length is at most 65535, so the guard of the code for longer frames never fires. \<open>copy(b, buf)\<close>
  drops what does not fit.
\<close>

definition nz_read :: "noiseconn reader" where
  "nz_read n nc = (case read_full conn_read 2 (nz_raw nc) of
      None \<Rightarrow> None
    | Some (c1, Inl e) \<Rightarrow> Some (nc\<lparr>nz_raw := c1\<rparr>, [], Some e)
    | Some (c1, Inr header) \<Rightarrow>
      (let len = 256 * unat (header ! 0) + unat (header ! 1) in
       if 65535 < len then Some (nc\<lparr>nz_raw := c1\<rparr>, [], Some (Errorf ''noise frame too large''))
       else case read_full conn_read len c1 of
         None \<Rightarrow> None
       | Some (c2, Inl e) \<Rightarrow> Some (nc\<lparr>nz_raw := c2\<rparr>, [], Some e)
       | Some (c2, Inr buf) \<Rightarrow> Some (nc\<lparr>nz_raw := c2\<rparr>, take n (xorCrypt buf (nz_dec nc)), None)))"

definition nz_write :: "noiseconn writer" where
  "nz_write b nc =
    (let encrypted = xorCrypt b (nz_enc nc);
         header = [of_nat (length encrypted div 256), of_nat (length encrypted)]
     in case conn_write header (nz_raw nc) of
          (c1, _, Some e) \<Rightarrow> (nc\<lparr>nz_raw := c1\<rparr>, 0, Some e)
        | (c1, _, None) \<Rightarrow>
          (case conn_write encrypted c1 of (c2, n, e) \<Rightarrow> (nc\<lparr>nz_raw := c2\<rparr>, n, e)))"

definition nz_close :: "noiseconn \<Rightarrow> noiseconn" where
  "nz_close nc = nc\<lparr>nz_raw := conn_close (nz_raw nc)\<rparr>"

subsection \<open>The frames in a sequence of bytes\<close>

definition nz_frame :: "bytes \<Rightarrow> bytes \<Rightarrow> bytes" where
  "nz_frame key p = put_be 2 (length p) @ xor_from key 0 p"

function nz_frames :: "bytes \<Rightarrow> bytes \<Rightarrow> bytes list" where
  "nz_frames key b =
    (if length b < 2 then []
     else let n = get_be (take 2 b); r = drop 2 b in
       if length r < n then [] else xor_from key 0 (take n r) # nz_frames key (drop n r))"
  by pat_completeness auto
termination by (relation "measure (length \<circ> snd)") auto

declare nz_frames.simps [simp del]

lemma nz_header: "[of_nat (n div 256), of_nat n] = put_be 2 n"
  by (simp add: numeral_2_eq_2)

lemma get_be_pair:
  assumes "length b = 2" shows "256 * unat (b ! 0) + unat (b ! 1) = get_be b"
proof -
  obtain x y where b: "b = [x, y]" using assms by (auto simp: length_Suc_conv numeral_2_eq_2)
  have "get_be ([x] @ [y]) = 256 * get_be ([] @ [x]) + unat y" by (simp only: get_be_simps append_Nil)
  then show ?thesis by (simp add: b get_be_def)
qed

lemma get_be_2_less: "length b = 2 \<Longrightarrow> get_be b \<le> 65535"
  using get_be_less [of b] by simp

lemma nz_frames_frame:
  assumes "length p \<le> 65535"
  shows "nz_frames key (nz_frame key p @ r) = p # nz_frames key r"
  using assms by (subst nz_frames.simps) (simp add: nz_frame_def Let_def)

abbreviation nz_pending :: "noiseconn \<Rightarrow> bytes list" where
  "nz_pending nc \<equiv> nz_frames (nz_dec nc) (conn_pending (nz_raw nc))"

text \<open>
  One \<open>Read\<close> consumes one frame and hands over as much of it as the buffer takes.
\<close>

lemma nz_read_frame:
  assumes "nz_pending nc = p # ps"
  shows "\<exists>nc'. nz_read n nc = Some (nc', take n p, None) \<and> nz_pending nc' = ps \<and>
    conn_pending (nz_raw nc') = drop (length p + 2) (conn_pending (nz_raw nc)) \<and>
    nz_enc nc' = nz_enc nc \<and> nz_dec nc' = nz_dec nc \<and> conn_kept (nz_raw nc') = conn_kept (nz_raw nc)"
proof -
  let ?b = "conn_pending (nz_raw nc)"
  let ?len = "get_be (take 2 ?b)"
  have f: "2 \<le> length ?b" "?len \<le> length (drop 2 ?b)" "p = xor_from (nz_dec nc) 0 (take ?len (drop 2 ?b))"
    "ps = nz_frames (nz_dec nc) (drop ?len (drop 2 ?b))"
    using assms by (subst (asm) nz_frames.simps; auto simp: Let_def split: if_splits)+
  obtain c1 where r1: "read_full conn_read 2 (nz_raw nc) = Some (c1, Inr (take 2 ?b))"
    "conn_pending c1 = drop 2 ?b" "conn_kept c1 = conn_kept (nz_raw nc)"
    using tcp.read_full_ok [OF f(1)] by blast
  obtain c2 where r2: "read_full conn_read ?len c1 = Some (c2, Inr (take ?len (drop 2 ?b)))"
    "conn_pending c2 = drop ?len (drop 2 ?b)" "conn_kept c2 = conn_kept c1"
    using tcp.read_full_ok [of ?len c1] f(2) r1(2) by metis
  have l: "length (take 2 ?b) = 2" using f(1) by simp
  have g: "256 * unat (?b ! 0) + unat (?b ! Suc 0) = ?len" using get_be_pair [OF l] by simp
  have "nz_read n nc = Some (nc\<lparr>nz_raw := c2\<rparr>, take n p, None)"
    using r1(1) r2(1) get_be_2_less [OF l] f(3) by (simp add: nz_read_def Let_def g xorCrypt_def)
  moreover have "length p = ?len" using f(2,3) by simp
  ultimately show ?thesis using f(4) r1 r2 by (auto simp: add.commute)
qed

lemma length_nz_frame [simp]: "length (nz_frame key p) = length p + 2"
  by (simp add: nz_frame_def)

subsection \<open>Writing\<close>

lemma nz_write_can_send:
  assumes "conn_can_send (nz_raw nc)"
  shows "nz_write b nc =
    (nc\<lparr>nz_raw := (nz_raw nc)\<lparr>tx := tx (nz_raw nc) @ nz_frame (nz_enc nc) b\<rparr>\<rparr>, length b, None)"
  using assms unfolding nz_write_def by (simp add: Let_def xorCrypt_def nz_header nz_frame_def)

definition nz_framed :: "bytes \<Rightarrow> bytes \<Rightarrow> bytes list \<Rightarrow> bool" where
  "nz_framed key b ps \<longleftrightarrow> (\<forall>r. nz_frames key (b @ r) = ps @ nz_frames key r)"

lemma nz_frames_Nil [simp]: "nz_frames key [] = []"
  by (simp add: nz_frames.simps [of key "[]"])

lemma nz_framed_Nil [simp]: "nz_framed key [] []"
  by (simp add: nz_framed_def)

lemma nz_framed_frames: "nz_framed key b ps \<Longrightarrow> nz_frames key b = ps"
  unfolding nz_framed_def by (drule spec [where x = "[]"]) simp

lemma nz_framed_append: "nz_framed key b ps \<Longrightarrow> length p \<le> 65535 \<Longrightarrow> nz_framed key (b @ nz_frame key p) (ps @ [p])"
  by (simp add: nz_framed_def nz_frames_frame)

text \<open>The bytes sent over a \<open>NoiseConn\<close> are counted from position \<open>n0\<close> on, where the key exchange ended.\<close>

definition nz_sent :: "nat \<Rightarrow> noiseconn \<Rightarrow> bytes" where
  "nz_sent n0 nc = concat (nz_frames (nz_enc nc) (drop n0 (tx (nz_raw nc))))"

definition nz_can_send :: "nat \<Rightarrow> noiseconn \<Rightarrow> bool" where
  "nz_can_send n0 nc \<longleftrightarrow> conn_can_send (nz_raw nc) \<and> n0 \<le> length (tx (nz_raw nc)) \<and>
     nz_framed (nz_enc nc) (drop n0 (tx (nz_raw nc))) (nz_frames (nz_enc nc) (drop n0 (tx (nz_raw nc))))"

definition nz_wkept :: "noiseconn \<Rightarrow> bytes \<times> bytes \<times> bytes list \<times> io_err option \<times> bool" where
  "nz_wkept nc = (nz_enc nc, nz_dec nc, rx (nz_raw nc), rx_end (nz_raw nc), opened (nz_raw nc))"

definition nz_fits :: "bytes \<Rightarrow> bool" where
  "nz_fits b \<longleftrightarrow> length b \<le> 65535"

interpretation nzw: stream_writer nz_write "nz_sent n0" "nz_can_send n0" nz_wkept nz_fits for n0
proof
  fix b nc
  assume c: "nz_can_send n0 nc" and f: "nz_fits b"
  let ?old = "drop n0 (tx (nz_raw nc))" and ?k = "nz_enc nc"
  have fr: "nz_framed ?k (?old @ nz_frame ?k b) (nz_frames ?k ?old @ [b])"
    using c f nz_framed_append by (auto simp: nz_can_send_def nz_fits_def)
  have "conn_can_send (nz_raw nc)" "n0 \<le> length (tx (nz_raw nc))" using c by (simp_all add: nz_can_send_def)
  with nz_write_can_send [of nc b] nz_framed_frames [OF fr] fr
  show "\<exists>nc'. nz_write b nc = (nc', length b, None) \<and> nz_sent n0 nc' = nz_sent n0 nc @ b \<and>
      nz_can_send n0 nc' \<and> nz_wkept nc' = nz_wkept nc"
    by (simp add: nz_sent_def nz_can_send_def nz_wkept_def)
qed

subsection \<open>Key exchange\<close>

lemma length_clampKey [simp]: "length (clampKey k) = length k"
  by (simp add: clampKey_def Let_def)

lemma length_scalarBaseMult [simp]: "length (scalarBaseMult k) = length k"
  by (simp add: scalarBaseMult_def)

text \<open>What a listener computes from the two public keys it sees.\<close>

definition eavesdrop :: "bytes \<Rightarrow> bytes \<Rightarrow> bytes" where
  "eavesdrop pub1 pub2 = (let x = map2 (XOR) pub1 pub2 in x[0 := x ! 0 XOR 0x09])"

lemma map2_xor_update:
  "i < length a \<Longrightarrow> length a = length b \<Longrightarrow> map2 (XOR) a (b[i := b ! i XOR w]) = (map2 (XOR) a b)[i := a ! i XOR b ! i XOR w]"
  by (rule nth_equalityI) (auto simp: nth_list_update xor.assoc)

lemma scalarMult_base:
  assumes "length a = 32" "length b = 32"
  shows "scalarMult a (scalarBaseMult b) = eavesdrop (scalarBaseMult a) (scalarBaseMult b)"
  using assms
  by (intro nth_equalityI)
    (auto simp: scalarMult_def scalarBaseMult_def eavesdrop_def Let_def nth_list_update ac_simps)

lemma scalarMult_base_commute:
  assumes "length a = 32" "length b = 32"
  shows "scalarMult a (scalarBaseMult b) = scalarMult b (scalarBaseMult a)"
  using assms
  by (intro nth_equalityI) (auto simp: scalarMult_def scalarBaseMult_def nth_list_update ac_simps)

lemma NoiseServerUpgrade_ok:
  assumes "b64_decode (LocalPrivateKey cfg) = Some k" "length k = 32" "conn_can_send c" "length pub = 32"
    and "conn_pending c = pub @ rest"
  obtains c' where "NoiseServerUpgrade (Some cfg) (Inr r) c =
      Some (c', Inr \<lparr>nz_raw = c', nz_enc = scalarMult (clampKey r) pub, nz_dec = scalarMult (clampKey r) pub\<rparr>)"
    "tx c' = tx c @ scalarBaseMult (clampKey r)" "conn_pending c' = rest" "conn_can_send c'"
proof -
  let ?c1 = "c\<lparr>tx := tx c @ scalarBaseMult (clampKey r)\<rparr>"
  have "32 \<le> length (conn_pending ?c1)" using assms(4,5) by simp
  then obtain c' where c': "read_full conn_read 32 ?c1 = Some (c', Inr pub)" "conn_pending c' = rest"
    "conn_kept c' = conn_kept ?c1"
    using tcp.read_full_ok [of 32 ?c1] assms(4,5) by (metis conn_pending_tx take_drop_append)
  then have "tx c' = tx c @ scalarBaseMult (clampKey r)" "conn_can_send c'"
    using assms(3) by (simp_all add: conn_kept_def conn_can_send_def)
  with c' assms(1-3) that [of c'] show ?thesis by (simp add: NoiseServerUpgrade_def Let_def nz_new_def)
qed

lemma NoiseClientUpgrade_ok:
  assumes "conn_can_send c" "length pub = 32" "conn_pending c = pub @ rest"
  obtains c' where "NoiseClientUpgrade (Some cfg) (Inr r) c =
      Some (c', Inr \<lparr>nz_raw = c', nz_enc = scalarMult (clampKey r) pub, nz_dec = scalarMult (clampKey r) pub\<rparr>)"
    "tx c' = tx c @ scalarBaseMult (clampKey r)" "conn_pending c' = rest" "conn_can_send c'"
proof -
  have "32 \<le> length (conn_pending c)" using assms(2,3) by simp
  then obtain c1 where c1: "read_full conn_read 32 c = Some (c1, Inr pub)" "conn_pending c1 = rest"
    "conn_kept c1 = conn_kept c"
    using tcp.read_full_ok [of 32 c] assms(2,3) by (metis take_drop_append)
  then have "tx c1 = tx c" "conn_can_send c1" using assms(1) by (simp_all add: conn_kept_def conn_can_send_def)
  with c1 that [of "c1\<lparr>tx := tx c1 @ scalarBaseMult (clampKey r)\<rparr>"] show ?thesis
    by (simp add: NoiseClientUpgrade_def Let_def nz_new_def)
qed

subsection \<open>Properties\<close>

text \<open>
  C17. The key exchange agrees: when each end reads the 32 bytes the other one sends, both upgrades
  succeed and all four keys are equal, so what one end writes the other decrypts, whatever the random
  bytes. The configured private key only has to be 32 bytes long; neither it nor the remote public key
  enters the result.
\<close>

theorem noise_handshake:
  assumes "b64_decode (LocalPrivateKey cs) = Some k" "length k = 32" "length rs = 32" "length rc = 32"
    and "conn_can_send s" "conn_can_send c"
    and "conn_pending s = scalarBaseMult (clampKey rc) @ xs" "conn_pending c = scalarBaseMult (clampKey rs) @ ys"
  shows "\<exists>s' c' key. NoiseServerUpgrade (Some cs) (Inr rs) s = Some (s', Inr \<lparr>nz_raw = s', nz_enc = key, nz_dec = key\<rparr>) \<and>
    NoiseClientUpgrade (Some cc) (Inr rc) c = Some (c', Inr \<lparr>nz_raw = c', nz_enc = key, nz_dec = key\<rparr>) \<and>
    tx s' = tx s @ scalarBaseMult (clampKey rs) \<and> tx c' = tx c @ scalarBaseMult (clampKey rc) \<and>
    conn_pending s' = xs \<and> conn_pending c' = ys"
proof -
  have l: "length (scalarBaseMult (clampKey rc)) = 32" "length (scalarBaseMult (clampKey rs)) = 32"
    using assms(3,4) by simp_all
  have key: "scalarMult (clampKey rs) (scalarBaseMult (clampKey rc)) = scalarMult (clampKey rc) (scalarBaseMult (clampKey rs))"
    using assms(3,4) by (intro scalarMult_base_commute) simp_all
  from NoiseServerUpgrade_ok [OF assms(1,2,5) l(1) assms(7)]
  obtain s' where "NoiseServerUpgrade (Some cs) (Inr rs) s = Some (s', Inr \<lparr>nz_raw = s',
      nz_enc = scalarMult (clampKey rs) (scalarBaseMult (clampKey rc)),
      nz_dec = scalarMult (clampKey rs) (scalarBaseMult (clampKey rc))\<rparr>)"
    "tx s' = tx s @ scalarBaseMult (clampKey rs)" "conn_pending s' = xs" by metis
  moreover from NoiseClientUpgrade_ok [OF assms(6) l(2) assms(8)]
  obtain c' where "NoiseClientUpgrade (Some cc) (Inr rc) c = Some (c', Inr \<lparr>nz_raw = c',
      nz_enc = scalarMult (clampKey rc) (scalarBaseMult (clampKey rs)),
      nz_dec = scalarMult (clampKey rc) (scalarBaseMult (clampKey rs))\<rparr>)"
    "tx c' = tx c @ scalarBaseMult (clampKey rc)" "conn_pending c' = ys" by metis
  ultimately show ?thesis unfolding key by blast
qed

text \<open>
  C26. The session key is public: whenever the server's upgrade succeeds, the key it derives is a fixed
  function (\<open>eavesdrop\<close>: XOR of the two messages and of 9 in the first byte) of the 32 bytes the server
  sent and the 32 bytes it received, both in clear.
\<close>

theorem noise_key_is_public:
  assumes "length r = 32" "NoiseServerUpgrade cfg (Inr r) s = Some (s', Inr nc)"
    and "conn_pending s = pub @ xs" "length pub = 32" "conn_can_send s"
  shows "nz_enc nc = eavesdrop (drop (length (tx s)) (tx s')) pub \<and> nz_dec nc = nz_enc nc"
proof -
  obtain nc0 where cfg: "cfg = Some nc0" using assms(2) by (cases cfg) (simp_all add: NoiseServerUpgrade_def)
  obtain k where k: "b64_decode (LocalPrivateKey nc0) = Some k" "length k = 32"
    using assms(2) by (auto simp: cfg NoiseServerUpgrade_def split: option.splits if_splits)
  obtain c' where c': "NoiseServerUpgrade cfg (Inr r) s =
      Some (c', Inr \<lparr>nz_raw = c', nz_enc = scalarMult (clampKey r) pub, nz_dec = scalarMult (clampKey r) pub\<rparr>)"
    "tx c' = tx s @ scalarBaseMult (clampKey r)"
    using NoiseServerUpgrade_ok [OF k assms(5,4,3)] cfg by metis
  have "scalarMult (clampKey r) pub = eavesdrop (scalarBaseMult (clampKey r)) pub"
    using assms(1,4)
    by (intro nth_equalityI)
      (auto simp: scalarMult_def scalarBaseMult_def eavesdrop_def Let_def nth_list_update ac_simps)
  with c' assms(2) show ?thesis by auto
qed

definition noise_sample :: noise_config where
  "noise_sample = \<lparr>Pattern = ''NK'', LocalPrivateKey = b64_encode (replicate 32 7), RemotePublicKey = []\<rparr>"

definition noise_peer :: "bytes \<Rightarrow> conn" where
  "noise_peer b = \<lparr>rx = [take 5 b, drop 5 b], rx_end = None, tx = [], tx_room = None, opened = True\<rparr>"

lemma noise_sample_key: "b64_decode (LocalPrivateKey noise_sample) = Some (replicate 32 7)"
  by (simp add: noise_sample_def)

lemma noise_peer_facts: "conn_can_send (noise_peer b)" "conn_pending (noise_peer b) = b @ []" "tx (noise_peer b) = []"
  by (simp_all add: noise_peer_def conn_can_send_def conn_pending_def)

lemma noise_handshake_witness:
  "\<exists>s' c' key.
     NoiseServerUpgrade (Some noise_sample) (Inr (replicate 32 1)) (noise_peer (scalarBaseMult (clampKey (replicate 32 2)))) =
       Some (s', Inr \<lparr>nz_raw = s', nz_enc = key, nz_dec = key\<rparr>) \<and>
     NoiseClientUpgrade (Some noise_sample) (Inr (replicate 32 2)) (noise_peer (scalarBaseMult (clampKey (replicate 32 1)))) =
       Some (c', Inr \<lparr>nz_raw = c', nz_enc = key, nz_dec = key\<rparr>)"
  using noise_handshake [OF noise_sample_key _ _ _ noise_peer_facts(1,1,2,2), of "replicate 32 1" "replicate 32 2" noise_sample]
  by (simp only: length_replicate) blast

lemma noise_key_is_public_witness:
  "\<exists>s' nc. NoiseServerUpgrade (Some noise_sample) (Inr (replicate 32 1)) (noise_peer (replicate 32 3)) = Some (s', Inr nc) \<and>
     nz_enc nc = eavesdrop (drop (length (tx (noise_peer (replicate 32 3)))) (tx s')) (replicate 32 3)"
proof -
  obtain s' where "NoiseServerUpgrade (Some noise_sample) (Inr (replicate 32 1)) (noise_peer (replicate 32 3)) =
      Some (s', Inr \<lparr>nz_raw = s', nz_enc = scalarMult (clampKey (replicate 32 1)) (replicate 32 3),
        nz_dec = scalarMult (clampKey (replicate 32 1)) (replicate 32 3)\<rparr>)"
    using NoiseServerUpgrade_ok [OF noise_sample_key _ noise_peer_facts(1) _ noise_peer_facts(2)]
    by (metis length_replicate)
  with noise_key_is_public [OF _ this noise_peer_facts(2) _ noise_peer_facts(1)] show ?thesis by auto
qed

definition nz_write_list :: "bytes list \<Rightarrow> noiseconn \<Rightarrow> noiseconn" where
  "nz_write_list ps nc = fold (\<lambda>p w. fst (nz_write p w)) ps nc"

fun nz_reads :: "nat list \<Rightarrow> noiseconn \<Rightarrow> (noiseconn \<times> bytes) option" where
  "nz_reads [] nc = Some (nc, [])"
| "nz_reads (n # ns) nc = (case nz_read n nc of
      Some (nc', d, None) \<Rightarrow> map_option (map_prod id ((@) d)) (nz_reads ns nc')
    | _ \<Rightarrow> None)"

lemma nz_write_list_frames:
  "conn_can_send (nz_raw nc) \<Longrightarrow>
    conn_can_send (nz_raw (nz_write_list ps nc)) \<and>
    tx (nz_raw (nz_write_list ps nc)) = tx (nz_raw nc) @ concat (map (nz_frame (nz_enc nc)) ps)"
  by (induction ps arbitrary: nc) (simp_all add: nz_write_list_def nz_write_can_send)

lemma nz_frames_list:
  "\<forall>p \<in> set ps. length p \<le> 65535 \<Longrightarrow> nz_frames key (concat (map (nz_frame key) ps) @ r) = ps @ nz_frames key r"
  by (induction ps) (simp_all add: nz_frames_frame)

lemma nz_reads_frames:
  "nz_pending nc = ps @ qs \<Longrightarrow> length ns = length ps \<Longrightarrow>
    \<exists>nc'. nz_reads ns nc = Some (nc', concat (map2 take ns ps)) \<and> nz_pending nc' = qs"
proof (induction ps arbitrary: ns nc)
  case Nil
  then show ?case by simp
next
  case (Cons p ps)
  then obtain n ns' where ns: "ns = n # ns'" "length ns' = length ps" by (cases ns) auto
  obtain nc' where "nz_read n nc = Some (nc', take n p, None)" "nz_pending nc' = ps @ qs"
    using nz_read_frame [of nc p "ps @ qs" n] Cons.prems(1) by auto
  with Cons.IH [OF this(2) ns(2)] show ?case by (auto simp: ns(1))
qed

lemma take_all_concat: "list_all2 (\<lambda>n p. length p \<le> n) ns ps \<Longrightarrow> concat (map2 take ns ps) = concat ps"
  by (induction rule: list_all2_induct) simp_all

text \<open>
  C27. What arrives over a noise connection: each Read returns one written buffer, cut to the size of the
  reader's buffer, and the bytes that do not fit are lost. So the data arrive unchanged when every buffer
  is at least as large as the write it receives; a reader that uses smaller buffers, as \<open>io.Reader\<close>
  allows, loses the rest of each frame.
\<close>

theorem noise_data:
  assumes "conn_can_send a" "\<forall>p \<in> set ps. length p \<le> 65535" "length ns = length ps"
    and "conn_pending b = drop (length (tx a)) (tx (nz_raw (nz_write_list ps \<lparr>nz_raw = a, nz_enc = key, nz_dec = k1\<rparr>)))"
  shows "\<exists>nc'. nz_reads ns \<lparr>nz_raw = b, nz_enc = k2, nz_dec = key\<rparr> = Some (nc', concat (map2 take ns ps)) \<and>
    nz_pending nc' = [] \<and>
    (list_all2 (\<lambda>n p. length p \<le> n) ns ps \<longrightarrow> concat (map2 take ns ps) = concat ps)"
proof -
  let ?b = "\<lparr>nz_raw = b, nz_enc = k2, nz_dec = key\<rparr>"
  have "conn_pending b = concat (map (nz_frame key) ps)"
    using assms(1,4) nz_write_list_frames [of "\<lparr>nz_raw = a, nz_enc = key, nz_dec = k1\<rparr>" ps] by simp
  then have "nz_pending ?b = ps @ []" using nz_frames_list [OF assms(2), of key "[]"] by simp
  then show ?thesis using nz_reads_frames [of ?b ps "[]" ns] assms(3) take_all_concat by blast
qed

lemma noise_data_witness:
  "\<exists>nc'. nz_reads [1, 4] \<lparr>nz_raw = noise_peer [0, 2, 11, 12, 0, 1, 15], nz_enc = [], nz_dec = [1, 1]\<rparr> =
     Some (nc', [10, 14]) \<and> nz_pending nc' = []"
proof -
  let ?a = "\<lparr>nz_raw = noise_peer [], nz_enc = [1, 1], nz_dec = []\<rparr>"
  have f: "\<forall>p \<in> set [[10, 13], [14 :: byte]]. length p \<le> 65535" "length [1, 4 :: nat] = length [[10, 13], [14 :: byte]]"
    by simp_all
  have p: "conn_pending (noise_peer [0, 2, 11, 12, 0, 1, 15]) =
      drop (length (tx (noise_peer []))) (tx (nz_raw (nz_write_list [[10, 13], [14]] ?a)))" by code_simp
  have t: "concat (map2 take [1, 4] [[10, 13], [14 :: byte]]) = [10, 14]" by code_simp
  from noise_data [OF noise_peer_facts(1) f p, of "[]", unfolded t] show ?thesis by blast
qed

lemma take_xor_from: "take n (xor_from key i d) = xor_from key i (take n d)"
proof (induction d arbitrary: i n)
  case Nil
  then show ?case by simp
next
  case (Cons x d)
  then show ?case by (cases n) simp_all
qed

text \<open>
  C40. A buffer of more than 65535 bytes is written without an error, but under a length that is off by a
  multiple of 65536: the other end gets its first bytes as one frame and takes the ciphertext of the rest
  for further frames.
\<close>

theorem noise_oversized_write:
  assumes "conn_can_send (nz_raw nc)" "nz_write b nc = (nc', n, e)"
  shows "n = length b \<and> e = None \<and>
    nz_frames (nz_enc nc) (drop (length (tx (nz_raw nc))) (tx (nz_raw nc'))) =
      take (length b mod 65536) b # nz_frames (nz_enc nc) (drop (length b mod 65536) (xor_from (nz_enc nc) 0 b))"
proof -
  let ?k = "nz_enc nc" and ?m = "length b mod 65536"
  have w: "n = length b" "e = None" "drop (length (tx (nz_raw nc))) (tx (nz_raw nc')) = put_be 2 ?m @ xor_from ?k 0 b"
    using nz_write_can_send [OF assms(1), of b] assms(2) put_be_mod [of 2 "length b"]
    by (auto simp: nz_frame_def)
  have "?m \<le> length b" "?m < 256 ^ 2" by simp_all
  then have "nz_frames ?k (put_be 2 ?m @ xor_from ?k 0 b) =
      xor_from ?k 0 (take ?m (xor_from ?k 0 b)) # nz_frames ?k (drop ?m (xor_from ?k 0 b))"
    by (subst nz_frames.simps) (simp add: Let_def)
  with w show ?thesis by (simp add: take_xor_from)
qed

lemma noise_oversized_write_witness:
  "\<exists>nc'. nz_write (replicate 65536 0) \<lparr>nz_raw = noise_peer [], nz_enc = [5], nz_dec = [5]\<rparr> = (nc', 65536, None) \<and>
    hd (nz_frames [5] (drop 0 (tx (nz_raw nc')))) = []"
proof -
  define z :: bytes where "z = replicate 65536 0"
  define nc where "nc = \<lparr>nz_raw = noise_peer [], nz_enc = [5], nz_dec = [5 :: byte]\<rparr>"
  have z: "length z = 65536" unfolding z_def by (rule length_replicate)
  obtain nc' n e where w: "nz_write z nc = (nc', n, e)" by (metis prod_cases3)
  have nc: "conn_can_send (nz_raw nc)" "tx (nz_raw nc) = []" "nz_enc nc = [5]"
    by (simp_all add: nc_def noise_peer_facts)
  from noise_oversized_write [OF nc(1) w] have "n = 65536" "e = None" "hd (nz_frames [5] (drop 0 (tx (nz_raw nc')))) = []"
    by (simp_all add: z nc)
  with w show ?thesis unfolding z_def [symmetric] nc_def [symmetric] by blast
qed

text \<open>
  The keys \<open>GenNoiseKeypair\<close> prints are usable: the private key is one the server's upgrade accepts,
  that is, with it the upgrade cannot fail for the configuration.
\<close>

theorem generated_key_accepted:
  assumes "length r = 32" "GenNoiseKeypair (Inr r) = Inr (priv, pub)"
    and "NoiseServerUpgrade (Some \<lparr>Pattern = pat, LocalPrivateKey = priv, RemotePublicKey = rpk\<rparr>) rnd c = Some (c', Inl x)"
  shows "\<exists>e. x = NoiseIO e"
proof -
  have "b64_decode priv = Some (clampKey r)" "length (clampKey r) = 32"
    using assms(1,2) by (auto simp: GenNoiseKeypair_def Let_def)
  with assms(3) show ?thesis
    by (auto simp: NoiseServerUpgrade_def Let_def nz_new_def io_bind_eq_Some io_wrap_eq_Some split: sum.splits)
qed

lemma generated_key_accepted_witness:
  "NoiseServerUpgrade (Some \<lparr>Pattern = [], LocalPrivateKey = b64_encode (clampKey (replicate 32 0)), RemotePublicKey = []\<rparr>)
      (Inl ErrNet) (noise_peer []) = Some (noise_peer [], Inl (NoiseIO ErrNet)) \<and> (\<exists>e. NoiseIO ErrNet = NoiseIO e)"
proof -
  let ?k = "b64_encode (clampKey (replicate 32 0))"
  have "GenNoiseKeypair (Inr (replicate 32 0)) = Inr (?k, b64_encode (scalarBaseMult (clampKey (replicate 32 0))))"
    by (simp add: GenNoiseKeypair_def Let_def)
  moreover have "NoiseServerUpgrade (Some \<lparr>Pattern = [], LocalPrivateKey = ?k, RemotePublicKey = []\<rparr>)
      (Inl ErrNet) (noise_peer []) = Some (noise_peer [], Inl (NoiseIO ErrNet))"
    by (simp add: NoiseServerUpgrade_def)
  ultimately show ?thesis using generated_key_accepted [of "replicate 32 0"] by auto
qed

end
