(* ===== verification/Channel.thy ===== *)
theory Channel
  imports Protocol WSFrame Noise
begin

text \<open>
  Control messages over the connections a transport gives. \<open>message_channel\<close> is what the handshake needs
  of a connection: a message that one end writes is the message the other end reads. TCP provides it as
  a byte stream; WebSocket and noise connections, which carry each write as one frame, through the
  contract \<open>packet_link\<close>.
\<close>

text \<open>
  \<open>out\<close> are the bytes an end has put on the raw connection, \<open>inc\<close> the raw bytes it has still to read,
  \<open>mode\<close> what fixes its encoding (role, keys), \<open>peer\<close> that one end can decode the other.
\<close>

locale message_channel =
  fixes rd :: "'c reader" and wr :: "'c writer"
    and out :: "'c \<Rightarrow> bytes" and inc :: "'c \<Rightarrow> bytes" and ready :: "'c \<Rightarrow> bool"
    and mode :: "'c \<Rightarrow> 'm" and peer :: "'m \<Rightarrow> 'm \<Rightarrow> bool" and fits :: "envelope \<Rightarrow> bool"
  assumes send: "ready a \<Longrightarrow> fits env \<Longrightarrow>
      \<exists>a'. WriteMessage wr env a = Some (a', Inr ()) \<and> ready a' \<and> inc a' = inc a \<and> mode a' = mode a"
    and recv: "ready a \<Longrightarrow> ready b \<Longrightarrow> peer (mode a) (mode b) \<Longrightarrow> fits env \<Longrightarrow> envelope_ok env \<Longrightarrow>
      WriteMessage wr env a = Some (a', r) \<Longrightarrow> inc b = drop (length (out a)) (out a') \<Longrightarrow>
      \<exists>b'. ReadMessage rd b = Some (b', Inr env) \<and> ready b' \<and> out b' = out b \<and> inc b' = [] \<and> mode b' = mode b"

interpretation tcpm: message_channel conn_read conn_write tx conn_pending conn_can_send "\<lambda>_. ()" "\<lambda>_ _. True"
  message_fits
proof
  fix a env
  assume "conn_can_send a" "message_fits env"
  from tcpw.WriteMessage_sends [OF this]
  obtain a' where "WriteMessage conn_write env a = Some (a', Inr ())" "conn_can_send a'"
    "(rx a', rx_end a', opened a') = (rx a, rx_end a, opened a)" by blast
  then show "\<exists>a'. WriteMessage conn_write env a = Some (a', Inr ()) \<and> conn_can_send a' \<and>
      conn_pending a' = conn_pending a \<and> () = ()" by (auto simp: conn_pending_def)
next
  fix a b a' env r
  assume a: "conn_can_send a" "conn_can_send b" "message_fits env" "envelope_ok env"
    "WriteMessage conn_write env a = Some (a', r)" "conn_pending b = drop (length (tx a)) (tx a')"
  from tcpw.WriteMessage_sends [OF a(1,3)] a(5) have "tx a' = tx a @ encode_message env" by auto
  with a(6) have "conn_pending b = encode_message env @ []" by simp
  from tcp.ReadMessage_encoded [OF this a(4,3)]
  obtain b' where "ReadMessage conn_read b = Some (b', Inr env)" "conn_pending b' = []" "conn_kept b' = conn_kept b"
    by blast
  with a(2) show "\<exists>b'. ReadMessage conn_read b = Some (b', Inr env) \<and> conn_can_send b' \<and> tx b' = tx b \<and>
      conn_pending b' = [] \<and> () = ()"
    by (auto simp: conn_kept_def conn_can_send_def)
qed

subsection \<open>Connections that frame each write\<close>

lemma read_full_packet:
  "rd (length p) c = Some (c', p, None) \<Longrightarrow> p \<noteq> [] \<Longrightarrow> read_full rd (length p) c = Some (c', Inr p)"
  by (simp add: read_full_def read_loop.simps [of rd "length p" "[]"] read_loop.simps [of rd "length p" p])

text \<open>\<open>enc m p f\<close>: \<open>f\<close> is a frame an end in mode \<open>m\<close> may send for the bytes \<open>p\<close>.\<close>

locale packet_link =
  fixes rd :: "'c reader" and wr :: "'c writer"
    and out :: "'c \<Rightarrow> bytes" and inc :: "'c \<Rightarrow> bytes" and ready :: "'c \<Rightarrow> bool"
    and mode :: "'c \<Rightarrow> 'm" and peer :: "'m \<Rightarrow> 'm \<Rightarrow> bool"
    and pmax :: nat and enc :: "'m \<Rightarrow> bytes \<Rightarrow> bytes \<Rightarrow> bool"
  assumes pmax_header: "9 \<le> pmax"
    and wr_packet: "ready a \<Longrightarrow> length p \<le> pmax \<Longrightarrow>
      \<exists>a' f. wr p a = (a', length p, None) \<and> out a' = out a @ f \<and> enc (mode a) p f \<and> ready a' \<and>
        inc a' = inc a \<and> mode a' = mode a"
    and rd_packet: "ready b \<Longrightarrow> peer m (mode b) \<Longrightarrow> enc m p f \<Longrightarrow> length p \<le> pmax \<Longrightarrow> inc b = f @ r \<Longrightarrow>
      length p \<le> n \<Longrightarrow>
      \<exists>b'. rd n b = Some (b', p, None) \<and> ready b' \<and> out b' = out b \<and> inc b' = r \<and> mode b' = mode b"
begin

definition fits :: "envelope \<Rightarrow> bool" where
  "fits env \<longleftrightarrow> message_fits env \<and> length (json_print (envelope_json env)) \<le> pmax"

lemma write_message:
  assumes "ready a" "fits env"
  shows "\<exists>a' f1 f2. WriteMessage wr env a = Some (a', Inr ()) \<and> out a' = out a @ f1 @ f2 \<and>
    enc (mode a) (frame_header (length (json_print (envelope_json env)))) f1 \<and>
    enc (mode a) (string_bytes (json_print (envelope_json env))) f2 \<and>
    ready a' \<and> inc a' = inc a \<and> mode a' = mode a"
proof -
  let ?s = "json_print (envelope_json env)"
  have "length (frame_header (length ?s)) \<le> pmax" using pmax_header by simp
  then obtain a1 f1 where 1: "wr (frame_header (length ?s)) a = (a1, length (frame_header (length ?s)), None)"
    "out a1 = out a @ f1" "enc (mode a) (frame_header (length ?s)) f1" "ready a1" "inc a1 = inc a" "mode a1 = mode a"
    using wr_packet [OF assms(1)] by blast
  have "length (string_bytes ?s) \<le> pmax" using assms(2) by (simp add: fits_def)
  then obtain a2 f2 where 2: "wr (string_bytes ?s) a1 = (a2, length (string_bytes ?s), None)"
    "out a2 = out a1 @ f2" "enc (mode a1) (string_bytes ?s) f2" "ready a2" "inc a2 = inc a1" "mode a2 = mode a1"
    using wr_packet [OF 1(4)] by blast
  have "WriteMessage wr env a = Some (a2, Inr ())"
    using assms(2) 1(1) 2(1) by (simp add: fits_def WriteMessage_fits write_all_def)
  with 1 2 show ?thesis by auto
qed

lemma read_message:
  assumes "ready b" "peer m (mode b)" "fits env" "envelope_ok env"
    and "enc m (frame_header (length (json_print (envelope_json env)))) f1"
    and "enc m (string_bytes (json_print (envelope_json env))) f2" "inc b = f1 @ f2"
  shows "\<exists>b'. ReadMessage rd b = Some (b', Inr env) \<and> ready b' \<and> out b' = out b \<and> inc b' = [] \<and> mode b' = mode b"
proof -
  let ?h = "frame_header (length (json_print (envelope_json env)))"
    and ?p = "string_bytes (json_print (envelope_json env))"
  have h: "length ?h \<le> pmax" "?h \<noteq> []" using pmax_header by (simp_all add: frame_header_def)
  have p: "length ?p \<le> pmax" "?p \<noteq> []" using assms(3) json_print_envelope_nonempty by (simp_all add: fits_def)
  obtain b1 where 1: "rd (length ?h) b = Some (b1, ?h, None)" "ready b1" "out b1 = out b" "inc b1 = f2" "mode b1 = mode b"
    using rd_packet [OF assms(1,2,5) h(1) assms(7) order_refl] by blast
  have "peer m (mode b1)" "inc b1 = f2 @ []" using 1 assms(2) by simp_all
  then obtain b2 where 2: "rd (length ?p) b1 = Some (b2, ?p, None)" "ready b2" "out b2 = out b1" "inc b2 = []" "mode b2 = mode b1"
    using rd_packet [OF 1(2) _ assms(6) p(1) _ order_refl] by blast
  have "read_full rd 9 b = Some (b1, Inr (frame_header (length ?p)))"
    using read_full_packet [of rd ?h, OF 1(1) h(2)] by simp
  from ReadMessage_parts [OF this read_full_packet [of rd ?p, OF 2(1) p(2)] refl assms(4)] assms(3)
  have "ReadMessage rd b = Some (b2, Inr env)" by (simp add: fits_def)
  with 1 2 show ?thesis by auto
qed

end

sublocale packet_link \<subseteq> pm: message_channel rd wr out inc ready mode peer fits
proof
  fix a env
  assume "ready a" "fits env"
  from write_message [OF this]
  show "\<exists>a'. WriteMessage wr env a = Some (a', Inr ()) \<and> ready a' \<and> inc a' = inc a \<and> mode a' = mode a" by blast
next
  fix a b env a' r
  assume a: "ready a" "ready b" "peer (mode a) (mode b)" "fits env" "envelope_ok env"
    "WriteMessage wr env a = Some (a', r)" "inc b = drop (length (out a)) (out a')"
  from write_message [OF a(1,4)] a(6) obtain f1 f2 where "out a' = out a @ f1 @ f2"
    "enc (mode a) (frame_header (length (json_print (envelope_json env)))) f1"
    "enc (mode a) (string_bytes (json_print (envelope_json env))) f2" by auto
  with read_message [OF a(2,3,4,5)] a(7)
  show "\<exists>b'. ReadMessage rd b = Some (b', Inr env) \<and> ready b' \<and> out b' = out b \<and> inc b' = [] \<and> mode b' = mode b"
    by simp
qed

subsection \<open>WebSocket and noise\<close>

definition ws_ready :: "wsconn \<Rightarrow> bool" where
  "ws_ready ws \<longleftrightarrow> conn_can_send (ws_raw ws) \<and> length (ws_buf ws) \<le> ws_pos ws"

definition ws_packet :: "bool \<Rightarrow> bytes \<Rightarrow> bytes \<Rightarrow> bool" where
  "ws_packet cl p f \<longleftrightarrow> (\<exists>key. (cl \<longrightarrow> length key = 4) \<and> f = ws_frame cl key 0x02 p)"

interpretation wsl: packet_link ws_read ws_write "\<lambda>ws. tx (ws_raw ws)" "\<lambda>ws. conn_pending (ws_raw ws)" ws_ready
  ws_client "\<lambda>_ _. True" MaxWSFrame ws_packet
proof
  show "9 \<le> MaxWSFrame" by (simp add: MaxWSFrame_def)
next
  fix ws :: wsconn and p :: bytes
  assume a: "ws_ready ws" "length p \<le> MaxWSFrame"
  then have "conn_can_send (ws_raw ws)" by (simp add: ws_ready_def)
  from writeFrame_can_send [OF this, where op = "0x02" and p = p] obtain ws' key where w: "writeFrame 0x02 p ws = (ws', None)"
    "tx (ws_raw ws') = tx (ws_raw ws) @ ws_frame (ws_client ws) key 0x02 p"
    "ws_client ws \<longrightarrow> length key = 4" "conn_can_send (ws_raw ws')" "ws_wkept ws' = ws_wkept ws" by blast
  have "ws_packet (ws_client ws) p (ws_frame (ws_client ws) key 0x02 p)" using w(3) by (auto simp: ws_packet_def)
  with w a(1) show "\<exists>ws' f. ws_write p ws = (ws', length p, None) \<and> tx (ws_raw ws') = tx (ws_raw ws) @ f \<and>
      ws_packet (ws_client ws) p f \<and> ws_ready ws' \<and> conn_pending (ws_raw ws') = conn_pending (ws_raw ws) \<and>
      ws_client ws' = ws_client ws"
    by (auto simp: ws_write_def ws_ready_def ws_wkept_def conn_pending_def)
next
  fix b :: wsconn and m :: bool and p f r :: bytes and n
  assume a: "ws_ready b" "ws_packet m p f" "length p \<le> MaxWSFrame" "conn_pending (ws_raw b) = f @ r" "length p \<le> n"
  then obtain key where key: "m \<longrightarrow> length key = 4" "f = ws_frame m key 0x02 p" by (auto simp: ws_packet_def)
  have "\<exists>ws'. ws_read n b = Some (ws', p, None) \<and> ws_step b r ws' \<and> conn_kept (ws_raw ws') = conn_kept (ws_raw b)"
    by (rule ws_read_whole_frame [OF a(4) [unfolded key(2)] a(3)])
      (use key(1) a(1,5) in \<open>auto simp: ws_ready_def\<close>)
  then show "\<exists>b'. ws_read n b = Some (b', p, None) \<and> ws_ready b' \<and> tx (ws_raw b') = tx (ws_raw b) \<and>
      conn_pending (ws_raw b') = r \<and> ws_client b' = ws_client b"
    using a(1) by (auto simp: ws_step_def ws_kept_def conn_kept_def ws_ready_def conn_can_send_def)
qed

definition nz_mode :: "noiseconn \<Rightarrow> bytes \<times> bytes" where
  "nz_mode nc = (nz_enc nc, nz_dec nc)"

definition nz_peer :: "bytes \<times> bytes \<Rightarrow> bytes \<times> bytes \<Rightarrow> bool" where
  "nz_peer m n \<longleftrightarrow> fst m = snd n"

interpretation nzl: packet_link nz_read nz_write "\<lambda>nc. tx (nz_raw nc)" "\<lambda>nc. conn_pending (nz_raw nc)"
  "\<lambda>nc. conn_can_send (nz_raw nc)" nz_mode nz_peer 65535 "\<lambda>m p f. f = nz_frame (fst m) p"
proof
  show "9 \<le> (65535 :: nat)" by simp
next
  fix nc :: noiseconn and p :: bytes
  assume "conn_can_send (nz_raw nc)" "length p \<le> 65535"
  with nz_write_can_send [of nc p] show "\<exists>nc' f. nz_write p nc = (nc', length p, None) \<and>
      tx (nz_raw nc') = tx (nz_raw nc) @ f \<and> f = nz_frame (fst (nz_mode nc)) p \<and> conn_can_send (nz_raw nc') \<and>
      conn_pending (nz_raw nc') = conn_pending (nz_raw nc) \<and> nz_mode nc' = nz_mode nc"
    by (simp add: nz_mode_def)
next
  fix b :: noiseconn and m :: "bytes \<times> bytes" and p f r :: bytes and n
  assume a: "conn_can_send (nz_raw b)" "nz_peer m (nz_mode b)" "f = nz_frame (fst m) p" "length p \<le> 65535"
    "conn_pending (nz_raw b) = f @ r" "length p \<le> n"
  show "\<exists>b'. nz_read n b = Some (b', p, None) \<and> conn_can_send (nz_raw b') \<and> tx (nz_raw b') = tx (nz_raw b) \<and>
      conn_pending (nz_raw b') = r \<and> nz_mode b' = nz_mode b"
    using nz_read_frame [of b p "nz_frames (nz_dec b) r" n] a nz_frames_frame [OF a(4), of "nz_dec b" r]
    by (auto simp: nz_peer_def nz_mode_def conn_kept_def conn_can_send_def)
qed

end
