(* ===== verification/NetConn.thy ===== *)
theory NetConn
  imports Channel
begin

text \<open>
  The \<open>net.Conn\<close> a control connection is at run time: a TCP or TLS connection, a \<open>WSConn\<close> or a
  \<open>NoiseConn\<close>, with the methods dispatched on the dynamic type. It is one message channel, whatever the
  transport: the interpretation \<open>netm\<close> is built from those of \<open>Channel\<close>.
\<close>

datatype net_conn = RawConn conn | WsConn wsconn | NzConn noiseconn

definition with_conn :: "('a \<Rightarrow> 'd) \<Rightarrow> 'a \<times> 'b \<Rightarrow> 'd \<times> 'b" where
  "with_conn f = apfst f"

definition net_read :: "net_conn reader" where
  "net_read n c = (case c of
      RawConn r \<Rightarrow> map_option (with_conn RawConn) (conn_read n r)
    | WsConn w \<Rightarrow> map_option (with_conn WsConn) (ws_read n w)
    | NzConn z \<Rightarrow> map_option (with_conn NzConn) (nz_read n z))"

definition net_write :: "net_conn writer" where
  "net_write b c = (case c of
      RawConn r \<Rightarrow> with_conn RawConn (conn_write b r)
    | WsConn w \<Rightarrow> with_conn WsConn (ws_write b w)
    | NzConn z \<Rightarrow> with_conn NzConn (nz_write b z))"

definition net_close :: "net_conn \<Rightarrow> net_conn" where
  "net_close c = (case c of
      RawConn r \<Rightarrow> RawConn (conn_close r) | WsConn w \<Rightarrow> WsConn (ws_close w) | NzConn z \<Rightarrow> NzConn (nz_close z))"

definition net_raw :: "net_conn \<Rightarrow> conn" where
  "net_raw c = (case c of RawConn r \<Rightarrow> r | WsConn w \<Rightarrow> ws_raw w | NzConn z \<Rightarrow> nz_raw z)"

lemma net_read_simps [simp]:
  "net_read n (RawConn r) = map_option (with_conn RawConn) (conn_read n r)"
  "net_read n (WsConn w) = map_option (with_conn WsConn) (ws_read n w)"
  "net_read n (NzConn z) = map_option (with_conn NzConn) (nz_read n z)"
  by (simp_all add: net_read_def)

lemma net_write_simps [simp]:
  "net_write b (RawConn r) = with_conn RawConn (conn_write b r)"
  "net_write b (WsConn w) = with_conn WsConn (ws_write b w)"
  "net_write b (NzConn z) = with_conn NzConn (nz_write b z)"
  by (simp_all add: net_write_def)

lemma net_raw_simps [simp]:
  "net_raw (RawConn r) = r" "net_raw (WsConn w) = ws_raw w" "net_raw (NzConn z) = nz_raw z"
  by (simp_all add: net_raw_def)

lemma with_conn_pair [simp]: "with_conn f (a, b) = (f a, b)"
  by (simp add: with_conn_def)

lemma net_close_raw: "net_raw (net_close c) = conn_close (net_raw c)"
  by (cases c) (simp_all add: net_close_def ws_close_def nz_close_def)

subsection \<open>A connection inside another\<close>

text \<open>
  \<open>f\<close> embeds a state into a larger one whose reads or writes do the same; then so do all operations
  built from them.
\<close>

definition embeds_rd :: "('a \<Rightarrow> 'd) \<Rightarrow> 'a reader \<Rightarrow> 'd reader \<Rightarrow> bool" where
  "embeds_rd f rd rd' \<longleftrightarrow> (\<forall>n c. rd' n (f c) = map_option (with_conn f) (rd n c))"

definition embeds_wr :: "('a \<Rightarrow> 'd) \<Rightarrow> 'a writer \<Rightarrow> 'd writer \<Rightarrow> bool" where
  "embeds_wr f wr wr' \<longleftrightarrow> (\<forall>b c. wr' b (f c) = with_conn f (wr b c))"

definition lifts :: "('a \<Rightarrow> 'd) \<Rightarrow> ('a, 'e, 'b) io \<Rightarrow> ('d, 'e, 'b) io \<Rightarrow> bool" where
  "lifts f m m' \<longleftrightarrow> (\<forall>c. m' (f c) = map_option (with_conn f) (m c))"

lemma liftsD: "lifts f m m' \<Longrightarrow> m' (f c) = map_option (with_conn f) (m c)"
  by (simp add: lifts_def)

lemma lifts_return: "lifts f (io_return a) (io_return a)"
  by (simp add: lifts_def)

lemma lifts_fail: "lifts f (io_fail e) (io_fail e)"
  by (simp add: lifts_def)

lemma lifts_bind: "lifts f m m' \<Longrightarrow> (\<And>a. lifts f (k a) (k' a)) \<Longrightarrow> lifts f (io_bind m k) (io_bind m' k')"
  by (auto simp: lifts_def io_bind_def split: option.split sum.split)

lemma lifts_wrap: "lifts f m m' \<Longrightarrow> lifts f (io_wrap g m) (io_wrap g m')"
  by (auto simp: lifts_def io_wrap_def split: option.split sum.split)

lemma lifts_write_all: "embeds_wr f wr wr' \<Longrightarrow> lifts f (write_all wr b) (write_all wr' b)"
  unfolding lifts_def
proof
  fix c
  assume "embeds_wr f wr wr'"
  then show "write_all wr' b (f c) = map_option (with_conn f) (write_all wr b c)"
    by (cases "wr b c") (auto simp: embeds_wr_def write_all_def split: option.split)
qed

lemma embeds_read_loop_Some:
  assumes "embeds_rd f rd rd'" "read_loop rd n acc c = Some r"
  shows "read_loop rd' n acc (f c) = Some (with_conn f r)"
proof -
  have "rd = rd \<longrightarrow> read_loop rd' n acc (f c) = Some (with_conn f r)"
  proof (rule read_loop.raw_induct [where P = "\<lambda>q n acc c r. q = rd \<longrightarrow> read_loop rd' n acc (f c) = Some (with_conn f r)",
        OF _ assms(2)])
    fix self q n acc c r
    assume IH: "\<And>q n acc c r. self q n acc c = Some r \<Longrightarrow> q = rd \<longrightarrow> read_loop rd' n acc (f c) = Some (with_conn f r)"
      and r: "(if n \<le> length acc then Some (c, acc, None)
        else case q (n - length acc) c of None \<Rightarrow> None
          | Some (c', d, e) \<Rightarrow> (case e of None \<Rightarrow> self q n (acc @ d) c' | Some x \<Rightarrow> Some (c', acc @ d, Some x))) = Some r"
    show "q = rd \<longrightarrow> read_loop rd' n acc (f c) = Some (with_conn f r)"
    proof
      assume q: "q = rd"
      from assms(1) have e: "rd' m (f c) = map_option (with_conn f) (rd m c)" for m by (simp add: embeds_rd_def)
      show "read_loop rd' n acc (f c) = Some (with_conn f r)"
        using r q e [of "n - length acc"]
        by (auto simp: read_loop.simps [of rd' n acc "f c"] split: if_split_asm option.split_asm
            dest: IH [THEN mp, OF _ refl])
    qed
  qed
  then show ?thesis by simp
qed

lemma embeds_read_loop_back:
  assumes "embeds_rd f rd rd'" "read_loop rd' n acc (f c) = Some r"
  shows "\<exists>r0. read_loop rd n acc c = Some r0"
proof -
  have "rd' = rd' \<longrightarrow> (\<forall>x. f c = f x \<longrightarrow> (\<exists>r0. read_loop rd n acc x = Some r0))"
  proof (rule read_loop.raw_induct [where P = "\<lambda>q n acc d r. q = rd' \<longrightarrow> (\<forall>x. d = f x \<longrightarrow> (\<exists>r0. read_loop rd n acc x = Some r0))",
        OF _ assms(2)])
    fix self q n acc d r
    assume IH: "\<And>q n acc d r. self q n acc d = Some r \<Longrightarrow> q = rd' \<longrightarrow> (\<forall>x. d = f x \<longrightarrow> (\<exists>r0. read_loop rd n acc x = Some r0))"
      and r: "(if n \<le> length acc then Some (d, acc, None)
        else case q (n - length acc) d of None \<Rightarrow> None
          | Some (c', b, e) \<Rightarrow> (case e of None \<Rightarrow> self q n (acc @ b) c' | Some x \<Rightarrow> Some (c', acc @ b, Some x))) = Some r"
    show "q = rd' \<longrightarrow> (\<forall>x. d = f x \<longrightarrow> (\<exists>r0. read_loop rd n acc x = Some r0))"
    proof (intro impI allI)
      fix x
      assume q: "q = rd'" and d: "d = f x"
      from assms(1) have e: "rd' m (f x) = map_option (with_conn f) (rd m x)" for m by (simp add: embeds_rd_def)
      show "\<exists>r0. read_loop rd n acc x = Some r0"
        using r q d e [of "n - length acc"]
        by (auto simp: read_loop.simps [of rd n acc x] simp del: split_paired_Ex split: if_split_asm option.split_asm option.split
            dest: IH [THEN mp, OF _ refl, rule_format, OF _ refl])
    qed
  qed
  then show ?thesis by simp
qed

lemma embeds_read_loop:
  assumes "embeds_rd f rd rd'"
  shows "read_loop rd' n acc (f c) = map_option (with_conn f) (read_loop rd n acc c)"
proof (cases "read_loop rd n acc c")
  case None
  have "read_loop rd' n acc (f c) = None"
  proof (rule ccontr)
    assume "read_loop rd' n acc (f c) \<noteq> None"
    with embeds_read_loop_back [OF assms] None show False by fastforce
  qed
  with None show ?thesis by simp
next
  case (Some r)
  with embeds_read_loop_Some [OF assms] show ?thesis by simp
qed

lemma lifts_read_full: "embeds_rd f rd rd' \<Longrightarrow> lifts f (read_full rd n) (read_full rd' n)"
  by (auto simp: lifts_def read_full_def embeds_read_loop split: option.split)

lemma lifts_WriteMessage: "embeds_wr f wr wr' \<Longrightarrow> lifts f (WriteMessage wr env) (WriteMessage wr' env)"
  by (simp add: WriteMessage_def json_marshal_def Let_def lifts_fail lifts_bind lifts_wrap lifts_write_all)

lemma lifts_ReadMessage: "embeds_rd f rd rd' \<Longrightarrow> lifts f (ReadMessage rd) (ReadMessage rd')"
  unfolding ReadMessage_def
  by (intro lifts_bind lifts_wrap lifts_read_full)
     (auto simp: Let_def lifts_fail lifts_return split: sum.split intro!: lifts_bind lifts_wrap lifts_read_full)

lemma net_embeds:
  "embeds_rd RawConn conn_read net_read" "embeds_rd WsConn ws_read net_read" "embeds_rd NzConn nz_read net_read"
  "embeds_wr RawConn conn_write net_write" "embeds_wr WsConn ws_write net_write" "embeds_wr NzConn nz_write net_write"
  by (simp_all add: embeds_rd_def embeds_wr_def)

lemmas net_WriteMessage = net_embeds(4-6) [THEN lifts_WriteMessage, THEN liftsD]
lemmas net_ReadMessage = net_embeds(1-3) [THEN lifts_ReadMessage, THEN liftsD]

subsection \<open>One message channel\<close>

datatype link_mode = RawMode | WsMode bool | NzMode "bytes \<times> bytes"

definition net_mode :: "net_conn \<Rightarrow> link_mode" where
  "net_mode c = (case c of RawConn _ \<Rightarrow> RawMode | WsConn w \<Rightarrow> WsMode (ws_client w) | NzConn z \<Rightarrow> NzMode (nz_mode z))"

definition net_peer :: "link_mode \<Rightarrow> link_mode \<Rightarrow> bool" where
  "net_peer m m' \<longleftrightarrow> (case (m, m') of
      (RawMode, RawMode) \<Rightarrow> True
    | (WsMode _, WsMode _) \<Rightarrow> True
    | (NzMode a, NzMode b) \<Rightarrow> nz_peer a b
    | _ \<Rightarrow> False)"

definition net_ready :: "net_conn \<Rightarrow> bool" where
  "net_ready c \<longleftrightarrow> (case c of RawConn r \<Rightarrow> conn_can_send r | WsConn w \<Rightarrow> ws_ready w | NzConn z \<Rightarrow> conn_can_send (nz_raw z))"

text \<open>Messages of at most 65535 bytes of JSON: what every transport carries.\<close>

definition net_fits :: "envelope \<Rightarrow> bool" where
  "net_fits env \<longleftrightarrow> length (json_print (envelope_json env)) \<le> 65535"

lemma net_fits_all: "net_fits env \<Longrightarrow> message_fits env \<and> wsl.fits env \<and> nzl.fits env"
  unfolding wsl.fits_def nzl.fits_def by (simp add: net_fits_def message_fits_def MaxFrameSize_def MaxWSFrame_def)

interpretation netm: message_channel net_read net_write "\<lambda>c. tx (net_raw c)" "\<lambda>c. conn_pending (net_raw c)" net_ready
  net_mode net_peer net_fits
proof
  fix a env
  assume "net_ready a" "net_fits env"
  note fits = net_fits_all [OF this(2)]
  show "\<exists>a'. WriteMessage net_write env a = Some (a', Inr ()) \<and> net_ready a' \<and>
      conn_pending (net_raw a') = conn_pending (net_raw a) \<and> net_mode a' = net_mode a"
  proof (cases a)
    case (RawConn r)
    with \<open>net_ready a\<close> tcpm.send [of r env] fits show ?thesis
      by (auto simp: net_ready_def net_mode_def net_WriteMessage)
  next
    case (WsConn w)
    with \<open>net_ready a\<close> wsl.pm.send [of w env] fits show ?thesis
      by (auto simp: net_ready_def net_mode_def net_WriteMessage)
  next
    case (NzConn z)
    with \<open>net_ready a\<close> nzl.pm.send [of z env] fits show ?thesis
      by (auto simp: net_ready_def net_mode_def net_WriteMessage)
  qed
next
  fix a b a' env r
  assume h: "net_ready a" "net_ready b" "net_peer (net_mode a) (net_mode b)" "net_fits env" "envelope_ok env"
    "WriteMessage net_write env a = Some (a', r)" "conn_pending (net_raw b) = drop (length (tx (net_raw a))) (tx (net_raw a'))"
  note fits = net_fits_all [OF h(4)]
  show "\<exists>b'. ReadMessage net_read b = Some (b', Inr env) \<and> net_ready b' \<and> tx (net_raw b') = tx (net_raw b) \<and>
      conn_pending (net_raw b') = [] \<and> net_mode b' = net_mode b"
  proof (cases a)
    case a: (RawConn x)
    with h(3) obtain y where b: "b = RawConn y" by (cases b) (auto simp: net_peer_def net_mode_def)
    from h(6) a obtain x' where x': "WriteMessage conn_write env x = Some (x', r)" "a' = RawConn x'"
      by (auto simp: net_WriteMessage)
    from tcpm.recv [of x y env x' r] h a b x' fits show ?thesis
      by (auto simp: net_ready_def net_mode_def net_ReadMessage)
  next
    case a: (WsConn x)
    with h(3) obtain y where b: "b = WsConn y" by (cases b) (auto simp: net_peer_def net_mode_def)
    from h(6) a obtain x' where x': "WriteMessage ws_write env x = Some (x', r)" "a' = WsConn x'"
      by (auto simp: net_WriteMessage)
    from wsl.pm.recv [of x y env x' r] h a b x' fits show ?thesis
      by (auto simp: net_ready_def net_mode_def net_ReadMessage)
  next
    case a: (NzConn x)
    with h(3) obtain y where b: "b = NzConn y" "nz_peer (nz_mode x) (nz_mode y)"
      by (cases b) (auto simp: net_peer_def net_mode_def)
    from h(6) a obtain x' where x': "WriteMessage nz_write env x = Some (x', r)" "a' = NzConn x'"
      by (auto simp: net_WriteMessage)
    from nzl.pm.recv [of x y env x' r] h a b x' fits show ?thesis
      by (auto simp: net_ready_def net_mode_def net_ReadMessage)
  qed
qed

end
