(* ===== verification/LoadBalancer.thy ===== *)
theory LoadBalancer
  imports GoNet "HOL-Library.Signed_Division" "HOL-Library.Multiset"
begin

text \<open>
  \<open>go-core/loadbalancer/loadbalancer.go\<close>. The counters keep their width: \<open>index\<close> is a \<open>uint64\<close> that \<open>Next\<close>
  converts to \<open>int\<close> before the (truncating) remainder, a connection counter an \<open>int64\<close>. \<open>int\<close> has 64 bits
  here, as on amd64 and arm64; on the 32-bit targets the program is also built for, the converted counter
  is negative from \<open>2 ^ 31\<close> calls on already. What
  \<open>math/rand\<close> returns for \<open>Intn(n)\<close> is an argument, as is the outcome of a dial. An index out of
  range is the value \<open>IndexPanic\<close>.
\<close>

datatype Strategy = RoundRobin | Random | LeastConn

record load_balancer =
  lb_backends :: "string list"
  lb_strategy :: Strategy
  lb_index :: "64 word"
  lb_connections :: "64 word list"

datatype lb_err = NoBackends | IndexPanic int | BackendFailed string

definition ParseStrategy :: "string \<Rightarrow> Strategy" where
  "ParseStrategy s =
    (if s = ''random'' then Random else if s = ''least_conn'' then LeastConn else RoundRobin)"

definition lb_new :: "string list \<Rightarrow> Strategy \<Rightarrow> load_balancer" where
  "lb_new bs st =
    \<lparr>lb_backends = bs, lb_strategy = st, lb_index = 0, lb_connections = replicate (length bs) 0\<rparr>"

text \<open>The loop of \<open>LeastConn\<close>, from index \<open>i\<close> on, with the best index so far and its count.\<close>

fun least_from :: "64 word list \<Rightarrow> nat \<Rightarrow> nat \<Rightarrow> 64 word \<Rightarrow> nat" where
  "least_from [] i idx minConn = idx"
| "least_from (c # cs) i idx minConn =
    (if sint c < sint minConn then least_from cs (Suc i) i c else least_from cs (Suc i) idx minConn)"

definition lb_pick :: "(nat \<Rightarrow> nat) \<Rightarrow> load_balancer \<Rightarrow> load_balancer \<times> int" where
  "lb_pick intn lb = (case lb_strategy lb of
      RoundRobin \<Rightarrow>
        (lb\<lparr>lb_index := lb_index lb + 1\<rparr>, sint (lb_index lb + 1 - 1) smod int (length (lb_backends lb)))
    | Random \<Rightarrow> (lb, int (intn (length (lb_backends lb))))
    | LeastConn \<Rightarrow>
        (lb, int (least_from (tl (lb_connections lb)) 1 0 (hd (lb_connections lb)))))"

definition Next :: "(nat \<Rightarrow> nat) \<Rightarrow> load_balancer \<Rightarrow> load_balancer \<times> (lb_err + string \<times> nat)" where
  "Next intn lb =
    (if lb_backends lb = [] then (lb, Inl NoBackends)
     else case lb_pick intn lb of (lb', idx) \<Rightarrow>
       if 0 \<le> idx \<and> idx < int (length (lb_backends lb)) then (lb', Inr (lb_backends lb ! nat idx, nat idx))
       else (lb', Inl (IndexPanic idx)))"

definition add_connection :: "nat \<Rightarrow> 64 word \<Rightarrow> load_balancer \<Rightarrow> load_balancer" where
  "add_connection idx d lb = lb\<lparr>lb_connections := (lb_connections lb)[idx := lb_connections lb ! idx + d]\<rparr>"

text \<open>
  \<open>Connect\<close> up to the dial and after it, as one call runs by itself; \<open>lb_step\<close> below has its steps one by one.
\<close>

definition lb_begin :: "(nat \<Rightarrow> nat) \<Rightarrow> load_balancer \<Rightarrow> load_balancer \<times> (lb_err + string \<times> nat)" where
  "lb_begin intn lb = (case Next intn lb of
      (lb', Inl e) \<Rightarrow> (lb', Inl e)
    | (lb', Inr (addr, idx)) \<Rightarrow> (add_connection idx 1 lb', Inr (addr, idx)))"

definition lb_dialed :: "string \<Rightarrow> nat \<Rightarrow> 'c option \<Rightarrow> load_balancer \<Rightarrow> load_balancer \<times> (lb_err + 'c \<times> nat)" where
  "lb_dialed addr idx conn lb = (case conn of
      None \<Rightarrow> (add_connection idx (- 1) lb, Inl (BackendFailed addr))
    | Some c \<Rightarrow> (lb, Inr (c, idx)))"

definition Connect ::
  "(nat \<Rightarrow> nat) \<Rightarrow> (string \<Rightarrow> 'c option) \<Rightarrow> load_balancer \<Rightarrow> load_balancer \<times> (lb_err + 'c \<times> nat)" where
  "Connect intn dial lb = (case lb_begin intn lb of
      (lb', Inl e) \<Rightarrow> (lb', Inl e)
    | (lb', Inr (addr, idx)) \<Rightarrow> lb_dialed addr idx (dial addr) lb')"

definition Release :: "int \<Rightarrow> load_balancer \<Rightarrow> load_balancer" where
  "Release idx lb =
    (if 0 \<le> idx \<and> idx < int (length (lb_connections lb)) then add_connection (nat idx) (- 1) lb else lb)"

definition Backends :: "load_balancer \<Rightarrow> string list" where
  "Backends lb = lb_backends lb"

text \<open>What \<open>New\<close> establishes and every operation keeps: one counter per backend.\<close>

definition lb_ok :: "load_balancer \<Rightarrow> bool" where
  "lb_ok lb \<longleftrightarrow> length (lb_connections lb) = length (lb_backends lb)"

lemma lb_ok_new [simp]: "lb_ok (lb_new bs st)"
  by (simp add: lb_ok_def lb_new_def)

lemma lb_ok_add [simp]: "lb_ok (add_connection i d lb) = lb_ok lb"
  by (simp add: lb_ok_def add_connection_def)

lemma lb_pick_kept:
  assumes "lb_pick intn lb = (lb', idx)"
  shows "lb_backends lb' = lb_backends lb" "lb_connections lb' = lb_connections lb" "lb_strategy lb' = lb_strategy lb"
  using assms by (auto simp: lb_pick_def split: Strategy.splits)

lemma Next_kept:
  assumes "Next intn lb = (lb', r)"
  shows "lb_backends lb' = lb_backends lb" "lb_connections lb' = lb_connections lb" "lb_strategy lb' = lb_strategy lb"
  using assms by (auto simp: Next_def split: if_splits prod.splits dest: lb_pick_kept)

lemma Next_Inr:
  "Next intn lb = (lb', Inr (addr, idx)) \<Longrightarrow> idx < length (lb_backends lb) \<and> addr = lb_backends lb ! idx"
  by (auto simp: Next_def split: if_splits prod.splits)

subsection \<open>Least connections\<close>

text \<open>
  The loop returns the first of the smallest counters, given that \<open>idx\<close> is the first smallest of those
  before \<open>i\<close>.
\<close>

definition first_least :: "64 word list \<Rightarrow> nat \<Rightarrow> bool" where
  "first_least cs k \<longleftrightarrow> k < length cs \<and> (\<forall>j < length cs. sint (cs ! k) \<le> sint (cs ! j)) \<and>
     (\<forall>j < k. sint (cs ! k) < sint (cs ! j))"

lemma first_least_snoc:
  assumes "first_least ds idx"
  shows "first_least (ds @ [c]) (if sint c < sint (ds ! idx) then length ds else idx)"
  using assms by (auto simp: first_least_def nth_append less_Suc_eq dest: order.strict_trans1)

lemma least_from_first:
  "first_least ds idx \<Longrightarrow> first_least (ds @ cs) (least_from cs (length ds) idx (ds ! idx))"
proof (induction cs arbitrary: ds idx)
  case Nil
  then show ?case by simp
next
  case (Cons c cs)
  let ?idx = "if sint c < sint (ds ! idx) then length ds else idx"
  have "first_least ((ds @ [c]) @ cs) (least_from cs (length (ds @ [c])) ?idx ((ds @ [c]) ! ?idx))"
    by (rule Cons.IH [OF first_least_snoc [OF Cons.prems]])
  moreover have "idx < length ds" using Cons.prems by (simp add: first_least_def)
  ultimately show ?case by (simp add: nth_append split: if_splits)
qed

lemma least_first:
  assumes "cs \<noteq> []"
  shows "first_least cs (least_from (tl cs) 1 0 (hd cs))"
proof -
  have "first_least [hd cs] 0" by (simp add: first_least_def)
  from least_from_first [OF this, of "tl cs"] assms show ?thesis by simp
qed

subsection \<open>Round robin\<close>

lemma sint_of_nat_small: "k < 2 ^ 63 \<Longrightarrow> sint (of_nat k :: 64 word) = int k"
  by (simp add: signed_of_nat signed_take_bit_int_eq_self)

lemma smod_nonneg: "0 \<le> a \<Longrightarrow> a smod int n = a mod int n"
  by (cases "a = 0") (simp_all add: signed_modulo_int_def)

lemma Next_round_robin:
  assumes "lb_backends lb \<noteq> []" "lb_strategy lb = RoundRobin" "lb_index lb = of_nat k" "k < 2 ^ 63"
  shows "Next intn lb = (lb\<lparr>lb_index := of_nat (Suc k)\<rparr>,
    Inr (lb_backends lb ! (k mod length (lb_backends lb)), k mod length (lb_backends lb)))"
proof -
  let ?n = "length (lb_backends lb)"
  have "lb_pick intn lb = (lb\<lparr>lb_index := of_nat (Suc k)\<rparr>, int (k mod ?n))"
    using assms by (simp add: lb_pick_def sint_of_nat_small smod_nonneg zmod_int add.commute)
  with assms(1) show ?thesis by (simp add: Next_def nat_int del: of_nat_Suc of_nat_mod)
qed

definition lb_after :: "(nat \<Rightarrow> nat) \<Rightarrow> nat \<Rightarrow> load_balancer \<Rightarrow> load_balancer" where
  "lb_after intn k lb = ((\<lambda>l. fst (Next intn l)) ^^ k) lb"

lemma lb_after_round_robin:
  assumes "bs \<noteq> []"
  shows "k \<le> 2 ^ 63 \<Longrightarrow> lb_after intn k (lb_new bs RoundRobin) = (lb_new bs RoundRobin)\<lparr>lb_index := of_nat k\<rparr>"
proof (induction k)
  case 0
  then show ?case by (simp add: lb_after_def lb_new_def)
next
  case (Suc k)
  then have "lb_after intn k (lb_new bs RoundRobin) = (lb_new bs RoundRobin)\<lparr>lb_index := of_nat k\<rparr>" by simp
  with Suc.prems Next_round_robin [of "(lb_new bs RoundRobin)\<lparr>lb_index := of_nat k\<rparr>" k intn] assms
  show ?case by (simp add: lb_after_def lb_new_def)
qed

subsection \<open>Connections in flight\<close>

text \<open>
  A balancer with the calls in progress and the connections handed out. Between two accesses to the atomic
  counters of one call, and between \<open>Next\<close> and the counting in \<open>Connect\<close>, any other call may run: a call has
  its own state, a scan of \<open>least_conn\<close> with its loop variables \<open>i\<close>, \<open>idx\<close> and \<open>minConn\<close> included.
\<close>

datatype lb_call = Scanning nat nat "64 word" | Picked nat | Dialing nat | Held nat

definition call_index :: "lb_call \<Rightarrow> nat" where
  "call_index c = (case c of Scanning i idx m \<Rightarrow> idx | Picked idx \<Rightarrow> idx | Dialing idx \<Rightarrow> idx | Held idx \<Rightarrow> idx)"

type_synonym lb_world = "load_balancer \<times> lb_call multiset"

inductive lb_step :: "lb_world \<Rightarrow> lb_world \<Rightarrow> bool" where
  next_pick: "lb_strategy lb \<noteq> LeastConn \<Longrightarrow> Next intn lb = (lb', Inr (addr, idx)) \<Longrightarrow>
    lb_step (lb, C) (lb', add_mset (Picked idx) C)"
| next_fail: "Next intn lb = (lb', Inl e) \<Longrightarrow> lb_step (lb, C) (lb', C)"
| scan_start: "lb_strategy lb = LeastConn \<Longrightarrow> lb_backends lb \<noteq> [] \<Longrightarrow>
    lb_step (lb, C) (lb, add_mset (Scanning 1 0 (hd (lb_connections lb))) C)"
| scan_load: "Scanning i idx m \<in># C \<Longrightarrow> i < length (lb_backends lb) \<Longrightarrow> c = lb_connections lb ! i \<Longrightarrow>
    lb_step (lb, C) (lb, add_mset (if sint c < sint m then Scanning (Suc i) i c else Scanning (Suc i) idx m)
      (C - {#Scanning i idx m#}))"
| scan_end: "Scanning i idx m \<in># C \<Longrightarrow> length (lb_backends lb) \<le> i \<Longrightarrow>
    lb_step (lb, C) (lb, add_mset (Picked idx) (C - {#Scanning i idx m#}))"
| begin_dial: "Picked idx \<in># C \<Longrightarrow>
    lb_step (lb, C) (add_connection idx 1 lb, add_mset (Dialing idx) (C - {#Picked idx#}))"
| dial_fail: "Dialing idx \<in># C \<Longrightarrow> lb_dialed addr idx (None :: unit option) lb = (lb', r) \<Longrightarrow>
    lb_step (lb, C) (lb', C - {#Dialing idx#})"
| dial_ok: "Dialing idx \<in># C \<Longrightarrow> lb_dialed addr idx (Some ()) lb = (lb', r) \<Longrightarrow>
    lb_step (lb, C) (lb', add_mset (Held idx) (C - {#Dialing idx#}))"
| release: "Held idx \<in># C \<Longrightarrow> lb_step (lb, C) (Release (int idx) lb, C - {#Held idx#})"

inductive_cases lb_stepE: "lb_step w w'"

text \<open>A call that is not interrupted is \<open>lb_begin\<close>: the steps of a scan are those of \<open>least_from\<close>.\<close>

lemma scan_least_from:
  "lb_ok lb \<Longrightarrow> i \<le> length (lb_backends lb) \<Longrightarrow>
    lb_step\<^sup>*\<^sup>* (lb, add_mset (Scanning i idx m) C)
      (lb, add_mset (Picked (least_from (drop i (lb_connections lb)) i idx m)) C)"
proof (induction "length (lb_backends lb) - i" arbitrary: i idx m)
  case 0
  then have "drop i (lb_connections lb) = []" by (simp add: lb_ok_def)
  with 0 lb_step.scan_end [of i idx m "add_mset (Scanning i idx m) C" lb] show ?case by simp
next
  case (Suc n)
  then have i: "i < length (lb_backends lb)" by simp
  then have "drop i (lb_connections lb) = lb_connections lb ! i # drop (Suc i) (lb_connections lb)"
    using Suc.prems(1) by (simp add: lb_ok_def Cons_nth_drop_Suc)
  with Suc.hyps(1) [of "Suc i" "if sint (lb_connections lb ! i) < sint m then i else idx"
      "if sint (lb_connections lb ! i) < sint m then lb_connections lb ! i else m"] Suc.hyps(2) Suc.prems(1) i
    lb_step.scan_load [of i idx m "add_mset (Scanning i idx m) C" lb "lb_connections lb ! i"]
  show ?case by (auto split: if_splits intro: converse_rtranclp_into_rtranclp)
qed

lemma lb_begin_steps:
  assumes "lb_ok lb" "lb_begin intn lb = (lb', Inr (addr, idx))"
  shows "lb_step\<^sup>*\<^sup>* (lb, C) (lb', add_mset (Dialing idx) C)"
proof -
  obtain lb1 where n: "Next intn lb = (lb1, Inr (addr, idx))" "lb' = add_connection idx 1 lb1"
    using assms(2) by (auto simp: lb_begin_def split: prod.splits sum.splits)
  have "lb_step\<^sup>*\<^sup>* (lb, C) (lb1, add_mset (Picked idx) C)"
  proof (cases "lb_strategy lb = LeastConn")
    case False
    with lb_step.next_pick [OF this n(1)] show ?thesis by blast
  next
    case True
    then have ne: "lb_backends lb \<noteq> []" and i: "lb1 = lb" "idx = least_from (tl (lb_connections lb)) 1 0 (hd (lb_connections lb))"
      using n(1) by (auto simp: Next_def lb_pick_def split: if_splits)
    then have "1 \<le> length (lb_backends lb)" by (simp add: Suc_le_eq)
    from scan_least_from [OF assms(1) this, of 0 "hd (lb_connections lb)" C] lb_step.scan_start [OF True ne, of C]
    show ?thesis unfolding i by (simp add: drop_Suc converse_rtranclp_into_rtranclp)
  qed
  moreover have "lb_step (lb1, add_mset (Picked idx) C) (lb', add_mset (Dialing idx) C)"
    using lb_step.begin_dial [of idx "add_mset (Picked idx) C" lb1] n(2) by simp
  ultimately show ?thesis by (rule rtranclp.rtrancl_into_rtrancl)
qed

text \<open>The invariant: every call is about a backend, and a counter counts its calls and connections.\<close>

definition in_use :: "nat \<Rightarrow> lb_call multiset \<Rightarrow> nat" where
  "in_use i C = count C (Dialing i) + count C (Held i)"

definition lb_counts :: "lb_world \<Rightarrow> bool" where
  "lb_counts w = (case w of (lb, C) \<Rightarrow>
     lb_ok lb \<and> (\<forall>c \<in># C. call_index c < length (lb_backends lb)) \<and>
     (\<forall>i < length (lb_backends lb). lb_connections lb ! i = of_nat (in_use i C)))"

lemma lb_counts_add:
  assumes "lb_counts (lb, C)" "idx < length (lb_backends lb)" "in_use idx C' = in_use idx C + 1"
    "\<And>i. i \<noteq> idx \<Longrightarrow> in_use i C' = in_use i C" "\<forall>c \<in># C'. call_index c < length (lb_backends lb)"
  shows "lb_counts (add_connection idx 1 lb, C')"
  using assms by (auto simp: lb_counts_def add_connection_def lb_ok_def nth_list_update)

lemma lb_counts_sub:
  assumes "lb_counts (lb, C)" "idx < length (lb_backends lb)" "in_use idx C' + 1 = in_use idx C"
    "\<And>i. i \<noteq> idx \<Longrightarrow> in_use i C' = in_use i C" "\<forall>c \<in># C'. call_index c < length (lb_backends lb)"
  shows "lb_counts (add_connection idx (- 1) lb, C')"
proof -
  have "(of_nat (in_use idx C') :: 64 word) = of_nat (in_use idx C) - 1"
    using assms(3) by (metis add_diff_cancel_right' of_nat_1 of_nat_add)
  then show ?thesis using assms by (auto simp: lb_counts_def add_connection_def lb_ok_def nth_list_update)
qed

lemma lb_counts_same:
  assumes "lb_counts (lb, C)" "lb_backends lb' = lb_backends lb" "lb_connections lb' = lb_connections lb"
    "\<And>i. in_use i C' = in_use i C" "\<forall>c \<in># C'. call_index c < length (lb_backends lb)"
  shows "lb_counts (lb', C')"
  using assms by (simp add: lb_counts_def lb_ok_def)

lemma lb_counts_index: "lb_counts (lb, C) \<Longrightarrow> c \<in># C \<Longrightarrow> call_index c < length (lb_backends lb)"
  by (simp add: lb_counts_def)

text \<open>A step replaces a call by its next state.\<close>

lemma in_use_simps [simp]:
  "in_use i (add_mset (Scanning j k m) C) = in_use i C" "in_use i (add_mset (Picked j) C) = in_use i C"
  "in_use i (add_mset (Dialing j) C) = (if i = j then Suc (in_use i C) else in_use i C)"
  "in_use i (add_mset (Held j) C) = (if i = j then Suc (in_use i C) else in_use i C)"
  "in_use i {#} = 0"
  by (simp_all add: in_use_def)

lemma call_index_simps [simp]:
  "call_index (Scanning j k m) = k" "call_index (Picked k) = k" "call_index (Dialing k) = k" "call_index (Held k) = k"
  by (simp_all add: call_index_def)

lemma lb_step_counts: "lb_step w w' \<Longrightarrow> lb_counts w \<Longrightarrow> lb_counts w'"
proof (induction rule: lb_step.induct)
  case (next_pick lb intn lb' addr idx C)
  with Next_kept [OF next_pick.hyps(2)] Next_Inr [OF next_pick.hyps(2)] lb_counts_index [OF next_pick.prems]
  show ?case by (intro lb_counts_same [OF next_pick.prems]) auto
next
  case (next_fail intn lb lb' e C)
  with Next_kept [OF next_fail.hyps] lb_counts_index [OF next_fail.prems]
  show ?case by (intro lb_counts_same [OF next_fail.prems]) auto
next
  case (scan_start lb C)
  with lb_counts_index [OF scan_start.prems] show ?case by (intro lb_counts_same [OF scan_start.prems]) auto
next
  case (scan_load i idx m C lb c)
  then obtain D where "C = add_mset (Scanning i idx m) D" by (metis insert_DiffM)
  with scan_load lb_counts_index [OF scan_load.prems] lb_counts_index [OF scan_load.prems scan_load.hyps(1)] show ?case by (intro lb_counts_same [OF scan_load.prems]) auto
next
  case (scan_end i idx m C lb)
  then obtain D where "C = add_mset (Scanning i idx m) D" by (metis insert_DiffM)
  with scan_end lb_counts_index [OF scan_end.prems] lb_counts_index [OF scan_end.prems scan_end.hyps(1)] show ?case by (intro lb_counts_same [OF scan_end.prems]) auto
next
  case (begin_dial idx C lb)
  then obtain D where "C = add_mset (Picked idx) D" by (metis insert_DiffM)
  with lb_counts_index [OF begin_dial.prems] lb_counts_index [OF begin_dial.prems begin_dial.hyps] show ?case by (intro lb_counts_add [OF begin_dial.prems]) auto
next
  case (dial_fail idx C addr lb lb' r)
  then obtain D where "C = add_mset (Dialing idx) D" by (metis insert_DiffM)
  moreover have "lb' = add_connection idx (- 1) lb" using dial_fail.hyps(2) by (simp add: lb_dialed_def)
  ultimately show ?case using lb_counts_index [OF dial_fail.prems] lb_counts_index [OF dial_fail.prems dial_fail.hyps(1)]
    by (simp only:) (rule lb_counts_sub [OF dial_fail.prems]; auto)
next
  case (dial_ok idx C addr lb lb' r)
  then obtain D where "C = add_mset (Dialing idx) D" by (metis insert_DiffM)
  moreover have "lb' = lb" using dial_ok.hyps(2) by (simp add: lb_dialed_def)
  ultimately show ?case
    using lb_counts_index [OF dial_ok.prems] lb_counts_index [OF dial_ok.prems dial_ok.hyps(1)] by (intro lb_counts_same [OF dial_ok.prems]) auto
next
  case (release idx C lb)
  then obtain D where "C = add_mset (Held idx) D" by (metis insert_DiffM)
  moreover have "idx < length (lb_backends lb)" using lb_counts_index [OF release.prems release.hyps] by simp
  moreover from this have "Release (int idx) lb = add_connection idx (- 1) lb"
    using release.prems by (simp add: Release_def lb_counts_def lb_ok_def)
  ultimately show ?case using lb_counts_index [OF release.prems]
    by (simp only:) (rule lb_counts_sub [OF release.prems]; auto)
qed

lemma lb_reachable_counts: "lb_step\<^sup>*\<^sup>* w w' \<Longrightarrow> lb_counts w \<Longrightarrow> lb_counts w'"
  by (induction rule: rtranclp_induct) (auto intro: lb_step_counts)

lemma lb_step_backends: "lb_step w w' \<Longrightarrow> lb_backends (fst w') = lb_backends (fst w)"
  by (erule lb_stepE) (auto simp: lb_dialed_def Release_def add_connection_def dest: Next_kept)

lemma lb_reachable_backends: "lb_step\<^sup>*\<^sup>* w w' \<Longrightarrow> lb_backends (fst w') = lb_backends (fst w)"
  by (induction rule: rtranclp_induct) (auto dest: lb_step_backends)

subsection \<open>Properties\<close>

text \<open>
  C30. Round robin is fair: on a new balancer with \<open>n\<close> backends, call number \<open>k\<close> of \<open>Next\<close> (from 0, below
  \<open>2 ^ 63\<close>, with a 64-bit \<open>int\<close>) returns backend \<open>k mod n\<close>, whatever the number of backends.
\<close>

theorem round_robin_fair:
  assumes "bs \<noteq> []" "k < 2 ^ 63"
  shows "snd (Next intn (lb_after intn k (lb_new bs RoundRobin))) = Inr (bs ! (k mod length bs), k mod length bs)"
  using assms Next_round_robin [of "(lb_new bs RoundRobin)\<lparr>lb_index := of_nat k\<rparr>" k intn]
    lb_after_round_robin [OF assms(1), of k intn]
  by (simp add: lb_new_def)

lemma round_robin_fair_witness:
  "snd (Next (\<lambda>_. 0) (lb_after (\<lambda>_. 0) 5 (lb_new [''a'', ''b'', ''c''] RoundRobin))) = Inr (''c'', 2)"
  using round_robin_fair [of "[''a'', ''b'', ''c'']" 5 "\<lambda>_. 0"] by simp

text \<open>
  C39. With a 64-bit \<open>int\<close>, past \<open>2 ^ 63\<close> calls the conversion of the counter to \<open>int\<close> is negative and so
  is the truncated remainder: \<open>Next\<close> then panics on its index, except when the number of backends divides
  the counter.
\<close>

theorem round_robin_panics:
  assumes "lb_strategy lb = RoundRobin" "lb_backends lb \<noteq> []" "sint (lb_index lb) < 0"
  shows "(\<exists>i. snd (Next intn lb) = Inl (IndexPanic i)) \<longleftrightarrow> \<not> int (length (lb_backends lb)) dvd sint (lb_index lb)"
proof -
  let ?n = "int (length (lb_backends lb))" and ?k = "sint (lb_index lb)"
  have p: "snd (lb_pick intn lb) = ?k smod ?n" using assms(1) by (simp add: lb_pick_def)
  define m where "m = - ?k mod ?n"
  have m: "?k smod ?n = - m" using assms(3) by (simp add: signed_modulo_int_def sgn_if m_def)
  have "0 \<le> m" "m < ?n" using assms(2) by (simp_all add: m_def)
  moreover have "m = 0 \<longleftrightarrow> ?n dvd ?k" unfolding m_def by (metis dvd_eq_mod_eq_0 dvd_minus_iff)
  ultimately show ?thesis using p m assms(2) by (auto simp: Next_def split: prod.splits)
qed

lemma round_robin_panics_witness:
  "\<exists>i. snd (Next (\<lambda>_. 0) ((lb_new [''a'', ''b'', ''c''] RoundRobin)\<lparr>lb_index := 0x8000000000000000\<rparr>)) = Inl (IndexPanic i)"
proof -
  let ?lb = "(lb_new [''a'', ''b'', ''c''] RoundRobin)\<lparr>lb_index := 0x8000000000000000\<rparr>"
  have "lb_strategy ?lb = RoundRobin" "lb_backends ?lb \<noteq> []" by (simp_all add: lb_new_def)
  moreover have "sint (lb_index ?lb) < 0" "\<not> int (length (lb_backends ?lb)) dvd sint (lb_index ?lb)"
    by (simp_all add: lb_new_def)
  ultimately show ?thesis using round_robin_panics [of ?lb "\<lambda>_. 0"] by blast
qed

text \<open>
  Least connections picks right: \<open>Next\<close> returns the first backend whose (signed) counter is
  smallest, and changes nothing.
\<close>

theorem least_conn_minimal:
  assumes "lb_strategy lb = LeastConn" "lb_backends lb \<noteq> []" "lb_ok lb"
  shows "\<exists>k. Next intn lb = (lb, Inr (lb_backends lb ! k, k)) \<and> first_least (lb_connections lb) k"
proof -
  have "lb_connections lb \<noteq> []" using assms(2,3) by (auto simp: lb_ok_def)
  note f = least_first [OF this]
  then have "least_from (tl (lb_connections lb)) 1 0 (hd (lb_connections lb)) < length (lb_backends lb)"
    using assms(3) by (simp add: first_least_def lb_ok_def)
  with f assms show ?thesis by (auto simp: Next_def lb_pick_def)
qed

lemma least_conn_minimal_witness:
  "Next (\<lambda>_. 0) ((lb_new [''a'', ''b'', ''c''] LeastConn)\<lparr>lb_connections := [2, 1, 1]\<rparr>) =
     ((lb_new [''a'', ''b'', ''c''] LeastConn)\<lparr>lb_connections := [2, 1, 1]\<rparr>, Inr (''b'', 1))"
proof -
  let ?lb = "(lb_new [''a'', ''b'', ''c''] LeastConn)\<lparr>lb_connections := [2, 1, 1]\<rparr>"
  obtain k where k: "Next (\<lambda>_. 0) ?lb = (?lb, Inr (lb_backends ?lb ! k, k))" "first_least (lb_connections ?lb) k"
    using least_conn_minimal [of ?lb "\<lambda>_. 0"] by (auto simp: lb_new_def lb_ok_def)
  then have "k < 3" "\<forall>j < k. sint ([2, 1, 1 :: 64 word] ! k) < sint ([2, 1, 1 :: 64 word] ! j)"
    "\<forall>j < 3. sint ([2, 1, 1 :: 64 word] ! k) \<le> sint ([2, 1, 1 :: 64 word] ! j)"
    by (simp_all add: first_least_def)
  then have "k = 1" by (auto simp: numeral_3_eq_3 less_Suc_eq)
  with k(1) show ?thesis by (simp add: lb_new_def)
qed

text \<open>
  C8. The counters are exact under every interleaving of concurrent \<open>Connect\<close> and \<open>Release\<close> calls at their
  atomic accesses: for each backend the counter is the number of dials in progress plus the connections
  handed out and not yet released (modulo \<open>2 ^ 64\<close>, its width), a failed dial included.
\<close>

theorem connection_counters_exact:
  assumes "lb_step\<^sup>*\<^sup>* (lb_new bs st, {#}) (lb, C)" "i < length bs"
  shows "lb_backends lb = bs \<and> lb_connections lb ! i = of_nat (count C (Dialing i) + count C (Held i))"
proof -
  have "lb_counts (lb_new bs st, {#})" by (simp add: lb_counts_def lb_new_def lb_ok_def)
  from lb_reachable_counts [OF assms(1) this] have "lb_counts (lb, C)" .
  moreover have "lb_backends lb = bs"
    using lb_reachable_backends [OF assms(1)] by (simp add: lb_new_def)
  ultimately show ?thesis using assms(2) by (simp add: lb_counts_def in_use_def)
qed

lemma connection_counters_exact_witness:
  "lb_connections (fst (lb_begin (\<lambda>_. 0) (lb_new [''a''] LeastConn))) ! 0 = 1"
proof -
  let ?lb = "fst (lb_begin (\<lambda>_. 0) (lb_new [''a''] LeastConn))"
  have "lb_begin (\<lambda>_. 0) (lb_new [''a''] LeastConn) = (?lb, Inr (''a'', 0))"
    by (simp add: lb_begin_def Next_def lb_pick_def lb_new_def)
  from lb_begin_steps [OF lb_ok_new this, of "{#}"] have
    "lb_step\<^sup>*\<^sup>* (lb_new [''a''] LeastConn, {#}) (?lb, {#Dialing 0#})" .
  from connection_counters_exact [OF this, of 0] show ?thesis by simp
qed

end
