(* ===== verification/Udp.thy ===== *)
theory Udp
  imports GoNet
begin

text \<open>
  \<open>go-core/udp/udp.go\<close>: datagrams carried over a reliable stream. The server keeps a table of the
  addresses it has heard from, keyed by their text; \<open>str\<close> is \<open>(*net.UDPAddr).String\<close>, of which only that
  it is never empty matters. Times are in nanoseconds. Three loops share the server's state: the
  cleanup of old sessions, the socket's reader and the stream's reader; one pass of each is a definition
  of its own, \<open>udp_step\<close> lets them interleave.
\<close>

definition sessionTimeout :: int where
  "sessionTimeout = 60 * 1000000000"

definition maxUDPPacket :: nat where
  "maxUDPPacket = 65535"

record 'a udp_server =
  us_sessions :: "string \<rightharpoonup> 'a \<times> int"
  us_stream :: conn
  us_socket :: "('a \<times> bytes) list"

definition udp_start :: "(string \<Rightarrow> io_err + 'a) \<Rightarrow> ('a \<Rightarrow> io_err option) \<Rightarrow> string \<Rightarrow> conn \<Rightarrow> io_err + 'a udp_server" where
  "udp_start resolve listen bindAddr stream = (case resolve bindAddr of
      Inl e \<Rightarrow> Inl e
    | Inr a \<Rightarrow> (case listen a of
        Some e \<Rightarrow> Inl e
      | None \<Rightarrow> Inr \<lparr>us_sessions = (\<lambda>_. None), us_stream = stream, us_socket = []\<rparr>))"

definition udp_cleanup :: "int \<Rightarrow> 'a udp_server \<Rightarrow> 'a udp_server" where
  "udp_cleanup now s = s\<lparr>us_sessions := (\<lambda>k. case us_sessions s k of
      None \<Rightarrow> None
    | Some (a, seen) \<Rightarrow> if sessionTimeout < now - seen then None else Some (a, seen))\<rparr>"

text \<open>The frame on the stream: address text and payload, each after its length in two bytes.\<close>

definition udp_frame :: "bytes \<Rightarrow> bytes \<Rightarrow> bytes" where
  "udp_frame key payload = put_be 2 (length key) @ key @ put_be 2 (length payload) @ payload"

text \<open>
  One datagram from the socket: the session is renewed before the frame is written; an error of the
  stream ends the loop. \<open>ReadFromUDP\<close> cuts a datagram to the size of the buffer.
\<close>

definition udp_receive :: "('a \<Rightarrow> string) \<Rightarrow> bytes \<Rightarrow> 'a \<Rightarrow> int \<Rightarrow> 'a udp_server \<Rightarrow> 'a udp_server \<times> io_err option" where
  "udp_receive str datagram addr now s =
    (let buf = take maxUDPPacket datagram; key = str addr;
         (stream, _, e) = conn_write (udp_frame (string_bytes key) buf) (us_stream s)
     in (s\<lparr>us_sessions := (us_sessions s)(key \<mapsto> (addr, now)), us_stream := stream\<rparr>, e))"

definition udp_read_frame :: "'c reader \<Rightarrow> ('c, io_err, bytes \<times> bytes) io" where
  "udp_read_frame rd =
    io_bind (read_full rd 2) (\<lambda>h1.
    io_bind (read_full rd (get_be h1)) (\<lambda>addrKeyBuf.
    io_bind (read_full rd 2) (\<lambda>h2.
    io_bind (read_full rd (get_be h2)) (\<lambda>payload.
    io_return (addrKeyBuf, payload)))))"

text \<open>One frame from the stream: its payload goes to the session's address, if the key has a session.\<close>

definition udp_reply :: "'a udp_server \<Rightarrow> ('a udp_server \<times> (io_err + unit)) option" where
  "udp_reply s = (case udp_read_frame conn_read (us_stream s) of
      None \<Rightarrow> None
    | Some (stream, Inl e) \<Rightarrow> Some (s\<lparr>us_stream := stream\<rparr>, Inl e)
    | Some (stream, Inr (addrKeyBuf, payload)) \<Rightarrow>
        (case us_sessions s (bytes_string addrKeyBuf) of
           None \<Rightarrow> Some (s\<lparr>us_stream := stream\<rparr>, Inr ())
         | Some (a, _) \<Rightarrow>
             Some (s\<lparr>us_stream := stream, us_socket := us_socket s @ [(a, payload)]\<rparr>, Inr ())))"

subsection \<open>The client\<close>

definition udp_client_read :: "'c reader \<Rightarrow> ('c, io_err, bytes) io" where
  "udp_client_read rd =
    io_bind (read_full rd 2) (\<lambda>h1.
    io_bind (if 0 < get_be h1 then read_full rd (get_be h1) else io_return []) (\<lambda>_.
    io_bind (read_full rd 2) (\<lambda>h2.
    read_full rd (get_be h2))))"

text \<open>The loop from the stream to the local socket, with the datagrams written so far.\<close>

partial_function (option) udp_client_forward ::
  "'c reader \<Rightarrow> bytes list \<Rightarrow> 'c \<Rightarrow> ('c \<times> bytes list) option" where
  "udp_client_forward rd out c = (case udp_client_read rd c of
      None \<Rightarrow> None
    | Some (c', r) \<Rightarrow> (case r of
        Inl e \<Rightarrow> Some (c', out)
      | Inr payload \<Rightarrow> udp_client_forward rd (out @ [payload]) c'))"

text \<open>One datagram from the local socket; the frame carries no address.\<close>

definition udp_client_send :: "bytes \<Rightarrow> conn \<Rightarrow> conn \<times> io_err option" where
  "udp_client_send datagram stream =
    (case conn_write (udp_frame [] (take maxUDPPacket datagram)) stream of (stream', _, e) \<Rightarrow> (stream', e))"

subsection \<open>The frames in a sequence of bytes\<close>

text \<open>A complete frame at the front, with what follows it.\<close>

definition udp_parse :: "bytes \<Rightarrow> ((bytes \<times> bytes) \<times> bytes) option" where
  "udp_parse b =
    (let k = get_be (take 2 b); b1 = drop 2 b; n = get_be (take 2 (drop k b1)); b2 = drop 2 (drop k b1) in
     if length b < 2 \<or> length b1 < k + 2 \<or> length b2 < n then None
     else Some ((take k b1, take n b2), drop n b2))"

function udp_frames :: "bytes \<Rightarrow> (bytes \<times> bytes) list" where
  "udp_frames b = (case udp_parse b of None \<Rightarrow> [] | Some (f, r) \<Rightarrow> f # udp_frames r)"
  by pat_completeness auto
termination
  by (relation "measure length") (auto simp: udp_parse_def Let_def split: if_splits)

declare udp_frames.simps [simp del]

lemma udp_parse_frame:
  assumes "length key < 65536" "length p < 65536"
  shows "udp_parse (udp_frame key p @ r) = Some ((key, p), r)"
  using assms by (simp add: udp_parse_def udp_frame_def Let_def)

lemma udp_frames_list:
  "\<forall>(k, p) \<in> set fs. length k < 65536 \<and> length p < 65536 \<Longrightarrow>
    udp_frames (concat (map (\<lambda>(k, p). udp_frame k p) fs) @ r) = fs @ udp_frames r"
proof (induction fs)
  case Nil
  then show ?case by simp
next
  case (Cons f fs)
  then show ?case by (cases f) (simp add: udp_frames.simps [of "udp_frame _ _ @ _"] udp_parse_frame)
qed

lemma udp_frames_Nil [simp]: "udp_frames [] = []"
  by (simp add: udp_frames.simps [of "[]"] udp_parse_def)

context stream_reader
begin

text \<open>Reading a frame takes it off the pending bytes; without a complete frame it is an error.\<close>

lemma udp_read_frame_some:
  assumes "udp_parse (pending c) = Some ((k, p), r)"
  shows "\<exists>c'. udp_read_frame rd c = Some (c', Inr (k, p)) \<and> pending c' = r \<and> fin c' = fin c \<and> kept c' = kept c"
proof -
  let ?b = "pending c"
  let ?k = "get_be (take 2 ?b)" and ?n = "get_be (take 2 (drop (get_be (take 2 ?b)) (drop 2 ?b)))"
  have l: "2 \<le> length ?b" "?k + 2 \<le> length (drop 2 ?b)" "?n \<le> length (drop 2 (drop ?k (drop 2 ?b)))"
    and kp: "k = take ?k (drop 2 ?b)" "p = take ?n (drop 2 (drop ?k (drop 2 ?b)))"
      "r = drop ?n (drop 2 (drop ?k (drop 2 ?b)))"
    using assms by (auto simp: udp_parse_def Let_def split: if_splits)
  obtain c1 where 1: "read_full rd 2 c = Some (c1, Inr (take 2 ?b))" "pending c1 = drop 2 ?b" "fin c1 = fin c" "kept c1 = kept c"
    using read_full_ok [OF l(1)] by blast
  obtain c2 where 2: "read_full rd ?k c1 = Some (c2, Inr k)" "pending c2 = drop ?k (drop 2 ?b)" "fin c2 = fin c" "kept c2 = kept c"
    using read_full_ok [of ?k c1] l(2) 1 kp(1) by (metis add_leD1)
  have "2 \<le> length (pending c2)" using l(2) 2(2) by simp
  then obtain c3 where 3: "read_full rd 2 c2 = Some (c3, Inr (take 2 (drop ?k (drop 2 ?b))))"
    "pending c3 = drop 2 (drop ?k (drop 2 ?b))" "fin c3 = fin c" "kept c3 = kept c"
    using read_full_ok [of 2 c2] 2 by metis
  obtain c4 where 4: "read_full rd ?n c3 = Some (c4, Inr p)" "pending c4 = r" "fin c4 = fin c" "kept c4 = kept c"
    using read_full_ok [of ?n c3] l(3) 3 kp(2,3) by metis
  show ?thesis using 1(1) 2(1) 3(1) 4 by (simp add: udp_read_frame_def)
qed

lemma udp_read_frame_Inr:
  assumes "udp_read_frame rd c = Some (c', Inr f)"
  shows "\<exists>r. udp_parse (pending c) = Some (f, r)"
proof -
  obtain c1 h1 c2 k c3 h2 p where s: "read_full rd 2 c = Some (c1, Inr h1)" "read_full rd (get_be h1) c1 = Some (c2, Inr k)"
    "read_full rd 2 c2 = Some (c3, Inr h2)" "read_full rd (get_be h2) c3 = Some (c', Inr p)" "f = (k, p)"
    using assms by (auto simp: udp_read_frame_def io_bind_return_Inr)
  from s(1-4) [THEN read_full_Inr] s(5) show ?thesis
    by (auto simp: udp_parse_def Let_def)
qed

lemma udp_read_frame_total:
  assumes "fin c = Some e"
  shows "\<exists>r. udp_read_frame rd c = Some r"
proof -
  have step: "\<exists>r. io_bind (read_full rd n) f d = Some r"
    if d: "fin d = Some e" and f: "\<And>b d'. fin d' = Some e \<Longrightarrow> \<exists>r. f b d' = Some r" for n f d
  proof (rule io_bind_total)
    show "\<exists>r. read_full rd n d = Some r" by (rule read_full_total [OF d])
  next
    fix d' b
    assume "read_full rd n d = Some (d', Inr b)"
    from read_full_Inr [OF this] d have "fin d' = Some e" by simp
    then show "\<exists>r. f b d' = Some r" by (rule f)
  qed
  show ?thesis unfolding udp_read_frame_def using assms by (intro step) simp_all
qed

lemma udp_read_frame_none:
  assumes "udp_parse (pending c) = None" "fin c = Some e"
  shows "\<exists>c' x. udp_read_frame rd c = Some (c', Inl x)"
proof -
  obtain c' y where "udp_read_frame rd c = Some (c', y)" using udp_read_frame_total [OF assms(2)] by auto
  with udp_read_frame_Inr [of c c'] assms(1) show ?thesis by (cases y) auto
qed

lemma udp_client_read_frame:
  "udp_client_read rd c = io_bind (udp_read_frame rd) (\<lambda>(k, p). io_return p) c"
proof -
  have "(if 0 < n then read_full rd n else io_return []) = read_full rd n" for n
    by (rule ext) (simp add: read_full_def read_loop.simps)
  then show ?thesis
    by (auto simp: udp_client_read_def udp_read_frame_def io_bind_def io_return_def
        split: option.split sum.split prod.split)
qed

text \<open>The loop hands over the payloads of all complete frames, in order, and ends with the stream.\<close>

lemma udp_client_forward_frames:
  "fin c = Some e \<Longrightarrow> \<exists>c'. udp_client_forward rd out c = Some (c', out @ map snd (udp_frames (pending c)))"
proof (induction "length (pending c)" arbitrary: c out rule: less_induct)
  case less
  show ?case
  proof (cases "udp_parse (pending c)")
    case None
    with udp_read_frame_none less.prems obtain c' x where "udp_read_frame rd c = Some (c', Inl x)" by blast
    then have "udp_client_read rd c = Some (c', Inl x)" by (simp add: udp_client_read_frame)
    with None show ?thesis by (subst udp_client_forward.simps) (simp add: udp_frames.simps [of "pending c"])
  next
    case (Some fr)
    obtain k p r where fr: "fr = ((k, p), r)" by (metis surj_pair)
    obtain c1 where 1: "udp_read_frame rd c = Some (c1, Inr (k, p))" "pending c1 = r" "fin c1 = fin c"
      using udp_read_frame_some Some fr by blast
    then have rd: "udp_client_read rd c = Some (c1, Inr p)" by (simp add: udp_client_read_frame)
    have "length r < length (pending c)"
      using Some fr by (auto simp: udp_parse_def Let_def split: if_splits)
    with less.hyps [of c1 "out @ [p]"] 1 less.prems obtain c' where
      "udp_client_forward rd (out @ [p]) c1 = Some (c', (out @ [p]) @ map snd (udp_frames r))" by auto
    with rd Some fr show ?thesis
      by (subst udp_client_forward.simps) (simp add: udp_frames.simps [of "pending c"])
  qed
qed

end

subsection \<open>The server's loops together\<close>

text \<open>An error of the stream's reader ends \<open>ServerUDP\<close> and with it the run.\<close>

inductive udp_step :: "('a \<Rightarrow> string) \<Rightarrow> 'a udp_server \<Rightarrow> 'a udp_server \<Rightarrow> bool" for str where
  cleanup: "udp_step str s (udp_cleanup now s)"
| receive: "udp_receive str datagram addr now s = (s', e) \<Longrightarrow> udp_step str s s'"
| reply: "udp_reply s = Some (s', Inr ()) \<Longrightarrow> udp_step str s s'"

text \<open>Every session is stored under the text of its address.\<close>

definition sessions_keyed :: "('a \<Rightarrow> string) \<Rightarrow> 'a udp_server \<Rightarrow> bool" where
  "sessions_keyed str s \<longleftrightarrow> (\<forall>k a seen. us_sessions s k = Some (a, seen) \<longrightarrow> k = str a)"

lemma udp_step_keyed: "udp_step str s s' \<Longrightarrow> sessions_keyed str s \<Longrightarrow> sessions_keyed str s'"
proof (induction rule: udp_step.induct)
  case (cleanup s now)
  then show ?case by (auto simp: sessions_keyed_def udp_cleanup_def split: option.splits prod.splits if_splits)
next
  case (receive datagram addr now s s' e)
  then show ?case by (auto simp: sessions_keyed_def udp_receive_def Let_def split: prod.splits if_splits)
next
  case (reply s s')
  then show ?case
    by (auto simp: sessions_keyed_def udp_reply_def split: option.splits prod.splits sum.splits)
qed

text \<open>One reply, in terms of the frames that are pending.\<close>

lemma udp_reply_frame:
  assumes "udp_parse (conn_pending (us_stream s)) = Some ((k, p), r)"
  shows "\<exists>c'. udp_reply s = Some (s\<lparr>us_stream := c',
      us_socket := us_socket s @ (case us_sessions s (bytes_string k) of None \<Rightarrow> [] | Some (a, _) \<Rightarrow> [(a, p)])\<rparr>, Inr ()) \<and>
    conn_pending c' = r"
proof -
  obtain c' where "udp_read_frame conn_read (us_stream s) = Some (c', Inr (k, p))" "conn_pending c' = r"
    using tcp.udp_read_frame_some [OF assms] by blast
  then show ?thesis by (auto simp: udp_reply_def split: option.split)
qed

lemma udp_reply_drops:
  assumes "\<forall>f \<in> set (udp_frames (conn_pending (us_stream s))). fst f = []" "us_sessions s [] = None"
    "udp_reply s = Some (s', r)"
  shows "us_socket s' = us_socket s \<and> us_sessions s' = us_sessions s \<and>
    (r = Inr () \<longrightarrow> (\<forall>f \<in> set (udp_frames (conn_pending (us_stream s'))). fst f = []))"
proof (cases r)
  case (Inl e)
  with assms(3) show ?thesis by (auto simp: udp_reply_def split: option.splits prod.splits sum.splits)
next
  case (Inr u)
  then obtain c' k p where f: "udp_read_frame conn_read (us_stream s) = Some (c', Inr (k, p))"
    using assms(3) by (auto simp: udp_reply_def split: option.splits prod.splits sum.splits)
  then obtain rest where pr: "udp_parse (conn_pending (us_stream s)) = Some ((k, p), rest)"
    using tcp.udp_read_frame_Inr by blast
  then have fr: "udp_frames (conn_pending (us_stream s)) = (k, p) # udp_frames rest"
    by (simp add: udp_frames.simps [of "conn_pending (us_stream s)"])
  then have "k = []" using assms(1) by simp
  with udp_reply_frame [OF pr] assms(1,2,3) fr show ?thesis by auto
qed

definition udp_unanswered :: "('a \<Rightarrow> string) \<Rightarrow> 'a udp_server \<Rightarrow> bool" where
  "udp_unanswered str s \<longleftrightarrow> sessions_keyed str s \<and> us_socket s = [] \<and>
     (\<forall>f \<in> set (udp_frames (conn_pending (us_stream s))). fst f = [])"

lemma conn_write_pending: "conn_write b c = (c', n, e) \<Longrightarrow> conn_pending c' = conn_pending c"
  by (auto simp: conn_write_def conn_pending_def split: if_splits option.splits)

lemma udp_step_unanswered:
  assumes "\<forall>a. str a \<noteq> []" "udp_step str s s'" "udp_unanswered str s"
  shows "udp_unanswered str s'"
proof -
  note k = udp_step_keyed [OF assms(2)]
  from assms(2) k assms(3) show ?thesis
  proof (induction rule: udp_step.induct)
    case (cleanup s now)
    then show ?case by (simp add: udp_unanswered_def udp_cleanup_def)
  next
    case (receive datagram addr now s s' e)
    then show ?case
      by (auto simp: udp_unanswered_def udp_receive_def Let_def conn_write_pending split: prod.splits)
  next
    case (reply s s')
    have "us_sessions s [] = None"
      using assms(1) reply.prems(2) unfolding udp_unanswered_def sessions_keyed_def by (metis not_None_eq surj_pair)
    with udp_reply_drops [OF _ this reply.hyps] reply.prems show ?case by (simp add: udp_unanswered_def)
  qed
qed

definition udp_client_list :: "bytes list \<Rightarrow> conn \<Rightarrow> conn" where
  "udp_client_list ds c = fold (\<lambda>d w. fst (udp_client_send d w)) ds c"

lemma udp_client_list_tx:
  "conn_can_send c \<Longrightarrow>
    tx (udp_client_list ds c) = tx c @ concat (map (\<lambda>(k, p). udp_frame k p) (map (\<lambda>d. ([], take maxUDPPacket d)) ds))"
  by (induction ds arbitrary: c) (simp_all add: udp_client_list_def udp_client_send_def)

definition udp_receive_list :: "('a \<Rightarrow> string) \<Rightarrow> (bytes \<times> 'a \<times> int) list \<Rightarrow> 'a udp_server \<Rightarrow> 'a udp_server" where
  "udp_receive_list str ds s = fold (\<lambda>(d, a, t) w. fst (udp_receive str d a t w)) ds s"

lemma udp_receive_can_send:
  "conn_can_send (us_stream s) \<Longrightarrow> udp_receive str d a t s =
    (s\<lparr>us_sessions := (us_sessions s)(str a \<mapsto> (a, t)), us_stream := (us_stream s)\<lparr>tx := tx (us_stream s) @
      udp_frame (string_bytes (str a)) (take maxUDPPacket d)\<rparr>\<rparr>, None)"
  by (simp add: udp_receive_def Let_def)

lemma udp_receive_list_tx:
  "conn_can_send (us_stream s) \<Longrightarrow> tx (us_stream (udp_receive_list str ds s)) = tx (us_stream s) @
    concat (map (\<lambda>(k, p). udp_frame k p) (map (\<lambda>(d, a, t). (string_bytes (str a), take maxUDPPacket d)) ds))"
proof (induction ds arbitrary: s)
  case Nil
  then show ?case by (simp add: udp_receive_list_def)
next
  case (Cons x ds)
  obtain d a t where x: "x = (d, a, t)" by (cases x)
  let ?s = "fst (udp_receive str d a t s)"
  have c: "conn_can_send (us_stream ?s)" using Cons.prems by (simp add: udp_receive_can_send)
  have "udp_receive_list str (x # ds) s = udp_receive_list str ds ?s" by (simp add: udp_receive_list_def x)
  then show ?case using Cons.IH [OF c] Cons.prems by (simp add: x udp_receive_can_send)
qed

subsection \<open>Properties\<close>

text \<open>
  C16. Datagrams reach the local service complete and in order: the client's loop at the other end of the
  stream writes exactly the datagrams the server received, whoever sent them and in whatever segments
  the stream delivers the frames (a datagram has at most 65535 bytes, an address text fewer than 65536).
\<close>

theorem udp_datagrams_forwarded:
  assumes "conn_can_send (us_stream s)" "\<forall>a. length (str a) < 65536" "conn_fin c = Some e"
    and "conn_pending c = drop (length (tx (us_stream s))) (tx (us_stream (udp_receive_list str ds s)))"
  shows "\<exists>c'. udp_client_forward conn_read [] c = Some (c', map (\<lambda>(d, a, t). take 65535 d) ds)"
proof -
  let ?fs = "map (\<lambda>(d, a, t). (string_bytes (str a), take maxUDPPacket d)) ds"
  have "\<forall>(k, p) \<in> set ?fs. length k < 65536 \<and> length p < 65536"
    using assms(2) by (auto simp: maxUDPPacket_def)
  from udp_frames_list [OF this, of "[]"] have "udp_frames (conn_pending c) = ?fs"
    using assms(4) udp_receive_list_tx [OF assms(1), of str ds] by simp
  with tcp.udp_client_forward_frames [OF assms(3), of "[]"] show ?thesis
    by (simp add: comp_def case_prod_unfold maxUDPPacket_def)
qed

definition udp_idle :: "bytes list \<Rightarrow> conn" where
  "udp_idle segs = \<lparr>rx = segs, rx_end = Some EOF, tx = [], tx_room = None, opened = True\<rparr>"

lemma udp_idle_can_send [simp]: "conn_can_send (udp_idle segs)" "conn_fin (udp_idle segs) = Some EOF"
  "conn_pending (udp_idle segs) = concat segs" "tx (udp_idle segs) = []"
  by (simp_all add: udp_idle_def conn_can_send_def conn_fin_def conn_pending_def)

definition bit_text :: "bool \<Rightarrow> string" where
  "bit_text b = (if b then ''1.1.1.1:53'' else ''9.9.9.9:53'')"

lemma bit_text_facts: "\<forall>a. bit_text a \<noteq> []" "\<forall>a. length (bit_text a) < 65536"
  by (simp_all add: bit_text_def)

definition udp_sample :: "bool udp_server" where
  "udp_sample = \<lparr>us_sessions = (\<lambda>_. None), us_stream = udp_idle [], us_socket = []\<rparr>"

definition udp_sample_bytes :: bytes where
  "udp_sample_bytes = udp_frame (string_bytes ''1.1.1.1:53'') [1, 2] @ udp_frame (string_bytes ''9.9.9.9:53'') []"

lemma udp_datagrams_forwarded_witness:
  "\<exists>c'. udp_client_forward conn_read [] (udp_idle [take 3 udp_sample_bytes, drop 3 udp_sample_bytes]) =
    Some (c', [[1, 2], []])"
proof -
  let ?ds = "[([1, 2], True, 0), ([], False, 5 :: int)]"
  let ?c = "udp_idle [take 3 udp_sample_bytes, drop 3 udp_sample_bytes]"
  have s: "conn_can_send (us_stream udp_sample)" "tx (us_stream udp_sample) = []" by (simp_all add: udp_sample_def)
  have "tx (us_stream (udp_receive_list bit_text ?ds udp_sample)) = udp_sample_bytes"
    using udp_receive_list_tx [OF s(1), of bit_text ?ds]
    by (simp add: s(2) bit_text_def maxUDPPacket_def udp_sample_bytes_def)
  then have "conn_pending ?c = drop (length (tx (us_stream udp_sample))) (tx (us_stream (udp_receive_list bit_text ?ds udp_sample)))"
    by (simp add: s(2))
  from udp_datagrams_forwarded [OF s(1) bit_text_facts(2) _ this] show ?thesis by simp
qed

text \<open>
  C28. No reply ever reaches a user of the UDP service: as \<open>ClientUDP\<close> puts an empty address in its
  frames and no session has the empty text as its key, a server whose stream carries what the client
  sends never writes a datagram to its socket, in any interleaving of its loops.
\<close>

theorem udp_replies_dropped:
  assumes "\<forall>a. str a \<noteq> []" "udp_start resolve listen bindAddr stream = Inr s0" "conn_can_send c"
    and "conn_pending stream = drop (length (tx c)) (tx (udp_client_list ds c))"
    and "(udp_step str)\<^sup>*\<^sup>* s0 s"
  shows "us_socket s = []"
proof -
  let ?fs = "map (\<lambda>d. ([], take maxUDPPacket d)) ds :: (bytes \<times> bytes) list"
  have s0: "s0 = \<lparr>us_sessions = (\<lambda>_. None), us_stream = stream, us_socket = []\<rparr>"
    using assms(2) by (auto simp: udp_start_def split: sum.splits option.splits)
  have "\<forall>(k, p) \<in> set ?fs. length k < 65536 \<and> length p < 65536" by (auto simp: maxUDPPacket_def)
  from udp_frames_list [OF this, of "[]"] have "udp_frames (conn_pending stream) = ?fs"
    using assms(4) udp_client_list_tx [OF assms(3), of ds] by simp
  then have "udp_unanswered str s0" by (auto simp: s0 udp_unanswered_def sessions_keyed_def)
  with assms(5) have "udp_unanswered str s"
    by (induction rule: rtranclp_induct) (auto intro: udp_step_unanswered [OF assms(1)])
  then show ?thesis by (simp add: udp_unanswered_def)
qed

lemma udp_replies_dropped_witness:
  "\<exists>s'. udp_reply (fst (udp_receive bit_text [7] True 0
        (udp_sample\<lparr>us_stream := udp_idle [udp_frame [] [8]]\<rparr>))) = Some (s', Inr ()) \<and> us_socket s' = []"
proof -
  let ?s0 = "udp_sample\<lparr>us_stream := udp_idle [udp_frame [] [8]]\<rparr>"
  let ?s1 = "fst (udp_receive bit_text [7] True 0 ?s0)"
  have start: "udp_start (\<lambda>_. Inr True) (\<lambda>_. None) [] (udp_idle [udp_frame [] [8]]) = Inr ?s0"
    by (simp add: udp_start_def udp_sample_def)
  have p: "conn_pending (udp_idle [udp_frame [] [8]]) =
      drop (length (tx (udp_idle []))) (tx (udp_client_list [[8]] (udp_idle [])))"
    using udp_client_list_tx [of "udp_idle []" "[[8]]"] by (simp add: maxUDPPacket_def)
  have "udp_parse (conn_pending (us_stream ?s1)) = Some (([], [8]), [])"
    using udp_parse_frame [of "[]" "[8]" "[]"] by (simp add: udp_receive_can_send udp_sample_def)
  then obtain s' where s': "udp_reply ?s1 = Some (s', Inr ())" using udp_reply_frame by blast
  have "udp_step bit_text ?s0 ?s1" by (rule udp_step.receive) (rule surjective_pairing)
  moreover have "udp_step bit_text ?s1 s'" by (rule udp_step.reply [OF s'])
  ultimately have "(udp_step bit_text)\<^sup>*\<^sup>* ?s0 s'" by (meson converse_rtranclp_into_rtranclp r_into_rtranclp)
  from udp_replies_dropped [OF bit_text_facts(1) start _ p this] s' show ?thesis by simp
qed

text \<open>
  The server's side of a reply is right: a frame that carries the text of an address is sent to that
  address as long as its last datagram is at most 60 seconds old at the last cleanup, and dropped after.
\<close>

theorem udp_reply_routed:
  assumes "udp_parse (conn_pending (us_stream s)) = Some ((string_bytes (str a), p), r)"
    and "udp_receive str d a t s = (s1, e)"
  shows "\<exists>s'. udp_reply (udp_cleanup now s1) = Some (s', Inr ()) \<and>
    us_socket s' = us_socket s @ (if now - t \<le> 60 * 1000000000 then [(a, p)] else [])"
proof -
  have k: "us_socket s1 = us_socket s" "us_sessions s1 (str a) = Some (a, t)"
    "conn_pending (us_stream s1) = conn_pending (us_stream s)"
    using assms(2) by (auto simp: udp_receive_def Let_def conn_write_pending split: prod.splits)
  let ?s2 = "udp_cleanup now s1"
  have "us_sessions ?s2 (str a) = (if now - t \<le> 60 * 1000000000 then Some (a, t) else None)"
    using k(2) by (simp add: udp_cleanup_def sessionTimeout_def)
  moreover have "us_socket ?s2 = us_socket s" "udp_parse (conn_pending (us_stream ?s2)) = Some ((string_bytes (str a), p), r)"
    using k assms(1) by (simp_all add: udp_cleanup_def)
  ultimately show ?thesis using udp_reply_frame [of ?s2] by (auto split: if_splits)
qed

lemma udp_reply_routed_witness:
  "\<exists>s'. udp_reply (udp_cleanup 60000000001 (fst (udp_receive bit_text [7] True 1
        (udp_sample\<lparr>us_stream := udp_idle [udp_frame (string_bytes (bit_text True)) [8]]\<rparr>)))) = Some (s', Inr ()) \<and>
     us_socket s' = [(True, [8])]"
proof -
  let ?s = "udp_sample\<lparr>us_stream := udp_idle [udp_frame (string_bytes (bit_text True)) [8]]\<rparr>"
  have "udp_parse (conn_pending (us_stream ?s)) = Some ((string_bytes (bit_text True), [8]), [])"
    using udp_parse_frame [of "string_bytes (bit_text True)" "[8]" "[]"] bit_text_facts(2) by simp
  moreover obtain s1 e where s1: "udp_receive bit_text [7] True 1 ?s = (s1, e)" by (metis surj_pair)
  ultimately show ?thesis using udp_reply_routed [of ?s bit_text True "[8]" "[]" "[7]" 1 s1 e 60000000001]
    by (simp add: udp_sample_def)
qed

end
