(* ===== verification/Server.thy ===== *)
theory Server
  imports Channel "HOL-Library.Multiset"
begin

text \<open>
  \<open>go-core/server/server.go\<close>: the session pools, the authentication of a client connection, the visitors
  and the UDP task of a service. The handlers work on any \<open>net.Conn\<close>, given by its methods \<open>rd\<close>, \<open>wr\<close> and
  \<open>cl\<close>. A yamux session (a third-party package) is a value of type \<open>'s\<close>; whether it is closed, and what
  opening a stream on it gives, are arguments. \<open>srv_step\<close> interleaves the goroutines of a running server.
\<close>

subsection \<open>Pools\<close>

definition pool_add :: "'s \<Rightarrow> 's list \<Rightarrow> 's list" where
  "pool_add s p = p @ [s]"

fun pool_pick :: "('s \<Rightarrow> bool) \<Rightarrow> 's list \<Rightarrow> 's list \<times> 's option" where
  "pool_pick closed [] = ([], None)"
| "pool_pick closed (s # p) = (if \<not> closed s then (p @ [s], Some s) else pool_pick closed p)"

fun pool_remove :: "'s \<Rightarrow> 's list \<Rightarrow> 's list" where
  "pool_remove target [] = []"
| "pool_remove target (s # p) = (if s = target then p else s # pool_remove target p)"

definition udp_pool_add :: "'s \<Rightarrow> 's list \<Rightarrow> 's list" where
  "udp_pool_add s p = p @ [s]"

fun udp_pool_pick :: "('s \<Rightarrow> bool) \<Rightarrow> 's list \<Rightarrow> 's list \<times> 's option" where
  "udp_pool_pick closed [] = ([], None)"
| "udp_pool_pick closed (s # p) = (if \<not> closed s then (p @ [s], Some s) else udp_pool_pick closed p)"

text \<open>
  The contract of a pool: a session added goes to the end; a pick drops the closed sessions at the
  front and moves the first open one to the end.
\<close>

locale session_queue =
  fixes add :: "'s \<Rightarrow> 's list \<Rightarrow> 's list"
    and pick :: "('s \<Rightarrow> bool) \<Rightarrow> 's list \<Rightarrow> 's list \<times> 's option"
  assumes add_end: "add s p = p @ [s]"
    and pick_empty: "pick closed [] = ([], None)"
    and pick_open: "\<not> closed s \<Longrightarrow> pick closed (s # p) = (p @ [s], Some s)"
    and pick_closed: "closed s \<Longrightarrow> pick closed (s # p) = pick closed p"
begin

lemma pick_some:
  "pick closed p = (p', Some s) \<Longrightarrow>
    \<exists>pre post. p = pre @ s # post \<and> (\<forall>x \<in> set pre. closed x) \<and> \<not> closed s \<and> p' = post @ [s]"
proof (induction p)
  case Nil
  then show ?case by (simp add: pick_empty)
next
  case (Cons x p)
  show ?case
  proof (cases "closed x")
    case True
    then have "pick closed p = (p', Some s)" using Cons.prems by (simp add: pick_closed)
    then obtain pre post where "p = pre @ s # post" "\<forall>y \<in> set pre. closed y" "\<not> closed s" "p' = post @ [s]"
      using Cons.IH by blast
    with True have "x # p = (x # pre) @ s # post \<and> (\<forall>y \<in> set (x # pre). closed y) \<and> \<not> closed s \<and> p' = post @ [s]"
      by simp
    then show ?thesis by blast
  next
    case False
    with Cons.prems have "x # p = [] @ s # p \<and> (\<forall>y \<in> set []. closed y) \<and> \<not> closed s \<and> p' = p @ [s]"
      by (auto simp: pick_open)
    then show ?thesis by blast
  qed
qed

lemma pick_none: "pick closed p = (p', None) \<Longrightarrow> p' = [] \<and> (\<forall>x \<in> set p. closed x)"
proof (induction p)
  case Nil
  then show ?case by (simp add: pick_empty)
next
  case (Cons x p)
  then show ?case by (cases "closed x") (simp_all add: pick_closed pick_open)
qed

lemma pick_subset: "pick closed p = (p', r) \<Longrightarrow> set p' \<subseteq> set p"
  using pick_some [of closed p p'] pick_none [of closed p p'] by (cases r) auto

lemma pick_keeps_open: "pick closed p = (p', r) \<Longrightarrow> mset (filter (\<lambda>s. \<not> closed s) p') = mset (filter (\<lambda>s. \<not> closed s) p)"
proof (cases r)
  case None
  assume "pick closed p = (p', r)"
  with None pick_none [of closed p p'] show ?thesis by (simp add: filter_empty_conv [THEN iffD2])
next
  case (Some s)
  assume "pick closed p = (p', r)"
  with Some pick_some [of closed p p' s] show ?thesis by (auto simp: filter_empty_conv [THEN iffD2])
qed

text \<open>As long as every session is open, picks go round the pool.\<close>

definition picks :: "('s \<Rightarrow> bool) \<Rightarrow> nat \<Rightarrow> 's list \<Rightarrow> 's list" where
  "picks closed k p = ((\<lambda>q. fst (pick closed q)) ^^ k) p"

lemma pick_rotate: "p \<noteq> [] \<Longrightarrow> \<forall>s \<in> set p. \<not> closed s \<Longrightarrow> pick closed p = (rotate1 p, Some (hd p))"
  by (cases p) (simp_all add: pick_open)

lemma picks_rotate: "p \<noteq> [] \<Longrightarrow> \<forall>s \<in> set p. \<not> closed s \<Longrightarrow> picks closed k p = rotate k p"
proof (induction k)
  case 0
  then show ?case by (simp add: picks_def)
next
  case (Suc k)
  then have "picks closed k p = rotate k p" by simp
  moreover have "rotate k p \<noteq> []" "\<forall>s \<in> set (rotate k p). \<not> closed s" using Suc.prems by simp_all
  ultimately show ?case using pick_rotate [of "rotate k p" closed] by (simp add: picks_def)
qed

lemma picks_round_robin:
  assumes "p \<noteq> []" "\<forall>s \<in> set p. \<not> closed s"
  shows "snd (pick closed (picks closed k p)) = Some (p ! (k mod length p))"
proof -
  have "rotate k p \<noteq> []" "\<forall>s \<in> set (rotate k p). \<not> closed s" using assms by simp_all
  then have "snd (pick closed (rotate k p)) = Some (hd (rotate k p))" by (simp add: pick_rotate)
  with assms show ?thesis by (simp add: picks_rotate hd_rotate_conv_nth)
qed

end

interpretation tcpq: session_queue pool_add pool_pick
  by unfold_locales (simp_all add: pool_add_def)

interpretation udpq: session_queue udp_pool_add udp_pool_pick
  by unfold_locales (simp_all add: udp_pool_add_def)

lemma pool_remove_remove1: "pool_remove s p = remove1 s p"
  by (induction p) simp_all

subsection \<open>Authentication\<close>

datatype auth_outcome =
    ReadFailed proto_err
  | NotAuth
  | Refused string
  | ReplyFailed proto_err
  | Authenticated string service_config

definition auth_reply :: "bool \<Rightarrow> string \<Rightarrow> envelope" where
  "auth_reply ok msg =
    no_message\<lparr>env_auth_resp := Some \<lparr>success = ok, message = msg, session_id = []\<rparr>\<rparr>"

text \<open>The error of the write is ignored.\<close>

definition sendAuthFail :: "'c writer \<Rightarrow> ('c \<Rightarrow> 'c) \<Rightarrow> string \<Rightarrow> 'c \<Rightarrow> 'c option" where
  "sendAuthFail wr cl msg c = (case WriteMessage wr (auth_reply False msg) c of
      None \<Rightarrow> None
    | Some (c', _) \<Rightarrow> Some (cl c'))"

definition refuse :: "'c writer \<Rightarrow> ('c \<Rightarrow> 'c) \<Rightarrow> string \<Rightarrow> 'c \<Rightarrow> ('c \<times> auth_outcome) option" where
  "refuse wr cl msg c = map_option (\<lambda>c'. (c', Refused msg)) (sendAuthFail wr cl msg c)"

lemma refuse_not_ok [simp]: "refuse wr cl msg c \<noteq> Some (c', Authenticated name svc)"
  by (auto simp: refuse_def)

definition server_auth ::
  "'c reader \<Rightarrow> 'c writer \<Rightarrow> ('c \<Rightarrow> 'c) \<Rightarrow> server_config \<Rightarrow> 'c \<Rightarrow> ('c \<times> auth_outcome) option" where
  "server_auth rd wr cl sc c = (case ReadMessage rd c of
      None \<Rightarrow> None
    | Some (c1, Inl e) \<Rightarrow> Some (cl c1, ReadFailed e)
    | Some (c1, Inr env) \<Rightarrow> (case env_auth env of
        None \<Rightarrow> Some (cl c1, NotAuth)
      | Some auth \<Rightarrow> (case srv_services sc (ar_service_name auth) of
          None \<Rightarrow> refuse wr cl (''unknown service: '' @ ar_service_name auth) c1
        | Some svc \<Rightarrow>
            (let token = GetServiceToken (svc_token svc) (srv_default_token sc) in
             if token = [] then refuse wr cl ''no token configured'' c1
             else if ar_token_hash auth \<noteq> HashToken token then refuse wr cl ''bad token'' c1
             else (case WriteMessage wr (auth_reply True ''OK'') c1 of
                 None \<Rightarrow> None
               | Some (c2, Inl e) \<Rightarrow> Some (cl c2, ReplyFailed e)
               | Some (c2, Inr _) \<Rightarrow> Some (c2, Authenticated (ar_service_name auth) svc))))))"

subsection \<open>Sessions of clients\<close>

record 's pools =
  tcp_pools :: "string \<rightharpoonup> 's list"
  udp_pools :: "string \<rightharpoonup> 's list"

text \<open>The pools \<open>Run\<close> makes before it listens: one per service, by its type.\<close>

definition init_pools :: "(string \<rightharpoonup> service_config) \<Rightarrow> 's pools" where
  "init_pools services =
    \<lparr>tcp_pools = (\<lambda>n. case services n of None \<Rightarrow> None | Some svc \<Rightarrow> if effective_type svc = ''udp'' then None else Some []),
     udp_pools = (\<lambda>n. case services n of None \<Rightarrow> None | Some svc \<Rightarrow> if effective_type svc = ''udp'' then Some [] else None)\<rparr>"

text \<open>Where the session of a client goes; without a pool it is closed.\<close>

definition add_session :: "service_config \<Rightarrow> string \<Rightarrow> 's \<Rightarrow> 's pools \<Rightarrow> 's pools option" where
  "add_session svc name s P =
    (if effective_type svc = ''udp'' then (case udp_pools P name of
        None \<Rightarrow> None
      | Some p \<Rightarrow> Some (P\<lparr>udp_pools := (udp_pools P)(name \<mapsto> udp_pool_add s p)\<rparr>))
     else (case tcp_pools P name of
        None \<Rightarrow> None
      | Some p \<Rightarrow> Some (P\<lparr>tcp_pools := (tcp_pools P)(name \<mapsto> pool_add s p)\<rparr>)))"

datatype 's client_end = AuthEnded auth_outcome | YamuxError io_err | NoPool 's | Added string 's

definition handleClientConn ::
  "'c reader \<Rightarrow> 'c writer \<Rightarrow> ('c \<Rightarrow> 'c) \<Rightarrow> ('c \<Rightarrow> io_err + 's) \<Rightarrow> server_config \<Rightarrow> 'c \<Rightarrow> 's pools \<Rightarrow>
    ('c \<times> 's pools \<times> 's client_end) option" where
  "handleClientConn rd wr cl yamux sc c P = (case server_auth rd wr cl sc c of
      None \<Rightarrow> None
    | Some (c', Authenticated name svc) \<Rightarrow> (case yamux c' of
        Inl e \<Rightarrow> Some (cl c', P, YamuxError e)
      | Inr s \<Rightarrow> (case add_session svc name s P of
          None \<Rightarrow> Some (c', P, NoPool s)
        | Some P' \<Rightarrow> Some (c', P', Added name s)))
    | Some (c', a) \<Rightarrow> Some (c', P, AuthEnded a))"

subsection \<open>Visitors and the UDP task\<close>

datatype ('s, 'st) visitor_end = NoClient | OpenFailed io_err | Relayed 's 'st

text \<open>
  The part after the pick: the attempt to open a stream on the session, and the removal of the session if it
  failed because the session is closed. \<open>p\<close> is the pool at the time of the removal.
\<close>

definition visitor_open ::
  "('s \<Rightarrow> bool) \<Rightarrow> ('s \<Rightarrow> io_err + 'st) \<Rightarrow> 's \<Rightarrow> 's list \<Rightarrow> 's list \<times> ('s, 'st) visitor_end" where
  "visitor_open closed open_stream s p = (case open_stream s of
      Inl e \<Rightarrow> (if closed s then pool_remove s p else p, OpenFailed e)
    | Inr stream \<Rightarrow> (p, Relayed s stream))"

text \<open>\<open>closed1\<close> tells which sessions are closed at the pick, \<open>closed2\<close> after the attempt to open a stream.\<close>

definition handleVisitor ::
  "('s \<Rightarrow> bool) \<Rightarrow> ('s \<Rightarrow> bool) \<Rightarrow> ('s \<Rightarrow> io_err + 'st) \<Rightarrow> 's list \<Rightarrow> 's list \<times> ('s, 'st) visitor_end" where
  "handleVisitor closed1 closed2 open_stream p = (case pool_pick closed1 p of
      (p', None) \<Rightarrow> (p', NoClient)
    | (p', Some s) \<Rightarrow> visitor_open closed2 open_stream s p')"

text \<open>
  One pass of the loop that serves UDP: without a session it receives from a channel nobody sends on,
  that is, it never comes back (\<open>None\<close>).
\<close>

definition udp_pass ::
  "('s \<Rightarrow> bool) \<Rightarrow> ('s \<Rightarrow> io_err + 'st) \<Rightarrow> 's list \<Rightarrow> ('s list \<times> (io_err + 's \<times> 'st)) option" where
  "udp_pass closed open_stream p = (case udp_pool_pick closed p of
      (p', None) \<Rightarrow> None
    | (p', Some s) \<Rightarrow> (case open_stream s of
        Inl e \<Rightarrow> Some (p', Inl e)
      | Inr stream \<Rightarrow> Some (p', Inr (s, stream))))"

subsection \<open>The goroutines of a running server\<close>

text \<open>
  The UDP task of a service is looping, blocked for ever, or serving a stream. A step holds the lock of at most
  one pool, once: \<open>w_visitors\<close> are the visitors that have picked a session and go on from there, while other
  goroutines run. \<open>w_auth\<close> remembers the
  request each session was authenticated with, \<open>w_served\<close> the sessions used for visitors and for UDP
  streams, by service; neither exists in the code.
\<close>

datatype udp_task = Looping | Blocked | Serving

record 's world =
  w_pools :: "'s pools"
  w_udp :: "string \<rightharpoonup> udp_task"
  w_visitors :: "(string \<times> 's) list"
  w_auth :: "'s \<rightharpoonup> auth_request"
  w_served :: "(string \<times> 's) list"
  w_udp_served :: "(string \<times> 's) list"

definition world_init :: "server_config \<Rightarrow> 's world" where
  "world_init sc = \<lparr>w_pools = init_pools (srv_services sc),
     w_udp = (\<lambda>n. case srv_services sc n of None \<Rightarrow> None
       | Some svc \<Rightarrow> if effective_type svc = ''udp'' \<and> svc_bind_addr svc \<noteq> [] then Some Looping else None),
     w_visitors = [], w_auth = (\<lambda>_. None), w_served = [], w_udp_served = []\<rparr>"

inductive srv_step ::
  "'c reader \<Rightarrow> 'c writer \<Rightarrow> ('c \<Rightarrow> 'c) \<Rightarrow> server_config \<Rightarrow> 's world \<Rightarrow> 's world \<Rightarrow> bool"
  for rd wr cl sc where
  client: "handleClientConn rd wr cl yamux sc c (w_pools w) = Some (c', P', Added name s) \<Longrightarrow>
    w_auth w s = None \<Longrightarrow> ReadMessage rd c = Some (c1, Inr env) \<Longrightarrow> env_auth env = Some a \<Longrightarrow>
    srv_step rd wr cl sc w (w\<lparr>w_pools := P', w_auth := (w_auth w)(s \<mapsto> a)\<rparr>)"
| visitor_picks: "tcp_pools (w_pools w) name = Some p \<Longrightarrow> pool_pick closed p = (p', Some s) \<Longrightarrow>
    srv_step rd wr cl sc w (w\<lparr>w_pools := (w_pools w)\<lparr>tcp_pools := (tcp_pools (w_pools w))(name \<mapsto> p')\<rparr>,
      w_visitors := (name, s) # w_visitors w\<rparr>)"
| visitor_no_client: "tcp_pools (w_pools w) name = Some p \<Longrightarrow> pool_pick closed p = (p', None) \<Longrightarrow>
    srv_step rd wr cl sc w (w\<lparr>w_pools := (w_pools w)\<lparr>tcp_pools := (tcp_pools (w_pools w))(name \<mapsto> p')\<rparr>\<rparr>)"
| visitor_relays: "(name, s) \<in> set (w_visitors w) \<Longrightarrow> tcp_pools (w_pools w) name = Some p \<Longrightarrow>
    visitor_open closed open_stream s p = (p', Relayed s (stream :: unit)) \<Longrightarrow>
    srv_step rd wr cl sc w (w\<lparr>w_pools := (w_pools w)\<lparr>tcp_pools := (tcp_pools (w_pools w))(name \<mapsto> p')\<rparr>,
      w_visitors := remove1 (name, s) (w_visitors w), w_served := (name, s) # w_served w\<rparr>)"
| visitor_fails: "(name, s) \<in> set (w_visitors w) \<Longrightarrow> tcp_pools (w_pools w) name = Some p \<Longrightarrow>
    visitor_open closed (open_stream :: 's \<Rightarrow> io_err + unit) s p = (p', OpenFailed e) \<Longrightarrow>
    srv_step rd wr cl sc w (w\<lparr>w_pools := (w_pools w)\<lparr>tcp_pools := (tcp_pools (w_pools w))(name \<mapsto> p')\<rparr>,
      w_visitors := remove1 (name, s) (w_visitors w)\<rparr>)"
| udp_blocks: "w_udp w name = Some Looping \<Longrightarrow> udp_pools (w_pools w) name = Some p \<Longrightarrow>
    udp_pass closed (open_stream :: 's \<Rightarrow> io_err + unit) p = None \<Longrightarrow>
    srv_step rd wr cl sc w (w\<lparr>w_pools := (w_pools w)\<lparr>udp_pools := (udp_pools (w_pools w))(name \<mapsto> fst (udp_pool_pick closed p))\<rparr>,
      w_udp := (w_udp w)(name \<mapsto> Blocked)\<rparr>)"
| udp_retry: "w_udp w name = Some Looping \<Longrightarrow> udp_pools (w_pools w) name = Some p \<Longrightarrow>
    udp_pass closed (open_stream :: 's \<Rightarrow> io_err + unit) p = Some (p', Inl e) \<Longrightarrow>
    srv_step rd wr cl sc w (w\<lparr>w_pools := (w_pools w)\<lparr>udp_pools := (udp_pools (w_pools w))(name \<mapsto> p')\<rparr>\<rparr>)"
| udp_serves: "w_udp w name = Some Looping \<Longrightarrow> udp_pools (w_pools w) name = Some p \<Longrightarrow>
    udp_pass closed open_stream p = Some (p', Inr (s, (stream :: unit))) \<Longrightarrow>
    srv_step rd wr cl sc w (w\<lparr>w_pools := (w_pools w)\<lparr>udp_pools := (udp_pools (w_pools w))(name \<mapsto> p')\<rparr>,
      w_udp := (w_udp w)(name \<mapsto> Serving), w_udp_served := (name, s) # w_udp_served w\<rparr>)"
| udp_ends: "w_udp w name = Some Serving \<Longrightarrow> srv_step rd wr cl sc w (w\<lparr>w_udp := (w_udp w)(name \<mapsto> Looping)\<rparr>)"

text \<open>What the credentials of a request must be for a service of the configuration.\<close>

definition proves :: "server_config \<Rightarrow> string \<Rightarrow> auth_request \<Rightarrow> bool" where
  "proves sc name a \<longleftrightarrow> ar_service_name a = name \<and> (\<exists>svc. srv_services sc name = Some svc \<and>
     GetServiceToken (svc_token svc) (srv_default_token sc) \<noteq> [] \<and>
     ar_token_hash a = HashToken (GetServiceToken (svc_token svc) (srv_default_token sc)))"

lemma server_auth_proves:
  assumes "server_auth rd wr cl sc c = Some (c', Authenticated name svc)"
    and "ReadMessage rd c = Some (c1, Inr env)" "env_auth env = Some a"
  shows "proves sc name a \<and> srv_services sc name = Some svc"
proof (cases "srv_services sc (ar_service_name a)")
  case None
  with assms show ?thesis by (simp add: server_auth_def)
next
  case (Some v)
  let ?t = "GetServiceToken (svc_token v) (srv_default_token sc)"
  have t: "?t \<noteq> []" using assms Some by (auto simp: server_auth_def Let_def)
  moreover have h: "ar_token_hash a = HashToken ?t"
    using assms Some t by (auto simp: server_auth_def Let_def split: if_splits)
  moreover have "name = ar_service_name a \<and> svc = v"
    using assms(1) unfolding server_auth_def assms(2) using Some t h assms(3)
    by (auto simp: Let_def split: if_split_asm option.split_asm prod.split_asm sum.split_asm)
  ultimately show ?thesis using Some by (simp add: proves_def)
qed

lemma handleClientConn_Added:
  assumes "handleClientConn rd wr cl yamux sc c P = Some (c', P', Added name s)"
  obtains svc where "server_auth rd wr cl sc c = Some (c', Authenticated name svc)" "add_session svc name s P = Some P'"
  using assms
  by (auto simp: handleClientConn_def split: option.splits prod.splits auth_outcome.splits sum.splits)

definition pooled :: "'s pools \<Rightarrow> string \<Rightarrow> 's set" where
  "pooled P name = (case tcp_pools P name of None \<Rightarrow> {} | Some p \<Rightarrow> set p) \<union>
     (case udp_pools P name of None \<Rightarrow> {} | Some p \<Rightarrow> set p)"

lemma add_session_pooled:
  "add_session svc name s P = Some P' \<Longrightarrow> pooled P' n \<subseteq> (if n = name then insert s (pooled P n) else pooled P n)"
proof (cases "effective_type svc = ''udp''")
  case True
  assume a: "add_session svc name s P = Some P'"
  then obtain p where "udp_pools P name = Some p" "P' = P\<lparr>udp_pools := (udp_pools P)(name \<mapsto> p @ [s])\<rparr>"
    unfolding add_session_def if_P [OF True] by (cases "udp_pools P name") (simp_all add: udp_pool_add_def)
  then show ?thesis by (auto simp: pooled_def)
next
  case False
  assume a: "add_session svc name s P = Some P'"
  then obtain p where "tcp_pools P name = Some p" "P' = P\<lparr>tcp_pools := (tcp_pools P)(name \<mapsto> p @ [s])\<rparr>"
    unfolding add_session_def if_not_P [OF False] by (cases "tcp_pools P name") (simp_all add: pool_add_def)
  then show ?thesis by (auto simp: pooled_def)
qed

lemma pooled_tcp_update:
  "tcp_pools P name = Some p \<Longrightarrow> set p' \<subseteq> set p \<Longrightarrow>
    pooled (P\<lparr>tcp_pools := (tcp_pools P)(name \<mapsto> p')\<rparr>) n \<subseteq> pooled P n"
  by (auto simp: pooled_def)

lemma pooled_udp_update:
  "udp_pools P name = Some p \<Longrightarrow> set p' \<subseteq> set p \<Longrightarrow>
    pooled (P\<lparr>udp_pools := (udp_pools P)(name \<mapsto> p')\<rparr>) n \<subseteq> pooled P n"
  by (auto simp: pooled_def)

lemma visitor_open_subset:
  "visitor_open closed open_stream s p = (p', r) \<Longrightarrow> set p' \<subseteq> set p"
  by (auto simp: visitor_open_def pool_remove_remove1 split: sum.splits if_splits dest: set_remove1_subset [THEN subsetD])

lemma pool_pick_in: "pool_pick closed p = (p', Some s) \<Longrightarrow> s \<in> set p"
  by (auto dest: tcpq.pick_some)

lemma udp_pass_subset:
  assumes "udp_pass closed open_stream p = Some (p', r)"
  shows "set p' \<subseteq> set p" "r = Inr (s, stream) \<Longrightarrow> s \<in> set p \<and> \<not> closed s"
proof -
  obtain q x where q: "udp_pool_pick closed p = (q, x)" by (cases "udp_pool_pick closed p")
  then have "p' = q" using assms by (auto simp: udp_pass_def split: option.splits sum.splits)
  then show "set p' \<subseteq> set p" using udpq.pick_subset [OF q] by simp
  assume "r = Inr (s, stream)"
  with assms q have "x = Some s" by (auto simp: udp_pass_def split: option.splits sum.splits)
  with q have "udp_pool_pick closed p = (q, Some s)" by simp
  from udpq.pick_some [OF this] show "s \<in> set p \<and> \<not> closed s" by auto
qed

text \<open>
  The invariant: every session in a pool, picked for a visitor, or ever used, proved the token of its service.
\<close>

definition w_used :: "'s world \<Rightarrow> (string \<times> 's) set" where
  "w_used w = set (w_visitors w) \<union> set (w_served w) \<union> set (w_udp_served w)"

definition world_ok :: "server_config \<Rightarrow> 's world \<Rightarrow> bool" where
  "world_ok sc w \<longleftrightarrow>
     (\<forall>name. \<forall>s \<in> pooled (w_pools w) name. \<exists>a. w_auth w s = Some a \<and> proves sc name a) \<and>
     (\<forall>name s. (name, s) \<in> w_used w \<longrightarrow> (\<exists>a. w_auth w s = Some a \<and> proves sc name a))"

lemma world_ok_init: "world_ok sc (world_init sc)"
  by (auto simp: w_used_def world_ok_def world_init_def init_pools_def pooled_def split: option.splits)

lemma world_ok_shrink:
  assumes "world_ok sc w" "\<And>n. pooled (w_pools w') n \<subseteq> pooled (w_pools w) n" "w_auth w' = w_auth w"
    and "w_used w' \<subseteq> w_used w \<union> {(n, s). s \<in> pooled (w_pools w) n}"
  shows "world_ok sc w'"
proof -
  have "\<exists>a. w_auth w s = Some a \<and> proves sc name a" if "(name, s) \<in> w_used w'" for name s
  proof -
    from that assms(4) have "(name, s) \<in> w_used w \<or> s \<in> pooled (w_pools w) name" by auto
    with assms(1) show ?thesis unfolding world_ok_def by blast
  qed
  moreover have "\<exists>a. w_auth w s = Some a \<and> proves sc name a" if "s \<in> pooled (w_pools w') name" for name s
    using that assms(1) assms(2) [of name] unfolding world_ok_def by blast
  ultimately show ?thesis unfolding world_ok_def assms(3) by blast
qed

lemma world_ok_client:
  assumes "world_ok sc w" "add_session svc name s (w_pools w) = Some P'" "proves sc name a" "w_auth w s = None"
  shows "world_ok sc (w\<lparr>w_pools := P', w_auth := (w_auth w)(s \<mapsto> a)\<rparr>)"
proof -
  have old: "w_auth w x = Some b \<Longrightarrow> ((w_auth w)(s \<mapsto> a)) x = Some b" for x b using assms(4) by auto
  have "x = s \<and> n = name \<or> x \<in> pooled (w_pools w) n" if "x \<in> pooled P' n" for x n
    using add_session_pooled [OF assms(2), of n] that by (auto split: if_splits)
  then show ?thesis using assms(1,3) old unfolding world_ok_def by (fastforce simp: w_used_def)
qed

text \<open>A step on the TCP pool of a service that only takes sessions out of it.\<close>

lemma world_ok_tcp:
  assumes "world_ok sc w" "tcp_pools (w_pools w) name = Some p" "set p' \<subseteq> set p"
    and "w_pools w' = (w_pools w)\<lparr>tcp_pools := (tcp_pools (w_pools w))(name \<mapsto> p')\<rparr>" "w_auth w' = w_auth w"
    and "w_used w' \<subseteq> w_used w \<union> Pair name ` set p"
  shows "world_ok sc w'"
proof (rule world_ok_shrink [OF assms(1) _ assms(5)])
  show "pooled (w_pools w') n \<subseteq> pooled (w_pools w) n" for n
    unfolding assms(4) by (rule pooled_tcp_update [OF assms(2,3)])
  show "w_used w' \<subseteq> w_used w \<union> {(n, s). s \<in> pooled (w_pools w) n}"
    using assms(2,6) by (auto simp: pooled_def)
qed

lemma world_ok_udp:
  assumes "world_ok sc w" "udp_pools (w_pools w) name = Some p" "set p' \<subseteq> set p"
    and "w_pools w' = (w_pools w)\<lparr>udp_pools := (udp_pools (w_pools w))(name \<mapsto> p')\<rparr>" "w_auth w' = w_auth w"
    and "w_used w' \<subseteq> w_used w \<union> Pair name ` set p"
  shows "world_ok sc w'"
proof (rule world_ok_shrink [OF assms(1) _ assms(5)])
  show "pooled (w_pools w') n \<subseteq> pooled (w_pools w) n" for n
    unfolding assms(4) by (rule pooled_udp_update [OF assms(2,3)])
  show "w_used w' \<subseteq> w_used w \<union> {(n, s). s \<in> pooled (w_pools w) n}"
    using assms(2,6) by (auto simp: pooled_def)
qed

lemma srv_step_ok: "srv_step rd wr cl sc w w' \<Longrightarrow> world_ok sc w \<Longrightarrow> world_ok sc w'"
proof (induction rule: srv_step.induct)
  case (client yamux c w c' P' name s c1 env a)
  obtain svc where h: "server_auth rd wr cl sc c = Some (c', Authenticated name svc)"
    "add_session svc name s (w_pools w) = Some P'" using client.hyps(1) by (rule handleClientConn_Added)
  from server_auth_proves [OF h(1) client.hyps(3,4)] have "proves sc name a" by simp
  from world_ok_client [OF client.prems h(2) this client.hyps(2)] show ?case .
next
  case (visitor_picks w name p closed p' s)
  from tcpq.pick_subset [OF visitor_picks.hyps(2)] pool_pick_in [OF visitor_picks.hyps(2)] show ?case
    by (intro world_ok_tcp [OF visitor_picks.prems visitor_picks.hyps(1)]) (auto simp: w_used_def)
next
  case (visitor_no_client w name p closed p')
  from tcpq.pick_subset [OF visitor_no_client.hyps(2)] show ?case
    by (intro world_ok_tcp [OF visitor_no_client.prems visitor_no_client.hyps(1)]) (auto simp: w_used_def)
next
  case (visitor_relays name s w p closed open_stream p' stream)
  from visitor_open_subset [OF visitor_relays.hyps(3)] visitor_relays.hyps(1) show ?case
    by (intro world_ok_tcp [OF visitor_relays.prems visitor_relays.hyps(2)]) (auto simp: w_used_def dest: set_remove1_subset [THEN subsetD])
next
  case (visitor_fails name s w p closed open_stream p' e)
  from visitor_open_subset [OF visitor_fails.hyps(3)] show ?case
    by (intro world_ok_tcp [OF visitor_fails.prems visitor_fails.hyps(2)]) (auto simp: w_used_def dest: set_remove1_subset [THEN subsetD])
next
  case (udp_blocks w name p closed open_stream)
  have "set (fst (udp_pool_pick closed p)) \<subseteq> set p" by (metis prod.collapse udpq.pick_subset)
  then show ?case
    by (intro world_ok_udp [OF udp_blocks.prems udp_blocks.hyps(2)]) (auto simp: w_used_def)
next
  case (udp_retry w name p closed open_stream p' e)
  from udp_pass_subset(1) [OF udp_retry.hyps(3)] show ?case
    by (intro world_ok_udp [OF udp_retry.prems udp_retry.hyps(2)]) (auto simp: w_used_def)
next
  case (udp_serves w name p closed open_stream p' s stream)
  from udp_pass_subset(1) [OF udp_serves.hyps(3)] udp_pass_subset(2) [OF udp_serves.hyps(3) refl] show ?case
    by (intro world_ok_udp [OF udp_serves.prems udp_serves.hyps(2)]) (auto simp: w_used_def)
next
  case (udp_ends w name)
  then show ?case by (auto simp: w_used_def intro: world_ok_shrink)
qed

text \<open>A visitor that nobody interrupts is \<open>handleVisitor\<close>.\<close>

lemma handleVisitor_steps:
  assumes "tcp_pools (w_pools w) name = Some p"
    and "handleVisitor closed1 closed2 open_stream p = (p', Relayed s (stream :: unit))"
  shows "(srv_step rd wr cl sc)\<^sup>*\<^sup>* w (w\<lparr>w_pools := (w_pools w)\<lparr>tcp_pools := (tcp_pools (w_pools w))(name \<mapsto> p')\<rparr>,
    w_served := (name, s) # w_served w\<rparr>)"
proof -
  have q: "pool_pick closed1 p = (p', Some s)" "open_stream s = Inr stream"
    using assms(2) by (auto simp: handleVisitor_def visitor_open_def split: prod.splits option.splits sum.splits)
  let ?w1 = "w\<lparr>w_pools := (w_pools w)\<lparr>tcp_pools := (tcp_pools (w_pools w))(name \<mapsto> p')\<rparr>,
    w_visitors := (name, s) # w_visitors w\<rparr>"
  have "srv_step rd wr cl sc w ?w1" by (rule srv_step.visitor_picks [OF assms(1) q(1)])
  moreover have "srv_step rd wr cl sc ?w1 (?w1\<lparr>w_pools := (w_pools ?w1)\<lparr>tcp_pools := (tcp_pools (w_pools ?w1))(name \<mapsto> p')\<rparr>,
      w_visitors := remove1 (name, s) (w_visitors ?w1), w_served := (name, s) # w_served ?w1\<rparr>)"
    by (rule srv_step.visitor_relays [where open_stream = open_stream and closed = closed2]) (simp_all add: visitor_open_def q(2))
  ultimately show ?thesis by simp
qed

lemma srv_steps_ok: "(srv_step rd wr cl sc)\<^sup>*\<^sup>* w w' \<Longrightarrow> world_ok sc w \<Longrightarrow> world_ok sc w'"
  by (induction rule: rtranclp_induct) (auto intro: srv_step_ok)

text \<open>A blocked task stays blocked, and nothing more is served for it.\<close>

definition udp_dead :: "string \<Rightarrow> 's world \<Rightarrow> bool" where
  "udp_dead name w \<longleftrightarrow> w_udp w name = Some Blocked \<and> (\<forall>s. (name, s) \<notin> set (w_udp_served w))"

lemma srv_step_udp_dead: "srv_step rd wr cl sc w w' \<Longrightarrow> udp_dead n w \<Longrightarrow> udp_dead n w'"
  by (induction rule: srv_step.induct) (auto simp: udp_dead_def)

lemma srv_steps_udp_dead: "(srv_step rd wr cl sc)\<^sup>*\<^sup>* w w' \<Longrightarrow> udp_dead n w \<Longrightarrow> udp_dead n w'"
  by (induction rule: rtranclp_induct) (auto intro: srv_step_udp_dead)

subsection \<open>What the server answers\<close>

text \<open>The decision on a request: the text of the refusal, or the service.\<close>

definition auth_verdict :: "server_config \<Rightarrow> envelope \<Rightarrow> string option + service_config" where
  "auth_verdict sc env = (case env_auth env of
      None \<Rightarrow> Inl None
    | Some a \<Rightarrow> (case srv_services sc (ar_service_name a) of
        None \<Rightarrow> Inl (Some (''unknown service: '' @ ar_service_name a))
      | Some svc \<Rightarrow>
          if GetServiceToken (svc_token svc) (srv_default_token sc) = [] then Inl (Some ''no token configured'')
          else if ar_token_hash a \<noteq> HashToken (GetServiceToken (svc_token svc) (srv_default_token sc))
          then Inl (Some ''bad token'') else Inr svc))"

lemma server_auth_verdict:
  assumes "ReadMessage rd c = Some (c1, Inr env)"
  shows "server_auth rd wr cl sc c = (case auth_verdict sc env of
      Inl None \<Rightarrow> Some (cl c1, NotAuth)
    | Inl (Some msg) \<Rightarrow> refuse wr cl msg c1
    | Inr svc \<Rightarrow> (case WriteMessage wr (auth_reply True ''OK'') c1 of
        None \<Rightarrow> None
      | Some (c2, Inl e) \<Rightarrow> Some (cl c2, ReplyFailed e)
      | Some (c2, Inr _) \<Rightarrow> Some (c2, Authenticated (ar_service_name (the (env_auth env))) svc)))"
proof (cases "env_auth env")
  case None
  with assms show ?thesis by (simp add: server_auth_def auth_verdict_def)
next
  case (Some a)
  show ?thesis
  proof (cases "srv_services sc (ar_service_name a)")
    case None
    with assms Some show ?thesis by (simp add: server_auth_def auth_verdict_def)
  next
    case (Some svc)
    with assms \<open>env_auth env = Some a\<close> show ?thesis
      by (cases "WriteMessage wr (auth_reply True ''OK'') c1") (simp_all add: server_auth_def auth_verdict_def Let_def)
  qed
qed

lemma auth_reply_length: "length (json_print (envelope_json (auth_reply ok msg))) \<le> 6 * length msg + 300"
  using reply_message_length [of "\<lparr>success = ok, message = msg, session_id = []\<rparr>"] by (simp add: auth_reply_def)

lemma auth_reply_fits: "length msg \<le> 2000000 \<Longrightarrow> message_fits (auth_reply ok msg)"
  using auth_reply_length [of ok msg] by (simp add: message_fits_def MaxFrameSize_def)

lemma mset_rotate [simp]: "mset (rotate k p) = mset p"
proof (induction k)
  case 0
  then show ?case by simp
next
  case (Suc k)
  have "mset (rotate1 q) = mset q" for q :: "'a list" by (cases q) simp_all
  with Suc show ?case by simp
qed

subsection \<open>Properties\<close>

text \<open>
  C1. Only a client that knows the token of a service ever carries its traffic: in every state the
  running server can reach, whatever its connections send and in whatever order its goroutines run, a
  session that a visitor or a UDP stream was sent through was authenticated by a request for that very
  service with the hash of its (non-empty) token.
\<close>

theorem served_sessions_authenticated:
  assumes "(srv_step rd wr cl sc)\<^sup>*\<^sup>* (world_init sc) w" "(name, s) \<in> set (w_served w) \<union> set (w_udp_served w)"
  shows "\<exists>a. w_auth w s = Some a \<and> proves sc name a"
  using srv_steps_ok [OF assms(1) world_ok_init] assms(2) unfolding world_ok_def w_used_def by blast

definition web_service :: "string \<Rightarrow> service_config" where
  "web_service ty = \<lparr>svc_type = ty, svc_token = ''k'', svc_bind_addr = '':80'', svc_local_addr = [], svc_nodelay = False,
     svc_mux_streams = 0, svc_max_mux_streams = 0, svc_retry_interval = 0\<rparr>"

definition web_server :: server_config where
  "web_server = \<lparr>srv_bind_addr = '':1'', srv_default_token = [], srv_heartbeat_interval = 0, srv_transport = None,
     srv_services = [''web'' \<mapsto> web_service [], ''dns'' \<mapsto> web_service ''udp'']\<rparr>"

definition web_auth :: "string \<Rightarrow> auth_request" where
  "web_auth name = \<lparr>ar_service_name = name, ar_token_hash = HashToken ''k'', ar_service_type = ''tcp'',
     ar_mux_enabled = True, ar_mux_streams = 0\<rparr>"

lemma web_names_utf8: "valid_utf8 ''web''" "valid_utf8 ''nope''"
  by code_simp+

lemma web_auth_ok: "envelope_ok (no_message\<lparr>env_auth := Some (web_auth ''web'')\<rparr>)"
    "message_fits (no_message\<lparr>env_auth := Some (web_auth ''web'')\<rparr>)"
  using auth_message_length [of "web_auth ''web''"]
  by (simp_all add: envelope_ok_def no_message_def auth_request_ok_def web_auth_def message_fits_def MaxFrameSize_def web_names_utf8)

lemma web_auth_accepted:
  "\<exists>c' P' c1. handleClientConn conn_read conn_write conn_close (\<lambda>_. Inr (7 :: nat)) web_server
      (idle_conn\<lparr>rx := [encode_message (no_message\<lparr>env_auth := Some (web_auth ''web'')\<rparr>)]\<rparr>) (init_pools (srv_services web_server)) =
    Some (c', P', Added ''web'' 7) \<and> tcp_pools P' ''web'' = Some [7] \<and>
    ReadMessage conn_read (idle_conn\<lparr>rx := [encode_message (no_message\<lparr>env_auth := Some (web_auth ''web'')\<rparr>)]\<rparr>) =
      Some (c1, Inr (no_message\<lparr>env_auth := Some (web_auth ''web'')\<rparr>))"
proof -
  let ?env = "no_message\<lparr>env_auth := Some (web_auth ''web'')\<rparr>"
  let ?c = "idle_conn\<lparr>rx := [encode_message ?env]\<rparr>"
  have p: "conn_pending ?c = encode_message ?env @ []" by (simp add: conn_pending_def idle_conn_def)
  obtain c1 where c1: "ReadMessage conn_read ?c = Some (c1, Inr ?env)" "conn_kept c1 = conn_kept ?c"
    using tcp.ReadMessage_encoded [OF p web_auth_ok] by blast
  then have send: "conn_can_send c1" by (simp add: conn_kept_def conn_can_send_def idle_conn_def)
  have v: "auth_verdict web_server ?env = Inr (web_service [])"
    by (simp add: auth_verdict_def no_message_def web_auth_def web_server_def web_service_def GetServiceToken_def)
  obtain c2 where "WriteMessage conn_write (auth_reply True ''OK'') c1 = Some (c2, Inr ())"
    using tcpw.WriteMessage_sends [OF send auth_reply_fits [of "''OK''" True]] by auto
  then have a: "server_auth conn_read conn_write conn_close web_server ?c = Some (c2, Authenticated ''web'' (web_service []))"
    using server_auth_verdict [OF c1(1), of conn_write conn_close web_server, unfolded v]
    by (simp add: no_message_def web_auth_def)
  have "add_session (web_service []) ''web'' (7 :: nat) (init_pools (srv_services web_server)) =
      Some ((init_pools (srv_services web_server))\<lparr>tcp_pools := (tcp_pools (init_pools (srv_services web_server)))(''web'' \<mapsto> [7])\<rparr>)"
    by (simp add: add_session_def init_pools_def web_server_def web_service_def effective_type_def pool_add_def)
  with a c1(1) show ?thesis by (auto simp: handleClientConn_def)
qed

lemma served_sessions_authenticated_witness:
  "\<exists>w. (srv_step conn_read conn_write conn_close web_server)\<^sup>*\<^sup>* (world_init web_server) w \<and>
     (''web'', 7 :: nat) \<in> set (w_served w) \<and> (\<exists>a. w_auth w 7 = Some a \<and> proves web_server ''web'' a)"
proof -
  let ?w0 = "world_init web_server :: nat world"
  obtain c' P' c1 where h: "handleClientConn conn_read conn_write conn_close (\<lambda>_. Inr 7) web_server
      (idle_conn\<lparr>rx := [encode_message (no_message\<lparr>env_auth := Some (web_auth ''web'')\<rparr>)]\<rparr>) (w_pools ?w0) =
      Some (c', P', Added ''web'' 7)" "tcp_pools P' ''web'' = Some [7 :: nat]"
    "ReadMessage conn_read (idle_conn\<lparr>rx := [encode_message (no_message\<lparr>env_auth := Some (web_auth ''web'')\<rparr>)]\<rparr>) =
      Some (c1, Inr (no_message\<lparr>env_auth := Some (web_auth ''web'')\<rparr>))"
    using web_auth_accepted by (auto simp: world_init_def)
  let ?w1 = "?w0\<lparr>w_pools := P', w_auth := (w_auth ?w0)(7 \<mapsto> web_auth ''web'')\<rparr>"
  have 1: "srv_step conn_read conn_write conn_close web_server ?w0 ?w1"
    by (rule srv_step.client [OF h(1) _ h(3)]) (simp_all add: world_init_def)
  let ?w2 = "?w1\<lparr>w_pools := (w_pools ?w1)\<lparr>tcp_pools := (tcp_pools (w_pools ?w1))(''web'' \<mapsto> [7])\<rparr>,
      w_visitors := (''web'', 7) # w_visitors ?w1\<rparr>"
  have 2: "srv_step conn_read conn_write conn_close web_server ?w1 ?w2"
    by (rule srv_step.visitor_picks [where p = "[7]" and closed = "\<lambda>_. False"]) (simp_all add: h(2))
  let ?w3 = "?w2\<lparr>w_pools := (w_pools ?w2)\<lparr>tcp_pools := (tcp_pools (w_pools ?w2))(''web'' \<mapsto> [7])\<rparr>,
      w_visitors := remove1 (''web'', 7) (w_visitors ?w2), w_served := (''web'', 7) # w_served ?w2\<rparr>"
  have 3: "srv_step conn_read conn_write conn_close web_server ?w2 ?w3"
    by (rule srv_step.visitor_relays [where p = "[7]" and closed = "\<lambda>_. False" and open_stream = "\<lambda>_. Inr ()"])
      (simp_all add: visitor_open_def)
  have r: "(srv_step conn_read conn_write conn_close web_server)\<^sup>*\<^sup>* ?w0 ?w3"
    using 1 2 3 by (meson converse_rtranclp_into_rtranclp r_into_rtranclp)
  have m: "(''web'', 7) \<in> set (w_served ?w3) \<union> set (w_udp_served ?w3)" by simp
  from served_sessions_authenticated [OF r m] r m show ?thesis by (intro exI [of _ ?w3]) simp
qed

text \<open>
  C13. A pool is a fair round robin over its sessions: while they are all open, pick number \<open>k\<close> returns the
  session at position \<open>k\<close> modulo the size of the pool, and none is lost.
\<close>

theorem pool_round_robin:
  assumes "p \<noteq> []" "\<forall>s \<in> set p. \<not> closed s"
  shows "snd (pool_pick closed (((\<lambda>q. fst (pool_pick closed q)) ^^ k) p)) = Some (p ! (k mod length p)) \<and>
    mset (((\<lambda>q. fst (pool_pick closed q)) ^^ k) p) = mset p"
  using tcpq.picks_round_robin [OF assms] tcpq.picks_rotate [OF assms] unfolding tcpq.picks_def by simp

lemma pool_round_robin_witness:
  "snd (pool_pick (\<lambda>_. False) (((\<lambda>q. fst (pool_pick (\<lambda>_. False) q)) ^^ 5) [1, 2, 3])) = Some (3 :: nat)"
  using pool_round_robin [of "[1, 2, 3 :: nat]" "\<lambda>_. False" 5] by simp

text \<open>
  C14. A pick returns an open session whenever the pool has one, of all pools and whatever sessions have
  closed meanwhile; every open session stays in the pool, and the ones it drops are closed.
\<close>

theorem pool_pick_sound:
  "case pool_pick closed p of
     (p', None) \<Rightarrow> p' = [] \<and> (\<forall>s \<in> set p. closed s)
   | (p', Some s) \<Rightarrow> s \<in> set p \<and> \<not> closed s \<and> last p' = s \<and>
       mset (filter (\<lambda>s. \<not> closed s) p') = mset (filter (\<lambda>s. \<not> closed s) p) \<and> set p' \<subseteq> set p"
proof -
  obtain p' r where r: "pool_pick closed p = (p', r)" by (cases "pool_pick closed p")
  show ?thesis
  proof (cases r)
    case None
    with r tcpq.pick_none [of closed p p'] show ?thesis by simp
  next
    case (Some s)
    with r have "pool_pick closed p = (p', Some s)" by simp
    from tcpq.pick_some [OF this] tcpq.pick_keeps_open [OF this] tcpq.pick_subset [OF this] r Some
    show ?thesis by auto
  qed
qed

lemma pool_pick_sound_witness:
  "pool_pick (\<lambda>s. s = 1) [1, 2, 3 :: nat] = ([3, 2], Some 2) \<and> \<not> (2 :: nat) = 1 \<and> (2 :: nat) \<in> set [1, 2, 3]"
  using pool_pick_sound [where closed = "\<lambda>s. s = 1" and p = "[1, 2, 3 :: nat]"] by simp

text \<open>
  C29. A UDP service whose task starts before its first client is dead: with an empty pool the first pass
  of the task never returns, and in no state reachable from there, whatever clients connect, is a UDP
  stream of that service served.
\<close>

theorem udp_service_never_starts:
  assumes "srv_services sc name = Some svc" "effective_type svc = ''udp''" "svc_bind_addr svc \<noteq> []"
    and "w0 = world_init sc" "w1 = w0\<lparr>w_udp := (w_udp w0)(name \<mapsto> Blocked)\<rparr>"
    and "(srv_step rd wr cl sc)\<^sup>*\<^sup>* w1 w"
  shows "srv_step rd wr cl sc w0 w1 \<and> w_udp w name = Some Blocked \<and> (\<forall>s. (name, s) \<notin> set (w_udp_served w))"
proof -
  have u: "w_udp w0 name = Some Looping" "udp_pools (w_pools w0) name = Some []"
    using assms(1-4) by (simp_all add: world_init_def init_pools_def)
  have "(udp_pools (w_pools w0))(name \<mapsto> []) = udp_pools (w_pools w0)" using u(2) by (simp add: fun_upd_idem)
  then have "w1 = w0\<lparr>w_pools := (w_pools w0)\<lparr>udp_pools := (udp_pools (w_pools w0))(name \<mapsto> fst (udp_pool_pick (\<lambda>_. False) []))\<rparr>,
      w_udp := (w_udp w0)(name \<mapsto> Blocked)\<rparr>" using assms(5) by simp
  moreover have "srv_step rd wr cl sc w0 \<dots>" by (rule srv_step.udp_blocks [OF u]) (simp add: udp_pass_def)
  ultimately have "srv_step rd wr cl sc w0 w1" by simp
  moreover have "udp_dead name w1" by (simp add: assms(4,5) udp_dead_def world_init_def)
  ultimately show ?thesis using srv_steps_udp_dead [OF assms(6)] by (simp add: udp_dead_def)
qed

lemma udp_service_never_starts_witness:
  "\<exists>w0 w1. w0 = (world_init web_server :: nat world) \<and> srv_step conn_read conn_write conn_close web_server w0 w1 \<and>
     w_udp w1 ''dns'' = Some Blocked"
proof -
  let ?w0 = "world_init web_server :: nat world"
  have "srv_services web_server ''dns'' = Some (web_service ''udp'')" "effective_type (web_service ''udp'') = ''udp''"
    "svc_bind_addr (web_service ''udp'') \<noteq> []"
    by (simp_all add: web_server_def web_service_def effective_type_def)
  from udp_service_never_starts [OF this, of ?w0, OF refl refl rtranclp.rtrancl_refl] show ?thesis by blast
qed

text \<open>
  C7. What the server answers, for every decision: to a message that arrives on a connection that takes what
  is written, it sends exactly the reply that the decision on it calls for (nothing if it is no request, a
  refusal with its reason, or OK), and the connection stays open only in the last case.
\<close>

theorem server_auth_answers:
  assumes "conn_can_send c" "conn_pending c = encode_message env @ rest" "envelope_ok env" "message_fits env"
    and "\<forall>a. env_auth env = Some a \<longrightarrow> length (ar_service_name a) \<le> 1000000"
  shows "\<exists>c'. (case auth_verdict sc env of
      Inl None \<Rightarrow> server_auth conn_read conn_write conn_close sc c = Some (c', NotAuth) \<and> tx c' = tx c \<and> \<not> opened c'
    | Inl (Some msg) \<Rightarrow> server_auth conn_read conn_write conn_close sc c = Some (c', Refused msg) \<and>
        tx c' = tx c @ encode_message (auth_reply False msg) \<and> \<not> opened c'
    | Inr svc \<Rightarrow> server_auth conn_read conn_write conn_close sc c =
          Some (c', Authenticated (ar_service_name (the (env_auth env))) svc) \<and>
        tx c' = tx c @ encode_message (auth_reply True ''OK'') \<and> opened c')"
proof -
  obtain c1 where c1: "ReadMessage conn_read c = Some (c1, Inr env)" "conn_kept c1 = conn_kept c"
    using tcp.ReadMessage_encoded [OF assms(2,3,4)] by blast
  then have send: "conn_can_send c1" "tx c1 = tx c" using assms(1) by (auto simp: conn_kept_def conn_can_send_def)
  note sa = server_auth_verdict [OF c1(1), of conn_write conn_close sc]
  show ?thesis
  proof (cases "auth_verdict sc env")
    case (Inl m)
    show ?thesis
    proof (cases m)
      case None
      with Inl sa send show ?thesis by (simp add: conn_close_def)
    next
      case (Some msg)
      have "length msg \<le> 2000000"
        using Inl Some assms(5) by (auto simp: auth_verdict_def Let_def split: option.splits if_split_asm)
      from tcpw.WriteMessage_sends [OF send(1) auth_reply_fits [OF this]] obtain c2 where
        "WriteMessage conn_write (auth_reply False msg) c1 = Some (c2, Inr ())"
        "tx c2 = tx c1 @ encode_message (auth_reply False msg)" by blast
      with Inl Some sa send show ?thesis by (simp add: refuse_def sendAuthFail_def conn_close_def)
    qed
  next
    case (Inr svc)
    from tcpw.WriteMessage_sends [OF send(1) auth_reply_fits [of "''OK''" True]] obtain c2 where
      "WriteMessage conn_write (auth_reply True ''OK'') c1 = Some (c2, Inr ())"
      "tx c2 = tx c1 @ encode_message (auth_reply True ''OK'')" "conn_can_send c2" by auto
    with Inr sa send show ?thesis by (auto simp: conn_can_send_def)
  qed
qed

lemma server_auth_answers_witness:
  "\<exists>c'. server_auth conn_read conn_write conn_close web_server
      (idle_conn\<lparr>rx := [encode_message (no_message\<lparr>env_auth := Some (web_auth ''nope'')\<rparr>)]\<rparr>) =
    Some (c', Refused ''unknown service: nope'') \<and> \<not> opened c'"
proof -
  let ?env = "no_message\<lparr>env_auth := Some (web_auth ''nope'')\<rparr>"
  have ok: "envelope_ok ?env" "message_fits ?env"
    using auth_message_length [of "web_auth ''nope''"]
    by (simp_all add: envelope_ok_def no_message_def auth_request_ok_def web_auth_def message_fits_def MaxFrameSize_def web_names_utf8)
  have p: "conn_pending (idle_conn\<lparr>rx := [encode_message ?env]\<rparr>) = encode_message ?env @ []"
    by (simp add: conn_pending_def idle_conn_def)
  have s: "conn_can_send (idle_conn\<lparr>rx := [encode_message ?env]\<rparr>)" by (simp add: conn_can_send_def idle_conn_def)
  have l: "\<forall>a. env_auth ?env = Some a \<longrightarrow> length (ar_service_name a) \<le> 1000000" by (simp add: web_auth_def)
  have v: "auth_verdict web_server ?env = Inl (Some ''unknown service: nope'')"
    by (simp add: auth_verdict_def no_message_def web_auth_def web_server_def)
  from server_auth_answers [OF s p ok l, of web_server] show ?thesis unfolding v by auto
qed

end
