(* ===== verification/AutoCert.thy ===== *)
theory AutoCert
  imports GoNet GoStrings
begin

text \<open>
  \<open>go-core/transport/autocert.go\<close>: the self-signed certificate a TLS server makes for itself. Files are
  a map from paths to contents; what the operating system refuses, the clock, the interfaces, the random
  sources and the codecs of \<open>crypto/x509\<close> and \<open>encoding/pem\<close> are one environment record. Times are
  nanoseconds; a duration is a 64-bit integer, as in Go.
\<close>

type_synonym files = "string \<rightharpoonup> bytes"

record autocert_config =
  ac_CertDir :: string
  ac_Hosts :: "string list"
  ac_ValidDays :: int
  ac_ForceRegen :: bool

record autocert_result =
  CertPath :: string
  KeyPath :: string
  IsNew :: bool

text \<open>The certificate template; an IP address is its bytes.\<close>

record cert_template =
  ct_serial :: int
  ct_organization :: "string list"
  ct_common_name :: string
  ct_not_before :: int
  ct_not_after :: int
  ct_key_usage :: "32 word"
  ct_ext_usage :: "string list"
  ct_ips :: "bytes list"
  ct_dns :: "string list"

text \<open>An interface as \<open>net.Interfaces\<close> reports it, with the textual form of its addresses.\<close>

record ip_addr =
  ip_string :: string
  ip_loopback :: bool

datatype if_addr = IPNet "ip_addr option" | IPAddr "ip_addr option" | OtherAddr

record interface_info =
  if_up :: bool
  if_is_loopback :: bool
  if_addrs :: "io_err + if_addr list"

record 'k cert_env =
  clock :: int
  ifaces :: "io_err + interface_info list"
  parse_ip :: "string \<Rightarrow> bytes option"
  mkdir_err :: "string \<Rightarrow> io_err option"
  open_err :: "string \<Rightarrow> io_err option"
  disk_room :: "string \<Rightarrow> nat option"
  gen_key :: "io_err + 'k"
  gen_serial :: "io_err + int"
  create_cert :: "cert_template \<Rightarrow> 'k \<Rightarrow> io_err + bytes"
  marshal_key :: "'k \<Rightarrow> io_err + bytes"
  pem_encode :: "string \<Rightarrow> bytes \<Rightarrow> bytes"
  pem_decode :: "bytes \<Rightarrow> bytes option"
  cert_not_after :: "bytes \<Rightarrow> int option"

subsection \<open>Paths\<close>

text \<open>\<open>filepath.Join\<close> of two elements: \<open>filepath.Clean\<close> of what joins them, empty ones ignored.\<close>

fun clean_parts :: "bool \<Rightarrow> string list \<Rightarrow> string list \<Rightarrow> string list" where
  "clean_parts rooted acc [] = rev acc"
| "clean_parts rooted acc (p # ps) =
    (if p = [] \<or> p = ''.'' then clean_parts rooted acc ps
     else if p = ''..'' then
       (case acc of
         [] \<Rightarrow> clean_parts rooted (if rooted then [] else [''..'']) ps
       | a # as \<Rightarrow> clean_parts rooted (if a = ''..'' then ''..'' # acc else as) ps)
     else clean_parts rooted (p # acc) ps)"

fun join_with :: "string \<Rightarrow> string list \<Rightarrow> string" where
  "join_with sep [] = []"
| "join_with sep [p] = p"
| "join_with sep (p # q # ps) = p @ sep @ join_with sep (q # ps)"

definition Clean :: "string \<Rightarrow> string" where
  "Clean path =
    (let rooted = HasPrefix path ''/'';
         s = (if rooted then ''/'' else []) @ join_with ''/'' (clean_parts rooted [] (Split path ''/''))
     in if s = [] then ''.'' else s)"

definition Join :: "string \<Rightarrow> string \<Rightarrow> string" where
  "Join a b = (if a = [] \<and> b = [] then [] else if a = [] then Clean b else Clean (a @ ''/'' @ b))"

subsection \<open>The operations\<close>

definition fileExists :: "files \<Rightarrow> string \<Rightarrow> bool" where
  "fileExists fs path \<longleftrightarrow> fs path \<noteq> None"

definition day :: int where
  "day = 24 * 3600 * 10 ^ 9"

text \<open>\<open>time.Duration(days) * 24 * time.Hour\<close>\<close>

definition days_duration :: "int \<Rightarrow> int" where
  "days_duration days = mul64 days day"

definition isCertValid :: "'k cert_env \<Rightarrow> files \<Rightarrow> string \<Rightarrow> bool" where
  "isCertValid env fs certPath =
    (case fs certPath of
      None \<Rightarrow> False
    | Some data \<Rightarrow> (case pem_decode env data of
        None \<Rightarrow> False
      | Some der \<Rightarrow> (case cert_not_after env der of
          None \<Rightarrow> False
        | Some notAfter \<Rightarrow> clock env + 30 * day < notAfter)))"

fun iface_hosts :: "if_addr list \<Rightarrow> string list" where
  "iface_hosts [] = []"
| "iface_hosts (a # as) =
    (case (case a of IPNet ip \<Rightarrow> ip | IPAddr ip \<Rightarrow> ip | OtherAddr \<Rightarrow> None) of
      Some ip \<Rightarrow> (if ip_loopback ip then [] else [ip_string ip])
    | None \<Rightarrow> []) @ iface_hosts as"

definition detectLocalHosts :: "'k cert_env \<Rightarrow> string list" where
  "detectLocalHosts env =
    [''localhost'', ''127.0.0.1'', ''::1''] @
    (case ifaces env of
      Inl _ \<Rightarrow> []
    | Inr is \<Rightarrow> concat (map (\<lambda>i.
        if \<not> if_up i \<or> if_is_loopback i then []
        else case if_addrs i of Inl _ \<Rightarrow> [] | Inr as \<Rightarrow> iface_hosts as) is))"

text \<open>\<open>os.OpenFile\<close> with truncation, then \<open>pem.Encode\<close> into the file: a write that fails leaves what was written.\<close>

definition write_pem :: "'k cert_env \<Rightarrow> string \<Rightarrow> string \<Rightarrow> string \<Rightarrow> bytes \<Rightarrow> files \<Rightarrow> files \<times> io_err option" where
  "write_pem env what path ty der fs =
    (case open_err env path of
      Some e \<Rightarrow> (fs, Some (Wrapped (''write '' @ what) e))
    | None \<Rightarrow>
        (let text = pem_encode env ty der in
         case disk_room env path of
           Some r \<Rightarrow>
             if r < length text
             then (fs(path \<mapsto> take r text), Some (Wrapped (''encode '' @ what @ '' PEM'') ErrNet))
             else (fs(path \<mapsto> text), None)
         | None \<Rightarrow> (fs(path \<mapsto> text), None)))"

definition cert_template_for :: "'k cert_env \<Rightarrow> int \<Rightarrow> string list \<Rightarrow> int \<Rightarrow> cert_template" where
  "cert_template_for env serial hosts validDays =
    \<lparr>ct_serial = serial, ct_organization = [''RatholePro''], ct_common_name = ''RatholePro Auto-Generated'',
     ct_not_before = clock env, ct_not_after = clock env + days_duration validDays,
     ct_key_usage = 4 OR 1, ct_ext_usage = [''ServerAuth'', ''ClientAuth''],
     ct_ips = List.map_filter (parse_ip env) hosts, ct_dns = filter (\<lambda>h. parse_ip env h = None) hosts\<rparr>"

definition generateSelfSigned ::
  "'k cert_env \<Rightarrow> string \<Rightarrow> string \<Rightarrow> string list \<Rightarrow> int \<Rightarrow> files \<Rightarrow> files \<times> io_err option" where
  "generateSelfSigned env certPath keyPath hosts validDays fs =
    (case gen_key env of
      Inl e \<Rightarrow> (fs, Some (Wrapped ''generate key'' e))
    | Inr key \<Rightarrow> (case gen_serial env of
        Inl e \<Rightarrow> (fs, Some (Wrapped ''generate serial'' e))
      | Inr serial \<Rightarrow> (case create_cert env (cert_template_for env serial hosts validDays) key of
          Inl e \<Rightarrow> (fs, Some (Wrapped ''create certificate'' e))
        | Inr der \<Rightarrow> (case write_pem env ''cert'' certPath ''CERTIFICATE'' der fs of
            (fs1, Some e) \<Rightarrow> (fs1, Some e)
          | (fs1, None) \<Rightarrow> (case marshal_key env key of
              Inl e \<Rightarrow> (fs1, Some (Wrapped ''marshal key'' e))
            | Inr k \<Rightarrow> write_pem env ''key'' keyPath ''EC PRIVATE KEY'' k fs1)))))"

definition autocert_defaults :: "'k cert_env \<Rightarrow> autocert_config option \<Rightarrow> autocert_config" where
  "autocert_defaults env c =
    (let cfg = (case c of None \<Rightarrow> \<lparr>ac_CertDir = [], ac_Hosts = [], ac_ValidDays = 0, ac_ForceRegen = False\<rparr>
        | Some x \<Rightarrow> x)
     in \<lparr>ac_CertDir = (if ac_CertDir cfg = [] then ''certs'' else ac_CertDir cfg),
         ac_Hosts = (if ac_Hosts cfg = [] then detectLocalHosts env else ac_Hosts cfg),
         ac_ValidDays = (if ac_ValidDays cfg \<le> 0 then 365 * 3 else ac_ValidDays cfg),
         ac_ForceRegen = ac_ForceRegen cfg\<rparr>)"

definition EnsureCert ::
  "'k cert_env \<Rightarrow> autocert_config option \<Rightarrow> files \<Rightarrow> files \<times> (io_err + autocert_result)" where
  "EnsureCert env c fs =
    (let cfg = autocert_defaults env c;
         certPath = Join (ac_CertDir cfg) ''rathole-pro.crt'';
         keyPath = Join (ac_CertDir cfg) ''rathole-pro.key''
     in if \<not> ac_ForceRegen cfg \<and> fileExists fs certPath \<and> fileExists fs keyPath \<and> isCertValid env fs certPath
        then (fs, Inr \<lparr>CertPath = certPath, KeyPath = keyPath, IsNew = False\<rparr>)
        else (case mkdir_err env (ac_CertDir cfg) of
          Some e \<Rightarrow> (fs, Inl (Wrapped ''create cert dir'' e))
        | None \<Rightarrow> (case generateSelfSigned env certPath keyPath (ac_Hosts cfg) (ac_ValidDays cfg) fs of
            (fs', Some e) \<Rightarrow> (fs', Inl e)
          | (fs', None) \<Rightarrow> (fs', Inr \<lparr>CertPath = certPath, KeyPath = keyPath, IsNew = True\<rparr>))))"

subsection \<open>Lemmas\<close>

lemma cuts_none: "x \<notin> set n \<Longrightarrow> cuts k [x] n = [n]"
proof -
  assume "x \<notin> set n"
  then have "cut [x] n = None" by (simp add: cut_char_None)
  then show ?thesis by (cases k) simp_all
qed

lemma suffix_unique: "suffix a s \<Longrightarrow> suffix b s \<Longrightarrow> length a = length b \<Longrightarrow> a = b"
  by (auto simp: suffix_def)

lemma cuts_last:
  "CHR ''/'' \<notin> set n \<Longrightarrow> length a < k \<Longrightarrow> \<exists>ps. cuts k ''/'' (a @ CHR ''/'' # n) = ps @ [n]"
proof (induction k arbitrary: a)
  case (Suc k)
  show ?case
  proof (cases "CHR ''/'' \<in> set a")
    case True
    then obtain a1 a2 where a: "a = a1 @ CHR ''/'' # a2" "CHR ''/'' \<notin> set a1" by (metis split_list_first)
    from Suc.IH [OF Suc.prems(1), of a2] Suc.prems(2) a(1) obtain ps where
      "cuts k ''/'' (a2 @ CHR ''/'' # n) = ps @ [n]" by auto
    with a show ?thesis by (auto simp: cut_char)
  next
    case False
    moreover have "cuts k ''/'' n = [n]" using Suc.prems(1) by (rule cuts_none)
    ultimately show ?thesis by (auto simp: cut_char)
  qed
qed simp

lemma clean_parts_snoc:
  "n \<noteq> [] \<Longrightarrow> n \<noteq> ''.'' \<Longrightarrow> n \<noteq> ''..'' \<Longrightarrow> \<exists>qs. clean_parts r acc (ps @ [n]) = qs @ [n]"
  by (induction ps arbitrary: acc) (auto split: list.split)

lemma join_with_snoc: "suffix n (join_with sep (qs @ [n]))"
proof (induction qs rule: join_with.induct [of _ sep])
  case (3 sep p q ps)
  then show ?case by (auto simp: suffix_def)
qed (auto simp: suffix_def)

lemma Join_suffix:
  assumes "CHR ''/'' \<notin> set n" "n \<noteq> []" "n \<noteq> ''.''" "n \<noteq> ''..''"
  shows "suffix n (Join d n)"
proof -
  have clean: "suffix n (Clean p)" if split: "Split p ''/'' = ps @ [n]" for p ps
  proof -
    obtain qs where "clean_parts (HasPrefix p ''/'') [] (ps @ [n]) = qs @ [n]"
      using clean_parts_snoc [OF assms(2-4)] by blast
    moreover have "suffix n ((if r then ''/'' else []) @ join_with ''/'' (qs @ [n]))" for r
      using join_with_snoc by (rule suffix_appendI)
    moreover from this [of "HasPrefix p ''/''"] assms(2)
    have "(if HasPrefix p ''/'' then ''/'' else []) @ join_with ''/'' (qs @ [n]) \<noteq> []" by (auto simp: suffix_def)
    ultimately show ?thesis by (simp only: Clean_def split Let_def if_False)
  qed
  show ?thesis
  proof (cases "d = []")
    case True
    have "Split n ''/'' = [] @ [n]" using cuts_none [OF assms(1)] by (simp add: Split_def)
    from clean [OF this] True assms(2) show ?thesis by (simp add: Join_def)
  next
    case False
    have "length d < length (d @ CHR ''/'' # n)" by simp
    from cuts_last [OF assms(1) this] obtain ps where "Split (d @ ''/'' @ n) ''/'' = ps @ [n]"
      by (auto simp: Split_def)
    from clean [OF this] False show ?thesis by (simp add: Join_def)
  qed
qed

lemma cert_key_paths: "Join d ''rathole-pro.crt'' \<noteq> Join d ''rathole-pro.key''"
proof
  assume e: "Join d ''rathole-pro.crt'' = Join d ''rathole-pro.key''"
  have "suffix ''rathole-pro.crt'' (Join d ''rathole-pro.crt'')" "suffix ''rathole-pro.key'' (Join d ''rathole-pro.key'')"
    by (rule Join_suffix; simp)+
  with e have "''rathole-pro.crt'' = ''rathole-pro.key''" by (intro suffix_unique) simp_all
  then show False by simp
qed

lemma write_pem_ok:
  "write_pem env what path ty der fs = (fs', None) \<Longrightarrow> fs' = fs(path \<mapsto> pem_encode env ty der)"
  by (auto simp: write_pem_def Let_def split: option.splits if_splits)

lemma generateSelfSigned_ok:
  assumes "generateSelfSigned env cp kp hosts days fs = (fs', None)"
  obtains key serial der k where "gen_key env = Inr key" "create_cert env (cert_template_for env serial hosts days) key = Inr der"
    "marshal_key env key = Inr k"
    "fs' = fs(cp \<mapsto> pem_encode env ''CERTIFICATE'' der, kp \<mapsto> pem_encode env ''EC PRIVATE KEY'' k)"
  using assms
  by (auto simp: generateSelfSigned_def split: sum.splits prod.splits option.splits dest!: write_pem_ok)

text \<open>The duration is exact as long as it fits 64 bits: up to 106751 days.\<close>

lemma days_duration_exact: "0 \<le> days \<Longrightarrow> days \<le> 106751 \<Longrightarrow> days_duration days = days * day"
  unfolding days_duration_def by (rule mul64_exact) (simp_all add: day_def)

text \<open>What the code relies on of the codecs: PEM keeps the bytes, a certificate its end to the second.\<close>

definition codecs_ok :: "'k cert_env \<Rightarrow> bool" where
  "codecs_ok env \<longleftrightarrow> (\<forall>ty b. pem_decode env (pem_encode env ty b) = Some b) \<and>
     (\<forall>t key der. create_cert env t key = Inr der \<longrightarrow>
        cert_not_after env der = Some (ct_not_after t div 10 ^ 9 * 10 ^ 9))"

lemma codecs_not_after:
  "codecs_ok env \<Longrightarrow> create_cert env t key = Inr der \<Longrightarrow>
    pem_decode env (pem_encode env ty der) = Some der \<and> cert_not_after env der = Some (ct_not_after t div 10 ^ 9 * 10 ^ 9)"
  by (simp add: codecs_ok_def)

lemma fresh_cert_valid:
  assumes "codecs_ok env" "create_cert env (cert_template_for env serial hosts days) key = Inr der"
    and "30 < days" "days \<le> 106751" "fs path = Some (pem_encode env ty der)"
  shows "isCertValid env fs path"
proof -
  have d: "days_duration days = days * day" using assms(3,4) by (intro days_duration_exact) simp_all
  have "31 * day \<le> days * day" using assms(3) by (simp add: day_def)
  then have "clock env + 30 * day < (clock env + days * day) div 10 ^ 9 * 10 ^ 9"
    by (simp add: day_def)
  with codecs_not_after [OF assms(1,2)] assms(5) d show ?thesis
    by (simp add: isCertValid_def cert_template_for_def)
qed

text \<open>What a successful \<open>EnsureCert\<close> leaves behind.\<close>

lemma EnsureCert_ok:
  assumes "EnsureCert env c fs = (fs', Inr r)"
  shows "CertPath r = Join (ac_CertDir (autocert_defaults env c)) ''rathole-pro.crt''"
    "KeyPath r = Join (ac_CertDir (autocert_defaults env c)) ''rathole-pro.key''"
    "IsNew r \<Longrightarrow> generateSelfSigned env (CertPath r) (KeyPath r) (ac_Hosts (autocert_defaults env c))
       (ac_ValidDays (autocert_defaults env c)) fs = (fs', None)"
    "\<not> IsNew r \<Longrightarrow> fs' = fs \<and> fileExists fs (CertPath r) \<and> fileExists fs (KeyPath r) \<and> isCertValid env fs (CertPath r)"
  using assms by (auto simp: EnsureCert_def Let_def split: if_split_asm option.splits prod.splits)

subsection \<open>Properties\<close>

text \<open>
  C15. A successful \<open>EnsureCert\<close> gives a server what it needs, and asking again changes nothing: both files
  exist, the certificate has more than 30 days to run, and a second call without \<open>ForceRegen\<close> finds them,
  generates nothing and returns the same paths. The validity has to be over 30 days, which the code
  takes for expired, and its nanoseconds have to fit 64 bits.
\<close>

theorem EnsureCert_stable:
  assumes "EnsureCert env c fs = (fs', Inr r)" "codecs_ok env"
    and "30 < ac_ValidDays (autocert_defaults env c)" "ac_ValidDays (autocert_defaults env c) \<le> 106751"
    and "\<not> ac_ForceRegen (autocert_defaults env c)"
  shows "fileExists fs' (CertPath r) \<and> fileExists fs' (KeyPath r) \<and> isCertValid env fs' (CertPath r) \<and>
    EnsureCert env c fs' = (fs', Inr (r\<lparr>IsNew := False\<rparr>))"
proof -
  note ok = EnsureCert_ok [OF assms(1)]
  have "fileExists fs' (CertPath r) \<and> fileExists fs' (KeyPath r) \<and> isCertValid env fs' (CertPath r)"
  proof (cases "IsNew r")
    case True
    from generateSelfSigned_ok [OF ok(3) [OF True]] obtain key serial der k where
      g: "create_cert env (cert_template_for env serial (ac_Hosts (autocert_defaults env c))
        (ac_ValidDays (autocert_defaults env c))) key = Inr der"
      "fs' = fs(CertPath r \<mapsto> pem_encode env ''CERTIFICATE'' der, KeyPath r \<mapsto> pem_encode env ''EC PRIVATE KEY'' k)"
      by metis
    have "CertPath r \<noteq> KeyPath r" unfolding ok(1,2) by (rule cert_key_paths)
    with g have "fs' (CertPath r) = Some (pem_encode env ''CERTIFICATE'' der)" "fs' (KeyPath r) \<noteq> None" by simp_all
    with fresh_cert_valid [OF assms(2) g(1) assms(3,4), of fs' "CertPath r" "''CERTIFICATE''"] show ?thesis by (simp add: fileExists_def)
  qed (use ok(4) in simp)
  with ok(1,2) assms(5) show ?thesis by (cases r) (simp add: EnsureCert_def Let_def)
qed

definition sample_cert_env :: "nat cert_env" where
  "sample_cert_env = \<lparr>clock = 0, ifaces = Inr [\<lparr>if_up = True, if_is_loopback = False,
       if_addrs = Inr [IPNet (Some \<lparr>ip_string = ''10.0.0.1'', ip_loopback = False\<rparr>)]\<rparr>],
     parse_ip = (\<lambda>_. None), mkdir_err = (\<lambda>_. None), open_err = (\<lambda>_. None), disk_room = (\<lambda>_. None),
     gen_key = Inr 5, gen_serial = Inr 7, 
     create_cert = (\<lambda>t k. let s = ct_not_after t div 10 ^ 9 in
       if 0 \<le> s \<and> s < 2 ^ 40 then Inr (put_be 5 (nat s)) else Inl ErrNet),
     marshal_key = (\<lambda>k. Inr [of_nat k]), pem_encode = (\<lambda>_ b. 1 # b),
     pem_decode = (\<lambda>b. if b = [] then None else Some (tl b)),
     cert_not_after = (\<lambda>b. Some (int (get_be b) * 10 ^ 9))\<rparr>"

lemma sample_cert_env_ok: "codecs_ok sample_cert_env"
  by (auto simp: codecs_ok_def sample_cert_env_def Let_def split: if_split_asm)

lemma EnsureCert_stable_witness:
  "\<exists>fs. EnsureCert sample_cert_env None Map.empty =
      (fs, Inr \<lparr>CertPath = ''certs/rathole-pro.crt'', KeyPath = ''certs/rathole-pro.key'', IsNew = True\<rparr>) \<and>
    isCertValid sample_cert_env fs ''certs/rathole-pro.crt''"
proof -
  let ?r = "\<lparr>CertPath = ''certs/rathole-pro.crt'', KeyPath = ''certs/rathole-pro.key'', IsNew = True\<rparr>"
  have j: "Join ''certs'' ''rathole-pro.crt'' = ''certs/rathole-pro.crt''"
    "Join ''certs'' ''rathole-pro.key'' = ''certs/rathole-pro.key''" by code_simp+
  have d: "days_duration 1095 = 1095 * day" by (rule days_duration_exact) simp_all
  obtain fs where e: "EnsureCert sample_cert_env None Map.empty = (fs, Inr ?r)"
    by (simp add: EnsureCert_def autocert_defaults_def j fileExists_def sample_cert_env_def generateSelfSigned_def
        write_pem_def cert_template_for_def d day_def Let_def)
  have "30 < ac_ValidDays (autocert_defaults sample_cert_env None)" "ac_ValidDays (autocert_defaults sample_cert_env None) \<le> 106751"
    "\<not> ac_ForceRegen (autocert_defaults sample_cert_env None)" by (simp_all add: autocert_defaults_def)
  from EnsureCert_stable [OF e sample_cert_env_ok this] e show ?thesis by auto
qed

text \<open>
  C38. The two files are not replaced together. When an expired pair is renewed and the key file cannot be
  written, the call fails with the new certificate in place beside the old key; from then on, while that
  certificate is fresh, every call reports this pair as the existing certificate, even when the key file
  is writable again.
\<close>

theorem EnsureCert_mixed_pair:
  assumes "codecs_ok env" "ac_CertDir (autocert_defaults env c) = dir"
    and "cp = Join dir ''rathole-pro.crt''" "kp = Join dir ''rathole-pro.key''"
    and "fs cp = Some old_cert" "fs kp = Some old_key" "\<not> isCertValid env fs cp"
    and "gen_key env = Inr key" "gen_serial env = Inr serial" "marshal_key env key = Inr k"
    and "create_cert env (cert_template_for env serial (ac_Hosts (autocert_defaults env c))
      (ac_ValidDays (autocert_defaults env c))) key = Inr der"
    and "mkdir_err env dir = None" "open_err env cp = None" "disk_room env cp = None" "open_err env kp = Some e"
    and "30 < ac_ValidDays (autocert_defaults env c)" "ac_ValidDays (autocert_defaults env c) \<le> 106751"
    and "\<not> ac_ForceRegen (autocert_defaults env c)"
  shows "\<exists>fs'. EnsureCert env c fs = (fs', Inl (Wrapped ''write key'' e)) \<and>
    fs' cp = Some (pem_encode env ''CERTIFICATE'' der) \<and> fs' kp = Some old_key \<and>
    EnsureCert (env\<lparr>open_err := \<lambda>_. None\<rparr>) c fs' = (fs', Inr \<lparr>CertPath = cp, KeyPath = kp, IsNew = False\<rparr>)"
proof -
  let ?fs = "fs(cp \<mapsto> pem_encode env ''CERTIFICATE'' der)"
  have ne: "cp \<noteq> kp" unfolding assms(3,4) by (rule cert_key_paths)
  have "generateSelfSigned env cp kp (ac_Hosts (autocert_defaults env c)) (ac_ValidDays (autocert_defaults env c)) fs =
      (?fs, Some (Wrapped ''write key'' e))"
    using assms(8-15) by (simp add: generateSelfSigned_def write_pem_def)
  with assms(2-7,12) have 1: "EnsureCert env c fs = (?fs, Inl (Wrapped ''write key'' e))"
    by (simp add: EnsureCert_def Let_def)
  let ?env = "env\<lparr>open_err := \<lambda>_. None\<rparr>"
  have "isCertValid env ?fs cp"
    using fresh_cert_valid [OF assms(1,11,16,17), of ?fs cp "''CERTIFICATE''"] by simp
  then have "isCertValid ?env ?fs cp" by (auto simp: isCertValid_def split: option.splits)
  moreover have "autocert_defaults ?env c = autocert_defaults env c"
    by (simp add: autocert_defaults_def detectLocalHosts_def Let_def)
  ultimately have "EnsureCert ?env c ?fs = (?fs, Inr \<lparr>CertPath = cp, KeyPath = kp, IsNew = False\<rparr>)"
    using assms(2-6,18) by (simp add: EnsureCert_def Let_def fileExists_def)
  with 1 ne assms(6) show ?thesis by (intro exI [of _ ?fs]) simp
qed

lemma EnsureCert_mixed_pair_witness:
  "\<exists>fs'. EnsureCert (sample_cert_env\<lparr>open_err := (\<lambda>p. if p = ''certs/rathole-pro.key'' then Some ErrNet else None)\<rparr>) None
      [''certs/rathole-pro.crt'' \<mapsto> [], ''certs/rathole-pro.key'' \<mapsto> [9]] = (fs', Inl (Wrapped ''write key'' ErrNet)) \<and>
    fs' ''certs/rathole-pro.key'' = Some [9] \<and> isCertValid sample_cert_env fs' ''certs/rathole-pro.crt''"
proof -
  let ?cp = "''certs/rathole-pro.crt''" and ?kp = "''certs/rathole-pro.key''"
  let ?env = "sample_cert_env\<lparr>open_err := (\<lambda>p. if p = ?kp then Some ErrNet else None)\<rparr>"
  let ?fs = "[?cp \<mapsto> [], ?kp \<mapsto> [9 :: byte]]"
  have j: "Join ''certs'' ''rathole-pro.crt'' = ?cp" "Join ''certs'' ''rathole-pro.key'' = ?kp" by code_simp+
  have d: "days_duration 1095 = 1095 * day" by (rule days_duration_exact) simp_all
  have a: "codecs_ok ?env" "ac_CertDir (autocert_defaults ?env None) = ''certs''"
    "?fs ?cp = Some []" "?fs ?kp = Some [9]" "\<not> isCertValid ?env ?fs ?cp"
    "gen_key ?env = Inr 5" "gen_serial ?env = Inr 7" "marshal_key ?env 5 = Inr [5]"
    "create_cert ?env (cert_template_for ?env 7 (ac_Hosts (autocert_defaults ?env None))
      (ac_ValidDays (autocert_defaults ?env None))) 5 = Inr (put_be 5 94608000)"
    "mkdir_err ?env ''certs'' = None" "open_err ?env ?cp = None" "disk_room ?env ?cp = None" "open_err ?env ?kp = Some ErrNet"
    "30 < ac_ValidDays (autocert_defaults ?env None)" "ac_ValidDays (autocert_defaults ?env None) \<le> 106751"
    "\<not> ac_ForceRegen (autocert_defaults ?env None)"
    using sample_cert_env_ok
    by (simp_all add: codecs_ok_def autocert_defaults_def isCertValid_def sample_cert_env_def cert_template_for_def d day_def Let_def)
  from EnsureCert_mixed_pair [OF a(1,2) j(1) [symmetric] j(2) [symmetric] a(3-16)] obtain fs' where
    fs': "EnsureCert ?env None ?fs = (fs', Inl (Wrapped ''write key'' ErrNet))" "fs' ?kp = Some [9]"
    "EnsureCert (?env\<lparr>open_err := \<lambda>_. None\<rparr>) None fs' = (fs', Inr \<lparr>CertPath = ?cp, KeyPath = ?kp, IsNew = False\<rparr>)"
    by blast
  have "isCertValid sample_cert_env fs' ?cp"
    using EnsureCert_ok(4) [OF fs'(3)] by (simp add: isCertValid_def sample_cert_env_def)
  with fs' show ?thesis by blast
qed

end
