(* ===== verification/Transport.thy ===== *)
theory Transport
  imports AutoCert Config
begin

text \<open>
  \<open>go-core/transport/transport.go\<close>: listeners and dialers per transport. The network and what
  \<open>crypto/tls\<close> does with a configuration are an environment: whether an address can be listened on, the
  connection a dial gives, the key pair two files hold, the certificate pool of a PEM text. A listener is
  its address with, for TLS, the key pair and the minimum version; a TLS connection, once dialed, is a
  connection like any other.
\<close>

record 'p tls_client =
  tc_MinVersion :: nat
  tc_ServerName :: string
  tc_RootCAs :: "'p option"
  tc_InsecureSkipVerify :: bool

datatype 'q listener = Listening string "('q \<times> nat) option"

record ('k, 'p, 'q) net_env =
  cert_env :: "'k cert_env"
  listen_err :: "string \<Rightarrow> io_err option"
  tcp_dial :: "string \<Rightarrow> int \<Rightarrow> io_err + conn"
  tls_dial :: "'p tls_client \<Rightarrow> string \<Rightarrow> int \<Rightarrow> io_err + conn"
  key_pair :: "bytes \<Rightarrow> bytes \<Rightarrow> io_err + 'q"
  cert_pool :: "bytes \<Rightarrow> 'p option"

definition VersionTLS12 :: nat where
  "VersionTLS12 = 0x0303"

definition read_file :: "files \<Rightarrow> string \<Rightarrow> io_err + bytes" where
  "read_file fs path = (case fs path of None \<Rightarrow> Inl (Errorf ''no such file or directory'') | Some b \<Rightarrow> Inr b)"

definition ListenTCP :: "('k, 'p, 'q) net_env \<Rightarrow> string \<Rightarrow> io_err + 'q listener" where
  "ListenTCP env addr = (case listen_err env addr of Some e \<Rightarrow> Inl e | None \<Rightarrow> Inr (Listening addr None))"

definition DialTCP :: "('k, 'p, 'q) net_env \<Rightarrow> string \<Rightarrow> int \<Rightarrow> io_err + conn" where
  "DialTCP env addr timeout = tcp_dial env addr timeout"

text \<open>The certificate and key files of a TLS server: the configured ones, or those \<open>EnsureCert\<close> makes.\<close>

definition tls_files :: "('k, 'p, 'q) net_env \<Rightarrow> tls_config \<Rightarrow> files \<Rightarrow> files \<times> (io_err + string \<times> string)" where
  "tls_files env cfg fs =
    (if AutoCert cfg then
       (case EnsureCert (cert_env env) (Some \<lparr>ac_CertDir = CertDir cfg, ac_Hosts = Hosts cfg, ac_ValidDays = 0,
           ac_ForceRegen = False\<rparr>) fs of
         (fs', Inl e) \<Rightarrow> (fs', Inl (Wrapped ''auto-cert'' e))
       | (fs', Inr r) \<Rightarrow> (fs', Inr (CertPath r, KeyPath r)))
     else (fs, Inr (TrustedRoot cfg, PKCS12 cfg)))"

definition LoadX509KeyPair :: "('k, 'p, 'q) net_env \<Rightarrow> files \<Rightarrow> string \<Rightarrow> string \<Rightarrow> io_err + 'q" where
  "LoadX509KeyPair env fs certFile keyFile =
    (case read_file fs certFile of
      Inl e \<Rightarrow> Inl e
    | Inr c \<Rightarrow> (case read_file fs keyFile of Inl e \<Rightarrow> Inl e | Inr k \<Rightarrow> key_pair env c k))"

definition ListenTLS ::
  "('k, 'p, 'q) net_env \<Rightarrow> string \<Rightarrow> tls_config option \<Rightarrow> files \<Rightarrow> files \<times> (io_err + 'q listener)" where
  "ListenTLS env addr c fs =
    (case c of
      None \<Rightarrow> (fs, Inl (Errorf ''TLS config is nil''))
    | Some cfg \<Rightarrow> (case tls_files env cfg fs of
        (fs1, Inl e) \<Rightarrow> (fs1, Inl e)
      | (fs1, Inr (certFile, keyFile)) \<Rightarrow>
          if certFile = [] \<or> keyFile = []
          then (fs1, Inl (Errorf ''TLS requires cert and key paths (or set auto_cert = true)''))
          else (case LoadX509KeyPair env fs1 certFile keyFile of
            Inl e \<Rightarrow> (fs1, Inl (Wrapped ''load TLS cert/key'' e))
          | Inr cert \<Rightarrow> (case listen_err env addr of
              Some e \<Rightarrow> (fs1, Inl e)
            | None \<Rightarrow> (fs1, Inr (Listening addr (Some (cert, VersionTLS12))))))))"

definition DialTLS ::
  "('k, 'p, 'q) net_env \<Rightarrow> string \<Rightarrow> tls_config option \<Rightarrow> int \<Rightarrow> files \<Rightarrow> io_err + conn" where
  "DialTLS env addr c timeout fs =
    (case c of
      None \<Rightarrow> Inl (Errorf ''TLS config is nil'')
    | Some cfg \<Rightarrow>
        (let t = \<lparr>tc_MinVersion = VersionTLS12, tc_ServerName = Hostname cfg, tc_RootCAs = None,
             tc_InsecureSkipVerify = False\<rparr>
         in if TrustedRoot cfg \<noteq> [] then
              (case read_file fs (TrustedRoot cfg) of
                Inl e \<Rightarrow> Inl (Wrapped ''read CA cert'' e)
              | Inr caCert \<Rightarrow> (case cert_pool env caCert of
                  None \<Rightarrow> Inl (Errorf ''failed to parse CA cert'')
                | Some pool \<Rightarrow> tls_dial env (t\<lparr>tc_RootCAs := Some pool\<rparr>) addr timeout))
            else tls_dial env (t\<lparr>tc_InsecureSkipVerify := True\<rparr>) addr timeout))"

definition tls_section :: "transport_config option \<Rightarrow> tls_config option" where
  "tls_section t = (case t of None \<Rightarrow> None | Some c \<Rightarrow> TLS c)"

definition ServerListen ::
  "('k, 'p, 'q) net_env \<Rightarrow> string \<Rightarrow> transport_config option \<Rightarrow> files \<Rightarrow> files \<times> (io_err + 'q listener)" where
  "ServerListen env addr t fs =
    (let typ = GetTransportType t in
     if typ = ''tcp'' \<or> typ = ''ws'' then (fs, ListenTCP env addr)
     else if typ = ''tls'' then
       (if tls_section t = None then (fs, Inl (Errorf ''TLS transport requires [transport.tls] config''))
        else ListenTLS env addr (tls_section t) fs)
     else if typ = ''noise'' then (fs, ListenTCP env addr)
     else (fs, Inl (Errorf (''unknown transport type: '' @ typ))))"

definition ClientDial ::
  "('k, 'p, 'q) net_env \<Rightarrow> string \<Rightarrow> transport_config option \<Rightarrow> int \<Rightarrow> files \<Rightarrow> io_err + conn" where
  "ClientDial env addr t timeout fs =
    (let typ = GetTransportType t in
     if typ = ''tcp'' \<or> typ = ''ws'' then DialTCP env addr timeout
     else if typ = ''tls'' then
       (if tls_section t = None then Inl (Errorf ''TLS transport requires [transport.tls] config'')
        else DialTLS env addr (tls_section t) timeout fs)
     else if typ = ''noise'' then DialTCP env addr timeout
     else Inl (Errorf (''unknown transport type: '' @ typ)))"

subsection \<open>Lemmas\<close>

lemma ListenTLS_Inr:
  "ListenTLS env addr c fs = (fs', Inr (Listening a tls)) \<Longrightarrow>
    a = addr \<and> (\<exists>cert. tls = Some (cert, VersionTLS12))"
  by (auto simp: ListenTLS_def split: option.splits prod.splits sum.splits if_splits)

lemma ListenTCP_Inr: "ListenTCP env addr = Inr (Listening a tls) \<Longrightarrow> a = addr \<and> tls = None"
  by (auto simp: ListenTCP_def split: option.splits)

lemma DialTLS_uses_tls: "DialTLS env addr c timeout fs = Inr conn \<Longrightarrow> \<exists>t. tls_dial env t addr timeout = Inr conn"
  by (auto simp: DialTLS_def Let_def split: option.splits sum.splits if_splits)

subsection \<open>Properties\<close>

text \<open>
  C24. A server and a client with the same transport type speak the same protocol on the wire: a listener
  is a TLS one, of version 1.2 at least, exactly for the type \<open>tls\<close>, and the client then dials with TLS
  and in every other case without.
\<close>

theorem transports_agree:
  assumes "ServerListen env addr t fs = (fs', Inr (Listening a tls))"
    and "ClientDial env2 addr2 t2 timeout fs2 = Inr c" "GetTransportType t2 = GetTransportType t"
  shows "a = addr \<and> (tls \<noteq> None \<longleftrightarrow> GetTransportType t = ''tls'') \<and>
    (case tls of
      None \<Rightarrow> tcp_dial env2 addr2 timeout = Inr c
    | Some (cert, minVersion) \<Rightarrow> VersionTLS12 \<le> minVersion \<and> (\<exists>cfg. tls_dial env2 cfg addr2 timeout = Inr c))"
proof (cases "GetTransportType t = ''tls''")
  case True
  with assms obtain "ListenTLS env addr (tls_section t) fs = (fs', Inr (Listening a tls))"
    "DialTLS env2 addr2 (tls_section t2) timeout fs2 = Inr c"
    by (auto simp: ServerListen_def ClientDial_def Let_def split: if_split_asm)
  with ListenTLS_Inr DialTLS_uses_tls True show ?thesis by fastforce
next
  case False
  with assms obtain "ListenTCP env addr = Inr (Listening a tls)" "tcp_dial env2 addr2 timeout = Inr c"
    by (auto simp: ServerListen_def ClientDial_def DialTCP_def Let_def split: if_split_asm)
  with ListenTCP_Inr False show ?thesis by fastforce
qed

definition sample_net :: "(nat, bytes, bytes \<times> bytes) net_env" where
  "sample_net = \<lparr>cert_env = sample_cert_env, listen_err = (\<lambda>_. None), tcp_dial = (\<lambda>_ _. Inl ErrNet),
     tls_dial = (\<lambda>t _ _. Inr (idle_conn\<lparr>rx := [[if tc_InsecureSkipVerify t then 1 else 0]]\<rparr>)),
     key_pair = (\<lambda>c k. Inr (c, k)), cert_pool = (\<lambda>b. if b = [] then None else Some b)\<rparr>"

definition sample_tls :: "string \<Rightarrow> transport_config option" where
  "sample_tls root = Some \<lparr>TransportType = ''tls'', TLS = Some \<lparr>TrustedRoot = root, PKCS12 = ''k.pem'', Hostname = ''h'',
     AutoCert = False, CertDir = [], Hosts = []\<rparr>, Noise = None, WebSocket = None\<rparr>"

lemma transports_agree_witness:
  "ServerListen sample_net '':443'' (sample_tls ''c.pem'') [''c.pem'' \<mapsto> [1], ''k.pem'' \<mapsto> [2]] =
      ([''c.pem'' \<mapsto> [1], ''k.pem'' \<mapsto> [2]], Inr (Listening '':443'' (Some (([1], [2]), VersionTLS12)))) \<and>
    (\<exists>cfg. tls_dial sample_net cfg ''vps:443'' 10 = Inr (idle_conn\<lparr>rx := [[1]]\<rparr>))"
proof -
  let ?fs = "[''c.pem'' \<mapsto> [1 :: byte], ''k.pem'' \<mapsto> [2]]"
  have s: "ServerListen sample_net '':443'' (sample_tls ''c.pem'') ?fs =
      (?fs, Inr (Listening '':443'' (Some (([1], [2]), VersionTLS12))))"
    by (simp add: ServerListen_def GetTransportType_def sample_tls_def tls_section_def ListenTLS_def tls_files_def
        LoadX509KeyPair_def read_file_def sample_net_def)
  have "ClientDial sample_net ''vps:443'' (sample_tls []) 10 Map.empty = Inr (idle_conn\<lparr>rx := [[1]]\<rparr>)"
    "GetTransportType (sample_tls []) = GetTransportType (sample_tls ''c.pem'')"
    by (simp_all add: ClientDial_def GetTransportType_def sample_tls_def tls_section_def DialTLS_def Let_def sample_net_def)
  from transports_agree [OF s this] s show ?thesis by simp
qed



end
