(* ===== verification/ServerRun.thy ===== *)
theory ServerRun
  imports Server NetConn WebSocket Transport
begin

text \<open>
  \<open>server.Run\<close> of \<open>go-core/server/server.go\<close>: what the server starts, and the loop that accepts control
  connections, upgrades each one itself and hands it to a goroutine. The order in which Go ranges over the
  map of services is an argument, as are the connections \<open>Accept\<close> returns and the random bytes of each
  upgrade.
\<close>

datatype server_err =
    NoServerSection
  | ListenControl string io_err
  | ListenVisitor string string io_err
  | ServerNoiseFailed noise_err
  | ServerWSFailed io_err

subsection \<open>Starting\<close>

text \<open>A goroutine of the server: the UDP task of a service, or \<open>acceptVisitors\<close> on a listener.\<close>

datatype server_task = UdpTask string string | AcceptVisitors string string

text \<open>A failing listener ends \<open>Run\<close>, with the goroutines started so far.\<close>

fun start_services ::
  "(string \<Rightarrow> io_err option) \<Rightarrow> (string \<times> service_config) list \<Rightarrow> server_task list \<times> server_err option" where
  "start_services listen [] = ([], None)"
| "start_services listen ((name, svc) # svcs) =
    (if svc_bind_addr svc = [] then start_services listen svcs
     else if effective_type svc = ''udp'' then
       apfst (Cons (UdpTask name (svc_bind_addr svc))) (start_services listen svcs)
     else (case listen (svc_bind_addr svc) of
         Some e \<Rightarrow> ([], Some (ListenVisitor name (svc_bind_addr svc) e))
       | None \<Rightarrow> apfst (Cons (AcceptVisitors name (svc_bind_addr svc))) (start_services listen svcs)))"

text \<open>
  \<open>order\<close>: the names of the services in the order in which Go ranges over the map, which visits every key
  once: \<open>set order = dom services\<close> and \<open>distinct order\<close>.
\<close>

definition services_in_order :: "(string \<rightharpoonup> service_config) \<Rightarrow> string list \<Rightarrow> (string \<times> service_config) list" where
  "services_in_order services order = List.map_filter (\<lambda>n. map_option (Pair n) (services n)) order"

definition server_start ::
  "('k, 'p, 'q) net_env \<Rightarrow> config \<Rightarrow> string list \<Rightarrow> files \<Rightarrow>
    files \<times> (server_err + 'q listener \<times> 's pools \<times> server_task list \<times> server_err option)" where
  "server_start env cfg order fs =
    (case Server cfg of
      None \<Rightarrow> (fs, Inl NoServerSection)
    | Some sc \<Rightarrow> (case ServerListen env (srv_bind_addr sc) (srv_transport sc) fs of
        (fs', Inl e) \<Rightarrow> (fs', Inl (ListenControl (srv_bind_addr sc) e))
      | (fs', Inr ln) \<Rightarrow>
          (let services = services_in_order (srv_services sc) order;
               (tasks, e) = start_services (listen_err env) services
           in (fs', Inr (ln, init_pools (srv_services sc), tasks, e)))))"

subsection \<open>Upgrades and the accept loop\<close>

record server_rand =
  sr_ws_mask :: "nat \<Rightarrow> byte"
  sr_noise :: "io_err + bytes"

definition applyServerTransport ::
  "server_rand \<Rightarrow> transport_config option \<Rightarrow> conn \<Rightarrow> (net_conn \<times> (server_err + unit)) option" where
  "applyServerTransport rnd t c =
    (case t of
      None \<Rightarrow> Some (RawConn c, Inr ())
    | Some tc \<Rightarrow>
        if TransportType tc = ''noise'' then
          (case NoiseServerUpgrade (Noise tc) (sr_noise rnd) c of
            None \<Rightarrow> None
          | Some (c', Inl e) \<Rightarrow> Some (RawConn c', Inl (ServerNoiseFailed e))
          | Some (_, Inr nc) \<Rightarrow> Some (NzConn nc, Inr ()))
        else if TransportType tc = ''ws'' then
          (case WSServerUpgrade (sr_ws_mask rnd) c of
            None \<Rightarrow> None
          | Some (c', Inl e) \<Rightarrow> Some (RawConn (conn_close c'), Inl (ServerWSFailed e))
          | Some (_, Inr ws) \<Rightarrow> Some (WsConn ws, Inr ()))
        else Some (RawConn c, Inr ()))"

text \<open>
  What becomes of each accepted connection: handed to \<open>handleClientConn\<close>, dropped after a failed upgrade,
  or the last one the loop ever sees, because its upgrade never returns.
\<close>

datatype accept_event = AcceptError io_err | Handled net_conn | UpgradeFailed net_conn server_err | Stuck conn

fun serve_control ::
  "transport_config option \<Rightarrow> (io_err + server_rand \<times> conn) list \<Rightarrow> accept_event list" where
  "serve_control t [] = []"
| "serve_control t (Inl e # as) = AcceptError e # serve_control t as"
| "serve_control t (Inr (rnd, c) # as) =
    (case applyServerTransport rnd t c of
      None \<Rightarrow> [Stuck c]
    | Some (c', Inl e) \<Rightarrow> UpgradeFailed c' e # serve_control t as
    | Some (c', Inr _) \<Rightarrow> Handled c' # serve_control t as)"

definition acceptVisitors :: "(io_err + 'v) list \<Rightarrow> 'v list" where
  "acceptVisitors accepts = map projr (takeWhile (\<lambda>a. \<not> isl a) accepts)"

subsection \<open>Lemmas\<close>

lemma conn_write_opened: "conn_write b c = (c', n, e) \<Longrightarrow> opened c' = opened c"
  by (auto simp: conn_write_def split: if_splits option.splits)

lemma write_all_opened: "write_all conn_write b c = Some (c', r) \<Longrightarrow> opened c' = opened c"
  by (auto simp: write_all_def split: prod.splits option.splits dest: conn_write_opened)

lemma read_full_opened: "read_full conn_read n c = Some (c', r) \<Longrightarrow> opened c' = opened c"
  using tcp.read_full_Inr [of n c c'] tcp.read_full_Inl [of n c c'] by (cases r) (auto simp: conn_kept_def)

lemma NoiseServerUpgrade_failed_opened:
  assumes "NoiseServerUpgrade cfg rnd c = Some (c', Inl e)" shows "opened c' = opened c"
  using assms
  by (auto simp: NoiseServerUpgrade_def Let_def io_bind_eq_Some io_wrap_eq_Some nz_new_def
      split: option.splits if_splits sum.splits dest!: write_all_opened read_full_opened)

lemma WSServerUpgrade_silent:
  assumes "rx c = []" "rx_end c = None" "opened c"
  shows "WSServerUpgrade rnd c = None"
proof -
  have "conn_read n c = None" if "0 < n" for n using assms that by (simp add: conn_read_def)
  then have "bf_fill conn_read (Suc k) (NewReader c) = None" for k
    by (simp add: NewReader_def bf_size_def)
  from this [of 99] have "bf_fill conn_read 100 (NewReader c) = None" by simp
  then have "bf_read_until conn_read 10 [] (NewReader c) = None"
    by (subst bf_read_until.simps) (simp add: NewReader_def bf_size_def)
  then show ?thesis by (simp add: WSServerUpgrade_def ReadString_def)
qed

lemma NoiseServerUpgrade_silent:
  assumes "rx c = []" "rx_end c = None" "conn_can_send c"
    and "cfg = Some nc" "b64_decode (LocalPrivateKey nc) = Some key" "length key = 32" "rnd = Inr r"
  shows "NoiseServerUpgrade cfg rnd c = None"
proof -
  let ?c = "c\<lparr>tx := tx c @ scalarBaseMult (clampKey r)\<rparr>"
  have "conn_pending ?c = []" "conn_fin ?c = None" using assms(1-3) by (simp_all add: conn_pending_def conn_fin_def conn_can_send_def)
  then have "read_full conn_read 32 ?c = None" by (intro tcp.read_full_blocks) simp_all
  with assms(3-7) show ?thesis by (simp add: NoiseServerUpgrade_def Let_def io_bind_def io_wrap_def)
qed

text \<open>A transport whose server side speaks or waits before the client is authenticated.\<close>

definition upgrades_itself :: "transport_config \<Rightarrow> bool" where
  "upgrades_itself tc \<longleftrightarrow> TransportType tc = ''ws'' \<or>
     (TransportType tc = ''noise'' \<and>
       (case Noise tc of None \<Rightarrow> False
        | Some nc \<Rightarrow> (case b64_decode (LocalPrivateKey nc) of None \<Rightarrow> False | Some key \<Rightarrow> length key = 32)))"

lemma silent_upgrade:
  assumes "upgrades_itself tc" "conn_can_send c" "rx c = []" "rx_end c = None" "sr_noise rnd = Inr r"
  shows "applyServerTransport rnd (Some tc) c = None"
proof (cases "TransportType tc = ''ws''")
  case True
  with assms(2-4) WSServerUpgrade_silent show ?thesis by (simp add: applyServerTransport_def conn_can_send_def)
next
  case False
  with assms(1) obtain nc key where "TransportType tc = ''noise''" "Noise tc = Some nc"
    "b64_decode (LocalPrivateKey nc) = Some key" "length key = 32"
    by (auto simp: upgrades_itself_def split: option.splits)
  with NoiseServerUpgrade_silent [OF assms(3,4,2) refl this(3,4) refl, of r] assms(5) show ?thesis
    by (simp add: applyServerTransport_def)
qed

lemma serve_control_stuck:
  assumes "applyServerTransport rnd t c = None"
  shows "serve_control t (as @ Inr (rnd, c) # bs) = serve_control t (as @ [Inr (rnd, c)])"
  using assms by (induction t as rule: serve_control.induct) (auto split: option.split sum.split)

lemma serve_control_length: "length (serve_control t as) \<le> length as"
  by (induction t as rule: serve_control.induct) (auto split: option.split sum.split)

definition service_task :: "string \<times> service_config \<Rightarrow> server_task" where
  "service_task s = (case s of (name, svc) \<Rightarrow>
     if effective_type svc = ''udp'' then UdpTask name (svc_bind_addr svc) else AcceptVisitors name (svc_bind_addr svc))"

lemma start_services_ok:
  "start_services listen svcs = (ts, None) \<Longrightarrow>
    ts = map service_task (filter (\<lambda>s. svc_bind_addr (snd s) \<noteq> []) svcs) \<and>
    (\<forall>n a. AcceptVisitors n a \<in> set ts \<longrightarrow> listen a = None)"
proof (induction listen svcs arbitrary: ts rule: start_services.induct)
  case (2 listen name svc svcs)
  obtain ts' e where r: "start_services listen svcs = (ts', e)" by (cases "start_services listen svcs")
  consider "svc_bind_addr svc = []" | "svc_bind_addr svc \<noteq> []" "effective_type svc = ''udp''"
    | "svc_bind_addr svc \<noteq> []" "effective_type svc \<noteq> ''udp''" by blast
  then show ?case
  proof cases
    case 3
    with "2.prems" have l: "listen (svc_bind_addr svc) = None" by (cases "listen (svc_bind_addr svc)") simp_all
    with "2.prems" r 3 have "e = None" "ts = AcceptVisitors name (svc_bind_addr svc) # ts'" by simp_all
    with "2.IH"(3) [OF 3 l] r 3 l show ?thesis by (simp add: service_task_def)
  next
    case 1
    with "2.prems" have "start_services listen svcs = (ts, None)" by simp
    with "2.IH"(1) [OF 1] 1 show ?thesis by simp
  next
    case 2
    with "2.prems" r have "e = None" "ts = UdpTask name (svc_bind_addr svc) # ts'" by simp_all
    with "2.IH"(2) [OF 2] r 2 show ?thesis by (simp add: service_task_def)
  qed
qed simp

lemma services_in_order:
  assumes "set order = dom services" "distinct order"
  shows "set (services_in_order services order) = {(n, svc). services n = Some svc} \<and>
    distinct (map fst (services_in_order services order))"
proof -
  have "services_in_order services ns = map (\<lambda>n. (n, the (services n))) ns" if "set ns \<subseteq> dom services" for ns
    using that by (induction ns) (auto simp: services_in_order_def List.map_filter_simps)
  from this [of order] have "services_in_order services order = map (\<lambda>n. (n, the (services n))) order"
    using assms(1) by simp
  with assms show ?thesis by (auto simp: comp_def)
qed

lemma service_task_name:
  "(case service_task s of UdpTask n a \<Rightarrow> n | AcceptVisitors n a \<Rightarrow> n) = fst s"
  by (simp add: service_task_def split: prod.split)

lemma distinct_tasks: "distinct (map fst svcs) \<Longrightarrow> distinct (map service_task svcs)"
proof -
  assume "distinct (map fst svcs)"
  then have "distinct (map ((\<lambda>t. case t of UdpTask n a \<Rightarrow> n | AcceptVisitors n a \<Rightarrow> n) \<circ> service_task) svcs)"
    by (simp add: comp_def service_task_name)
  then show ?thesis unfolding map_map [symmetric] distinct_map by blast
qed

subsection \<open>Properties\<close>

text \<open>
  C20. One silent client stops the server. With the WebSocket or the noise transport the upgrade runs in the
  accept loop, without a deadline: after a connection on which nothing arrives, no later connection is
  accepted or handled, however many come. With TCP or TLS every accepted connection is handled.
\<close>

theorem silent_client_stops_server:
  assumes "conn_can_send c" "rx c = []" "rx_end c = None" "sr_noise rnd = Inr r"
  shows "(upgrades_itself tc \<longrightarrow>
      serve_control (Some tc) (as @ Inr (rnd, c) # bs) = serve_control (Some tc) (as @ [Inr (rnd, c)]) \<and>
      length (serve_control (Some tc) (as @ Inr (rnd, c) # bs)) \<le> Suc (length as)) \<and>
    (TransportType tc \<notin> {''ws'', ''noise''} \<longrightarrow>
      serve_control (Some tc) as = map (\<lambda>a. case a of Inl e \<Rightarrow> AcceptError e | Inr (_, c) \<Rightarrow> Handled (RawConn c)) as)"
proof (intro conjI impI)
  assume "upgrades_itself tc"
  from serve_control_stuck [OF silent_upgrade [OF this assms]]
  show e: "serve_control (Some tc) (as @ Inr (rnd, c) # bs) = serve_control (Some tc) (as @ [Inr (rnd, c)])" .
  show "length (serve_control (Some tc) (as @ Inr (rnd, c) # bs)) \<le> Suc (length as)"
    unfolding e using serve_control_length [of "Some tc" "as @ [Inr (rnd, c)]"] by simp
next
  assume "TransportType tc \<notin> {''ws'', ''noise''}"
  then show "serve_control (Some tc) as = map (\<lambda>a. case a of Inl e \<Rightarrow> AcceptError e | Inr (_, c) \<Rightarrow> Handled (RawConn c)) as"
    by (induction "Some tc" as rule: serve_control.induct) (simp_all add: applyServerTransport_def)
qed

definition ws_transport :: "string \<Rightarrow> transport_config" where
  "ws_transport ty = \<lparr>TransportType = ty, TLS = None, Noise = None, WebSocket = None\<rparr>"

lemma silent_client_stops_server_witness:
  "serve_control (Some (ws_transport ''ws''))
      [Inr (\<lparr>sr_ws_mask = \<lambda>_. 0, sr_noise = Inr []\<rparr>, idle_conn), Inl EOF] =
    serve_control (Some (ws_transport ''ws'')) [Inr (\<lparr>sr_ws_mask = \<lambda>_. 0, sr_noise = Inr []\<rparr>, idle_conn)]"
proof -
  have "conn_can_send idle_conn" "rx idle_conn = []" "rx_end idle_conn = None"
    "sr_noise \<lparr>sr_ws_mask = \<lambda>_. 0, sr_noise = Inr []\<rparr> = Inr []" by (simp_all add: idle_conn_def conn_can_send_def)
  from silent_client_stops_server [OF this, of "ws_transport ''ws''" "[]" "[Inl EOF]"] show ?thesis
    by (simp add: upgrades_itself_def ws_transport_def)
qed

text \<open>
  A failed upgrade closes the connection of a WebSocket client; a failed noise upgrade leaves it open,
  with nothing left that could close it.
\<close>

theorem failed_upgrade_conn:
  assumes "applyServerTransport rnd t c = Some (c', Inl e)" "opened c"
  shows "(\<exists>x. e = ServerWSFailed x) \<and> \<not> opened (net_raw c') \<or> (\<exists>x. e = ServerNoiseFailed x) \<and> opened (net_raw c')"
  using assms NoiseServerUpgrade_failed_opened
  by (fastforce simp: applyServerTransport_def conn_close_def split: option.splits if_splits prod.splits sum.splits)

lemma failed_upgrade_conn_witness:
  "\<exists>c'. applyServerTransport \<lparr>sr_ws_mask = \<lambda>_. 0, sr_noise = Inr []\<rparr> (Some (ws_transport ''noise'')) idle_conn =
      Some (c', Inl (ServerNoiseFailed NoiseConfigNil)) \<and> opened (net_raw c')"
proof -
  have a: "applyServerTransport \<lparr>sr_ws_mask = \<lambda>_. 0, sr_noise = Inr []\<rparr> (Some (ws_transport ''noise'')) idle_conn =
      Some (RawConn idle_conn, Inl (ServerNoiseFailed NoiseConfigNil))"
    by (simp add: applyServerTransport_def ws_transport_def NoiseServerUpgrade_def)
  have "opened idle_conn" by (simp add: idle_conn_def)
  from failed_upgrade_conn [OF a this] a show ?thesis by auto
qed

text \<open>
  C34. What a started server runs: when every address can be listened on, exactly one goroutine for each
  service with a bind address, a UDP task or a visitor listener by its type, and no other, in whatever
  order Go ranges over the services (each of which it visits once); and each of these services has a pool of
  the matching kind, which is empty.
\<close>

theorem started_services:
  assumes "server_start env cfg order fs = (fs', Inr (ln, P, tasks, None))" "Server cfg = Some sc"
    and "set order = dom (srv_services sc)" "distinct order"
  shows "mset tasks = image_mset service_task
      (mset_set {(name, svc). srv_services sc name = Some svc \<and> svc_bind_addr svc \<noteq> []}) \<and>
    distinct tasks \<and>
    (\<forall>name addr. UdpTask name addr \<in> set tasks \<longrightarrow> udp_pools P name = Some []) \<and>
    (\<forall>name addr. AcceptVisitors name addr \<in> set tasks \<longrightarrow> tcp_pools P name = Some [] \<and> listen_err env addr = None)"
proof -
  let ?svcs = "services_in_order (srv_services sc) order"
  let ?S = "{(name, svc). srv_services sc name = Some svc \<and> svc_bind_addr svc \<noteq> []}"
  have s: "start_services (listen_err env) ?svcs = (tasks, None)" "P = init_pools (srv_services sc)"
    using assms(1,2) by (auto simp: server_start_def services_in_order_def Let_def split: prod.splits sum.splits)
  let ?bound = "filter (\<lambda>s. svc_bind_addr (snd s) \<noteq> []) ?svcs"
  have b: "set ?bound = ?S" "distinct (map fst ?bound)"
    using services_in_order [OF assms(3,4)] by (auto simp: distinct_map_filter)
  from start_services_ok [OF s(1)] have t: "tasks = map service_task ?bound"
    "\<forall>n a. AcceptVisitors n a \<in> set tasks \<longrightarrow> listen_err env a = None" by simp_all
  have "mset ?bound = mset_set ?S" unfolding b(1) [symmetric]
    by (rule mset_set_set [symmetric]) (use b(2) in \<open>simp add: distinct_map\<close>)
  then have "mset tasks = image_mset service_task (mset_set ?S)" using t(1) by (metis mset_map)
  moreover have "distinct tasks" unfolding t(1) by (rule distinct_tasks [OF b(2)])
  moreover have "UdpTask name addr \<in> set tasks \<Longrightarrow> udp_pools P name = Some []"
    "AcceptVisitors name addr \<in> set tasks \<Longrightarrow> tcp_pools P name = Some []" for name addr
    using b(1) s(2) unfolding t(1) set_map by (auto simp: service_task_def init_pools_def split: if_split_asm)
  ultimately show ?thesis using t(2) by blast
qed

lemma started_services_witness:
  "\<exists>tasks P. server_start sample_net \<lparr>Server = Some web_server, Client = None\<rparr> [''dns'', ''web''] Map.empty =
      (Map.empty, Inr (Listening '':1'' None, P :: nat pools, tasks, None)) \<and>
    UdpTask ''dns'' '':80'' \<in> set tasks \<and> udp_pools P ''dns'' = Some []"
proof -
  let ?cfg = "\<lparr>Server = Some web_server, Client = None\<rparr>"
  have s: "server_start sample_net ?cfg [''dns'', ''web''] Map.empty =
      (Map.empty, Inr (Listening '':1'' None, init_pools (srv_services web_server) :: nat pools,
        [UdpTask ''dns'' '':80'', AcceptVisitors ''web'' '':80''], None))"
    by (simp add: server_start_def web_server_def web_service_def ServerListen_def GetTransportType_def ListenTCP_def
        sample_net_def services_in_order_def List.map_filter_simps effective_type_def)
  have "set [''dns'', ''web''] = dom (srv_services web_server)" by (auto simp: web_server_def split: if_splits)
  from started_services [OF s _ this] s show ?thesis by auto
qed

end
