(* ===== verification/Client.thy ===== *)
theory Client
  imports NetConn WebSocket Transport
begin

text \<open>
  \<open>go-core/client/client.go\<close>: what a tunnel client does for each of its services. \<open>authenticate\<close> works on
  any \<open>net.Conn\<close>, given by its methods. A session attempt goes through dialing, the transport upgrade,
  authentication and yamux (a third-party package: the sessions and streams it gives are arguments); the
  relay and the UDP forwarding it ends in are modelled in theories of their own.
\<close>

datatype client_err =
    NoClientSection
  | DialFailed string io_err
  | NoiseUpgradeFailed noise_err
  | WSUpgradeFailed io_err
  | NoToken string
  | WriteAuth proto_err
  | ReadAuthResp proto_err
  | ExpectedAuthResp
  | AuthFailed string
  | YamuxClient io_err
  | YamuxAccept io_err
  | YamuxAcceptUDP io_err

subsection \<open>Authentication\<close>

definition client_auth_request :: "string \<Rightarrow> service_config \<Rightarrow> string \<Rightarrow> envelope" where
  "client_auth_request name svc token =
    no_message\<lparr>env_auth := Some \<lparr>ar_service_name = name, ar_token_hash = HashToken token,
      ar_service_type = effective_type svc, ar_mux_enabled = True, ar_mux_streams = of_int (svc_mux_streams svc)\<rparr>\<rparr>"

definition authenticate ::
  "'c reader \<Rightarrow> 'c writer \<Rightarrow> string \<Rightarrow> service_config \<Rightarrow> client_config \<Rightarrow> ('c, client_err, unit) io" where
  "authenticate rd wr name svc cc =
    (let token = GetServiceToken (svc_token svc) (cl_default_token cc) in
     if token = [] then io_fail (NoToken name)
     else io_bind (io_wrap WriteAuth (WriteMessage wr (client_auth_request name svc token))) (\<lambda>_.
          io_bind (io_wrap ReadAuthResp (ReadMessage rd)) (\<lambda>respEnv.
          case env_auth_resp respEnv of
            None \<Rightarrow> io_fail ExpectedAuthResp
          | Some r \<Rightarrow> if \<not> success r then io_fail (AuthFailed (message r)) else io_return ())))"

subsection \<open>Dialing\<close>

text \<open>The bytes \<open>crypto/rand\<close> gives during one attempt.\<close>

record client_rand =
  cr_ws_key :: bytes
  cr_ws_mask :: "nat \<Rightarrow> byte"
  cr_noise :: "io_err + bytes"

text \<open>A failed WebSocket upgrade closes the connection, a failed noise upgrade does not.\<close>

definition applyClientTransport :: "client_rand \<Rightarrow> client_config \<Rightarrow> conn \<Rightarrow> (net_conn \<times> (client_err + unit)) option" where
  "applyClientTransport rnd cc c =
    (case cl_transport cc of
      None \<Rightarrow> Some (RawConn c, Inr ())
    | Some t \<Rightarrow>
        if TransportType t = ''noise'' then
          (case NoiseClientUpgrade (Noise t) (cr_noise rnd) c of
            None \<Rightarrow> None
          | Some (c', Inl e) \<Rightarrow> Some (RawConn c', Inl (NoiseUpgradeFailed e))
          | Some (_, Inr nc) \<Rightarrow> Some (NzConn nc, Inr ()))
        else if TransportType t = ''ws'' then
          (case WSClientUpgrade (cr_ws_key rnd) (cr_ws_mask rnd) (cl_remote_addr cc) (WebSocket t) c of
            None \<Rightarrow> None
          | Some (c', Inl e) \<Rightarrow> Some (RawConn (conn_close c'), Inl (WSUpgradeFailed e))
          | Some (_, Inr ws) \<Rightarrow> Some (WsConn ws, Inr ()))
        else Some (RawConn c, Inr ()))"

datatype dial_result = NotDialed client_err | Dialed net_conn "client_err + unit"

definition dialWithTransport ::
  "('k, 'p, 'q) net_env \<Rightarrow> files \<Rightarrow> client_rand \<Rightarrow> client_config \<Rightarrow> dial_result option" where
  "dialWithTransport env fs rnd cc =
    (case ClientDial env (cl_remote_addr cc) (cl_transport cc) (10 * 10 ^ 9) fs of
      Inl e \<Rightarrow> Some (NotDialed (DialFailed (cl_remote_addr cc) e))
    | Inr c \<Rightarrow> map_option (\<lambda>(nc, r). Dialed nc r) (applyClientTransport rnd cc c))"

subsection \<open>Sessions\<close>

text \<open>
  What \<open>yamux.Client\<close> makes of a connection, what a session delivers at its \<open>k\<close>-th \<open>Accept\<close> (nothing, for
  ever, if \<open>None\<close>), and the connection of a session after \<open>Close\<close>.
\<close>

record ('s, 'st) yamux =
  ym_client :: "net_conn \<Rightarrow> io_err + 's"
  ym_accept :: "'s \<Rightarrow> nat \<Rightarrow> (io_err + 'st) option"
  ym_closed :: "'s \<Rightarrow> net_conn"

text \<open>How an attempt ended: the error, the connection if one was made, the streams handed to handlers.\<close>

record 'st session_end =
  se_err :: client_err
  se_conn :: "net_conn option"
  se_streams :: "'st list"

partial_function (option) accept_loop ::
  "(nat \<Rightarrow> (io_err + 'st) option) \<Rightarrow> nat \<Rightarrow> 'st list \<Rightarrow> ('st list \<times> io_err) option" where
  "accept_loop accept k handled = (case accept k of
      None \<Rightarrow> None
    | Some (Inl e) \<Rightarrow> Some (handled, e)
    | Some (Inr stream) \<Rightarrow> accept_loop accept (Suc k) (handled @ [stream]))"

text \<open>The part both kinds of session share: everything up to the yamux session.\<close>

definition open_session ::
  "('k, 'p, 'q) net_env \<Rightarrow> files \<Rightarrow> ('s, 'st) yamux \<Rightarrow> client_rand \<Rightarrow> string \<Rightarrow> service_config \<Rightarrow> client_config \<Rightarrow>
    ('st session_end + 's) option" where
  "open_session env fs ym rnd name svc cc =
    (case dialWithTransport env fs rnd cc of
      None \<Rightarrow> None
    | Some (NotDialed e) \<Rightarrow> Some (Inl \<lparr>se_err = e, se_conn = None, se_streams = []\<rparr>)
    | Some (Dialed c (Inl e)) \<Rightarrow> Some (Inl \<lparr>se_err = e, se_conn = Some c, se_streams = []\<rparr>)
    | Some (Dialed c (Inr _)) \<Rightarrow>
        (case authenticate net_read net_write name svc cc c of
          None \<Rightarrow> None
        | Some (c', Inl e) \<Rightarrow> Some (Inl \<lparr>se_err = e, se_conn = Some (net_close c'), se_streams = []\<rparr>)
        | Some (c', Inr _) \<Rightarrow>
            (case ym_client ym c' of
              Inl e \<Rightarrow> Some (Inl \<lparr>se_err = YamuxClient e, se_conn = Some (net_close c'), se_streams = []\<rparr>)
            | Inr s \<Rightarrow> Some (Inr s))))"

definition runTCPSession ::
  "('k, 'p, 'q) net_env \<Rightarrow> files \<Rightarrow> ('s, 'st) yamux \<Rightarrow> client_rand \<Rightarrow> string \<Rightarrow> service_config \<Rightarrow> client_config \<Rightarrow>
    'st session_end option" where
  "runTCPSession env fs ym rnd name svc cc =
    (case open_session env fs ym rnd name svc cc of
      None \<Rightarrow> None
    | Some (Inl r) \<Rightarrow> Some r
    | Some (Inr s) \<Rightarrow> (case accept_loop (ym_accept ym s) 0 [] of
        None \<Rightarrow> None
      | Some (streams, e) \<Rightarrow>
          Some \<lparr>se_err = YamuxAccept e, se_conn = Some (ym_closed ym s), se_streams = streams\<rparr>))"

text \<open>A UDP session goes on in \<open>udp.ClientUDP\<close> with its one stream.\<close>

definition runUDPSession ::
  "('k, 'p, 'q) net_env \<Rightarrow> files \<Rightarrow> ('s, 'st) yamux \<Rightarrow> client_rand \<Rightarrow> string \<Rightarrow> service_config \<Rightarrow> client_config \<Rightarrow>
    ('st session_end + string \<times> 'st) option" where
  "runUDPSession env fs ym rnd name svc cc =
    (case open_session env fs ym rnd name svc cc of
      None \<Rightarrow> None
    | Some (Inl r) \<Rightarrow> Some (Inl r)
    | Some (Inr s) \<Rightarrow> (case ym_accept ym s 0 of
        None \<Rightarrow> None
      | Some (Inl e) \<Rightarrow>
          Some (Inl \<lparr>se_err = YamuxAcceptUDP e, se_conn = Some (ym_closed ym s), se_streams = []\<rparr>)
      | Some (Inr stream) \<Rightarrow> Some (Inr (svc_local_addr svc, stream))))"

datatype ('st, 'l) stream_end = StreamClosed 'st | Relaying 'st 'l

definition handleTCPStream ::
  "('st \<Rightarrow> 'st) \<Rightarrow> (string \<Rightarrow> int \<Rightarrow> io_err + 'l) \<Rightarrow> string \<Rightarrow> 'st \<Rightarrow> ('st, 'l) stream_end" where
  "handleTCPStream cl dial localAddr stream =
    (if localAddr = [] then StreamClosed (cl stream)
     else case dial localAddr (5 * 10 ^ 9) of
       Inl _ \<Rightarrow> StreamClosed (cl stream)
     | Inr local \<Rightarrow> Relaying stream local)"

subsection \<open>The tasks of a client\<close>

definition seconds :: "int \<Rightarrow> int" where
  "seconds n = mul64 n (10 ^ 9)"

definition retry_interval :: "service_config \<Rightarrow> client_config \<Rightarrow> int" where
  "retry_interval svc cc =
    (let r = seconds (svc_retry_interval svc);
         r = (if r \<le> 0 then seconds (cl_retry_interval cc) else r)
     in if r \<le> 0 then 3 * 10 ^ 9 else r)"

definition mux_conns :: "service_config \<Rightarrow> client_config \<Rightarrow> int" where
  "mux_conns svc cc =
    (let m = svc_mux_streams svc;
         m = (if m \<le> 0 then cl_mux_connections cc else m)
     in if m \<le> 0 then 4 else m)"

datatype client_task = Task (task_name: string) (task_idx: nat) (task_udp: bool) (task_retry: int)

definition client_tasks :: "client_config \<Rightarrow> client_task set" where
  "client_tasks cc = {Task name i (effective_type svc = ''udp'') (retry_interval svc cc) | name i svc.
     cl_services cc name = Some svc \<and> int i < mux_conns svc cc}"

text \<open>\<open>Run\<close> fails without a section; else its tasks run for ever, and it returns only when there is none.\<close>

definition client_run :: "config \<Rightarrow> client_err + client_task set" where
  "client_run cfg = (case Client cfg of None \<Rightarrow> Inl NoClientSection | Some cc \<Rightarrow> Inr (client_tasks cc))"

subsection \<open>Lemmas\<close>

lemma seconds_exact: "- 9223372036 \<le> n \<Longrightarrow> n \<le> 9223372036 \<Longrightarrow> seconds n = n * 10 ^ 9"
  unfolding seconds_def by (rule mul64_exact) simp_all

lemma accept_loop_streams:
  "(\<forall>i < n. accept (k + i) = Some (Inr (f i))) \<Longrightarrow> accept (k + n) = Some (Inl e) \<Longrightarrow>
    accept_loop accept k acc = Some (acc @ map f [0..<n], e)"
proof (induction n arbitrary: k acc f)
  case 0
  then show ?case by (simp add: accept_loop.simps [of accept k])
next
  case (Suc n)
  have "accept k = Some (Inr (f 0))" using Suc.prems(1) by (metis add_0_right zero_less_Suc)
  moreover have "accept_loop accept (Suc k) (acc @ [f 0]) = Some ((acc @ [f 0]) @ map (\<lambda>i. f (Suc i)) [0..<n], e)"
  proof (rule Suc.IH)
    show "\<forall>i < n. accept (Suc k + i) = Some (Inr (f (Suc i)))" using Suc.prems(1) by auto
    show "accept (Suc k + n) = Some (Inl e)" using Suc.prems(2) by simp
  qed
  moreover have "map f [0..<Suc n] = f 0 # map (\<lambda>i. f (Suc i)) [0..<n]" by (simp add: map_upt_Suc del: upt_Suc)
  ultimately show ?case by (simp add: accept_loop.simps [of accept k] del: upt_Suc)
qed

lemma net_close_closed: "\<not> opened (net_raw (net_close c))"
  by (simp add: net_close_raw conn_close_def)

lemma applyClientTransport_failed:
  assumes "applyClientTransport rnd cc c = Some (c', Inl e)"
  shows "(\<exists>x. e = NoiseUpgradeFailed x) \<or> \<not> opened (net_raw c')"
  using assms
  by (auto simp: applyClientTransport_def conn_close_def split: option.splits if_splits prod.splits sum.splits)

lemma open_session_failed:
  assumes "open_session env fs ym rnd name svc cc = Some (Inl r)" "se_conn r = Some c"
  shows "(\<exists>x. se_err r = NoiseUpgradeFailed x) \<or> \<not> opened (net_raw c)"
proof -
  from assms obtain d where d: "dialWithTransport env fs rnd cc = Some d"
    by (cases "dialWithTransport env fs rnd cc") (simp_all add: open_session_def)
  show ?thesis
  proof (cases d)
    case (NotDialed e)
    with assms d show ?thesis by (auto simp: open_session_def)
  next
    case (Dialed c0 x)
    show ?thesis
    proof (cases x)
      case (Inl e)
      with d Dialed obtain c1 where "applyClientTransport rnd cc c1 = Some (c0, Inl e)"
        by (auto simp: dialWithTransport_def split: sum.splits)
      from applyClientTransport_failed [OF this] assms d Dialed Inl show ?thesis by (auto simp: open_session_def)
    next
      case (Inr u)
      with assms d Dialed net_close_closed show ?thesis
        by (auto simp: open_session_def split: option.splits prod.splits sum.splits)
    qed
  qed
qed

subsection \<open>Properties\<close>

text \<open>
  C19. A session attempt leaves no connection open: when a TCP session of the client ends, whatever the
  reason, the connection it had dialed is closed, provided \<open>session.Close\<close> closes the connection under a
  session; the only exception is a failed noise upgrade, whose connection the code forgets.
\<close>

theorem session_closes_conn:
  assumes "runTCPSession env fs ym rnd name svc cc = Some r" "se_conn r = Some c"
    and "\<forall>s. \<not> opened (net_raw (ym_closed ym s))"
  shows "\<not> opened (net_raw c) \<or> (\<exists>x. se_err r = NoiseUpgradeFailed x)"
proof -
  obtain x where x: "open_session env fs ym rnd name svc cc = Some x"
    using assms(1) by (cases "open_session env fs ym rnd name svc cc") (simp_all add: runTCPSession_def)
  show ?thesis
  proof (cases x)
    case (Inl r')
    with x assms(1) have "r' = r" by (simp add: runTCPSession_def)
    with open_session_failed [OF _ assms(2)] x Inl show ?thesis by blast
  next
    case (Inr s)
    with x assms show ?thesis by (auto simp: runTCPSession_def split: option.splits)
  qed
qed

definition sample_service :: "int \<Rightarrow> service_config" where
  "sample_service retry = \<lparr>svc_type = [], svc_token = ''k'', svc_bind_addr = [], svc_local_addr = ''127.0.0.1:80'',
     svc_nodelay = False, svc_mux_streams = 0, svc_max_mux_streams = 0, svc_retry_interval = retry\<rparr>"

definition sample_client :: client_config where
  "sample_client = \<lparr>cl_remote_addr = ''vps:443'', cl_default_token = [], cl_heartbeat_timeout = 0, cl_retry_interval = 2,
     cl_mux_connections = 3, cl_transport = None, cl_services = [''web'' \<mapsto> sample_service 0]\<rparr>"

definition sample_yamux :: "(net_conn, unit) yamux" where
  "sample_yamux = \<lparr>ym_client = Inr, ym_accept = (\<lambda>_ _. Some (Inl EOF)), ym_closed = net_close\<rparr>"

lemma session_closes_conn_witness:
  "\<exists>r c. runTCPSession (sample_net\<lparr>tcp_dial := \<lambda>_ _. Inr (idle_conn\<lparr>rx_end := Some EOF\<rparr>)\<rparr>) Map.empty sample_yamux
      \<lparr>cr_ws_key = [], cr_ws_mask = (\<lambda>_. 0), cr_noise = Inl EOF\<rparr> ''web'' (sample_service 0) sample_client = Some r \<and>
    se_conn r = Some c \<and> \<not> opened (net_raw c)"
proof -
  let ?env = "sample_net\<lparr>tcp_dial := \<lambda>_ _. Inr (idle_conn\<lparr>rx_end := Some EOF\<rparr>)\<rparr>"
  let ?rnd = "\<lparr>cr_ws_key = [], cr_ws_mask = (\<lambda>_. 0), cr_noise = Inl EOF\<rparr>"
  let ?req = "client_auth_request ''web'' (sample_service 0) ''k''"
  let ?c = "idle_conn\<lparr>rx_end := Some EOF\<rparr>"
  have "length (ar_service_name (the (env_auth ?req))) = 3" "length (ar_service_type (the (env_auth ?req))) = 3"
    by (simp_all add: client_auth_request_def sample_service_def effective_type_def)
  then have "message_fits ?req"
    using auth_message_length [of "the (env_auth ?req)"]
    by (simp add: client_auth_request_def message_fits_def MaxFrameSize_def)
  from tcpw.WriteMessage_sends [OF _ this, of ?c] obtain c1 where
    c1: "WriteMessage conn_write ?req ?c = Some (c1, Inr ())" "rx c1 = []" "rx_end c1 = Some EOF" "opened c1"
    by (auto simp: conn_can_send_def idle_conn_def)
  have tok: "GetServiceToken (svc_token (sample_service 0)) (cl_default_token sample_client) = ''k''"
    by (simp add: sample_service_def GetServiceToken_def)
  have "conn_read 9 c1 = Some (c1, [], Some EOF)" using c1(2-4) by (simp add: conn_read_def)
  then have "read_loop conn_read 9 [] c1 = Some (c1, [], Some EOF)" by (subst read_loop.simps) simp
  then have "read_full conn_read 9 c1 = Some (c1, Inl EOF)" by (simp add: read_full_def short_err_def)
  then have "ReadMessage conn_read c1 = Some (c1, Inl (ReadHeader EOF))"
    unfolding ReadMessage_def by simp
  then have "ReadMessage net_read (RawConn c1) = Some (RawConn c1, Inl (ReadHeader EOF))"
    by (simp add: net_ReadMessage)
  with c1(1) have auth: "authenticate net_read net_write ''web'' (sample_service 0) sample_client (RawConn ?c) =
      Some (RawConn c1, Inl (ReadAuthResp (ReadHeader EOF)))"
    using tok by (simp add: authenticate_def io_bind_def io_wrap_def net_WriteMessage)
  have cc: "cl_transport sample_client = None" by (simp add: sample_client_def)
  have r: "runTCPSession ?env Map.empty sample_yamux ?rnd ''web'' (sample_service 0) sample_client =
      Some \<lparr>se_err = ReadAuthResp (ReadHeader EOF), se_conn = Some (net_close (RawConn c1)), se_streams = []\<rparr>"
    by (simp add: runTCPSession_def open_session_def dialWithTransport_def ClientDial_def GetTransportType_def DialTCP_def
        applyClientTransport_def auth cc)
  from session_closes_conn [OF r, of "net_close (RawConn c1)"] r show ?thesis
    by (simp add: sample_yamux_def net_close_closed)
qed

text \<open>
  C33. The retry interval is always positive, so no failing session is retried in a busy loop; it is the
  service's interval, else the client's, else three seconds, as long as the seconds fit 64 bits of
  nanoseconds. Beyond that it wraps: 18446744074 seconds become 0.29.
\<close>

theorem retry_interval_bounds:
  "0 < retry_interval svc cc \<and>
   (svc_retry_interval svc \<in> {1..9223372036} \<longrightarrow> retry_interval svc cc = svc_retry_interval svc * 10 ^ 9) \<and>
   (svc_retry_interval svc \<in> {- 9223372036..0} \<longrightarrow> cl_retry_interval cc \<in> {1..9223372036} \<longrightarrow>
      retry_interval svc cc = cl_retry_interval cc * 10 ^ 9) \<and>
   (svc_retry_interval svc \<in> {- 9223372036..0} \<longrightarrow> cl_retry_interval cc \<in> {- 9223372036..0} \<longrightarrow>
      retry_interval svc cc = 3 * 10 ^ 9) \<and>
   (svc_retry_interval svc = 18446744074 \<longrightarrow> retry_interval svc cc = 290448384)"
proof (intro conjI impI)
  show "0 < retry_interval svc cc" by (simp add: retry_interval_def Let_def)
next
  assume "svc_retry_interval svc \<in> {1..9223372036}"
  then show "retry_interval svc cc = svc_retry_interval svc * 10 ^ 9"
    using seconds_exact [of "svc_retry_interval svc"] by (simp add: retry_interval_def)
next
  assume "svc_retry_interval svc \<in> {- 9223372036..0}" "cl_retry_interval cc \<in> {1..9223372036}"
  then show "retry_interval svc cc = cl_retry_interval cc * 10 ^ 9"
    using seconds_exact [of "svc_retry_interval svc"] seconds_exact [of "cl_retry_interval cc"]
    by (simp add: retry_interval_def)
next
  assume "svc_retry_interval svc \<in> {- 9223372036..0}" "cl_retry_interval cc \<in> {- 9223372036..0}"
  then show "retry_interval svc cc = 3 * 10 ^ 9"
    using seconds_exact [of "svc_retry_interval svc"] seconds_exact [of "cl_retry_interval cc"]
    by (simp add: retry_interval_def mult_le_0_iff)
next
  assume "svc_retry_interval svc = 18446744074"
  moreover have "seconds 18446744074 = 290448384" by code_simp
  ultimately show "retry_interval svc cc = 290448384" by (simp add: retry_interval_def)
qed

lemma retry_interval_bounds_witness:
  "retry_interval (sample_service 5) sample_client = 5 * 10 ^ 9 \<and> retry_interval (sample_service 0) sample_client = 2 * 10 ^ 9"
  using retry_interval_bounds [of "sample_service 5" sample_client] retry_interval_bounds [of "sample_service 0" sample_client]
  by (simp add: sample_service_def sample_client_def)

text \<open>
  The tasks of a client: one section gives, for each of its services, as many tasks as configured for
  the service, else for the client, else four; never none, and no two with the same name and number.
\<close>

theorem client_tasks_per_service:
  assumes "Client cfg = Some cc" "cl_services cc name = Some svc"
  shows "\<exists>ts. client_run cfg = Inr ts \<and>
    card {t \<in> ts. task_name t = name} = nat (mux_conns svc cc) \<and> 0 < mux_conns svc cc \<and>
    task_idx ` {t \<in> ts. task_name t = name} = {..<nat (mux_conns svc cc)} \<and>
    (\<forall>t \<in> ts. task_name t = name \<longrightarrow> task_udp t = (effective_type svc = ''udp'') \<and> task_retry t = retry_interval svc cc)"
proof -
  let ?t = "\<lambda>i. Task name i (effective_type svc = ''udp'') (retry_interval svc cc)"
  have "int i < m \<longleftrightarrow> i < nat m" for i m by linarith
  then have ts: "{t \<in> client_tasks cc. task_name t = name} = ?t ` {..<nat (mux_conns svc cc)}"
    using assms(2) by (auto simp: client_tasks_def)
  moreover have "inj_on ?t {..<nat (mux_conns svc cc)}" by (auto intro: inj_onI)
  ultimately have "card {t \<in> client_tasks cc. task_name t = name} = nat (mux_conns svc cc)"
    by (simp add: card_image)
  moreover have "task_idx ` {t \<in> client_tasks cc. task_name t = name} = {..<nat (mux_conns svc cc)}"
    unfolding ts by (simp add: image_image)
  moreover have "0 < mux_conns svc cc" by (simp add: mux_conns_def Let_def)
  ultimately show ?thesis using assms by (auto simp: client_run_def client_tasks_def)
qed

lemma client_tasks_per_service_witness:
  "card {t \<in> client_tasks sample_client. task_name t = ''web''} = 3 \<and>
    Task ''web'' 2 False (2 * 10 ^ 9) \<in> client_tasks sample_client"
proof -
  have svc: "cl_services sample_client ''web'' = Some (sample_service 0)"
    and m: "mux_conns (sample_service 0) sample_client = 3"
    by (simp_all add: sample_client_def sample_service_def mux_conns_def)
  have "seconds 0 = 0" "seconds 2 = 2 * 10 ^ 9" by code_simp+
  then have "Task ''web'' 2 False (2 * 10 ^ 9) \<in> client_tasks sample_client"
    by (auto simp: client_tasks_def sample_client_def sample_service_def mux_conns_def effective_type_def retry_interval_def)
  with client_tasks_per_service [of "\<lparr>Server = None, Client = Some sample_client\<rparr>" sample_client, OF _ svc] m
  show ?thesis by (simp add: client_run_def)
qed

end
