(* ===== verification/Handshake.thy ===== *)
theory Handshake
  imports Server Client
begin

text \<open>
  Client and server together: \<open>client.authenticate\<close> at one end of a connection, the authentication part of
  \<open>server.handleClientConn\<close> at the other. The agreement of the two ends is proved once, for any message
  channel that closing leaves alone, and holds for every transport through the interpretation \<open>netc\<close>.
\<close>

locale closable_channel = message_channel rd wr out inc ready mode peer fits
  for rd :: "'c reader" and wr :: "'c writer" and out inc ready and mode :: "'c \<Rightarrow> 'm" and peer fits +
  fixes cl :: "'c \<Rightarrow> 'c"
  assumes close_out: "out (cl c) = out c"

text \<open>What each end makes of a verdict.\<close>

definition server_outcome :: "string \<Rightarrow> string option + service_config \<Rightarrow> auth_outcome" where
  "server_outcome name v = (case v of
      Inl None \<Rightarrow> NotAuth | Inl (Some msg) \<Rightarrow> Refused msg | Inr svc \<Rightarrow> Authenticated name svc)"

definition client_outcome :: "string option + service_config \<Rightarrow> client_err + unit" where
  "client_outcome v = (case v of
      Inl None \<Rightarrow> Inl (ReadAuthResp (ReadHeader EOF)) | Inl (Some msg) \<Rightarrow> Inl (AuthFailed msg) | Inr _ \<Rightarrow> Inr ())"

definition reply_of :: "string option + service_config \<Rightarrow> envelope" where
  "reply_of v = (case v of Inr _ \<Rightarrow> auth_reply True ''OK'' | Inl (Some msg) \<Rightarrow> auth_reply False msg | Inl None \<Rightarrow> no_message)"

context closable_channel
begin

lemma server_replies:
  assumes "ReadMessage rd s = Some (s1, Inr env)" "ready s1" "auth_verdict sc env = v" "v \<noteq> Inl None"
    and "fits (reply_of v)" "env_auth env = Some a"
  shows "\<exists>s2 s3. WriteMessage wr (reply_of v) s1 = Some (s2, Inr ()) \<and> out s3 = out s2 \<and>
    server_auth rd wr cl sc s = Some (s3, server_outcome (ar_service_name a) v)"
proof -
  from send [OF assms(2,5)] obtain s2 where s2: "WriteMessage wr (reply_of v) s1 = Some (s2, Inr ())" by blast
  note sa = server_auth_verdict [OF assms(1), of wr cl sc]
  show ?thesis
  proof (cases v)
    case (Inl m)
    with assms(4) obtain msg where "v = Inl (Some msg)" by (cases m) auto
    with s2 sa assms(3) show ?thesis
      by (auto simp: reply_of_def server_outcome_def refuse_def sendAuthFail_def close_out)
  next
    case (Inr svc)
    with s2 sa assms(3,6) show ?thesis by (auto simp: reply_of_def server_outcome_def)
  qed
qed

lemma client_receives:
  assumes "GetServiceToken (svc_token svc) (cl_default_token cc) = tok" "tok \<noteq> []"
    and "WriteMessage wr (client_auth_request name svc tok) c = Some (c1, Inr ())"
    and "ReadMessage rd c1 = Some (c2, Inr (reply_of v))" "v \<noteq> Inl None"
  shows "authenticate rd wr name svc cc c = Some (c2, client_outcome v)"
proof (cases v)
  case (Inl m)
  with assms(5) obtain msg where "v = Inl (Some msg)" by (cases m) auto
  with assms show ?thesis
    by (simp add: authenticate_def reply_of_def client_outcome_def auth_reply_def io_bind_def io_wrap_def)
next
  case (Inr svc')
  with assms show ?thesis
    by (simp add: authenticate_def reply_of_def client_outcome_def auth_reply_def io_bind_def io_wrap_def)
qed

lemma handshake:
  assumes "ready c" "ready s" "peer (mode c) (mode s)" "peer (mode s) (mode c)"
    and "GetServiceToken (svc_token svc) (cl_default_token cc) = tok" "tok \<noteq> []"
    and "req = client_auth_request name svc tok" "fits req" "envelope_ok req"
    and "auth_verdict sc req = v" "fits (reply_of v)" "envelope_ok (reply_of v)"
    and "WriteMessage wr req c = Some (c1, w)" "inc s = drop (length (out c)) (out c1)"
  shows "\<exists>s3. server_auth rd wr cl sc s = Some (s3, server_outcome name v) \<and>
    (inc c = drop (length (out s)) (out s3) \<longrightarrow> (\<exists>c2. authenticate rd wr name svc cc c = Some (c2, client_outcome v)))"
proof -
  from send [OF assms(1,8)] assms(13) have c1: "w = Inr ()" "ready c1" "inc c1 = inc c" "mode c1 = mode c" by auto
  from recv [OF assms(1-3,8,9,13,14)] obtain s1 where
    s1: "ReadMessage rd s = Some (s1, Inr req)" "ready s1" "out s1 = out s" "mode s1 = mode s" by blast
  have a: "env_auth req = Some (the (env_auth req))" "ar_service_name (the (env_auth req)) = name"
    unfolding assms(7) by (simp_all add: client_auth_request_def)
  have v: "v \<noteq> Inl None"
    using a assms(10) by (auto simp: auth_verdict_def Let_def split: option.splits if_splits)
  from server_replies [OF s1(1,2) assms(10) v assms(11) a(1)] a(2) obtain s2 s3 where
    s3: "WriteMessage wr (reply_of v) s1 = Some (s2, Inr ())" "out s3 = out s2"
    "server_auth rd wr cl sc s = Some (s3, server_outcome name v)" by auto
  have "\<exists>c2. authenticate rd wr name svc cc c = Some (c2, client_outcome v)" if "inc c = drop (length (out s)) (out s3)"
  proof -
    have "inc c1 = drop (length (out s1)) (out s2)" "peer (mode s1) (mode c1)"
      using that c1 s1 s3 assms(4) by simp_all
    from recv [OF s1(2) c1(2) this(2) assms(11,12) s3(1) this(1)] obtain c2 where
      "ReadMessage rd c1 = Some (c2, Inr (reply_of v))" by blast
    with client_receives [OF assms(5,6) _ this v] assms(7,13) c1(1) show ?thesis by simp
  qed
  with s3(3) show ?thesis by blast
qed

end

interpretation netc: closable_channel net_read net_write "\<lambda>c. tx (net_raw c)" "\<lambda>c. conn_pending (net_raw c)" net_ready
  net_mode net_peer net_fits net_close
  by unfold_locales (simp add: net_close_raw conn_close_def)

subsection \<open>Sizes and texts of the messages\<close>

lemma client_auth_request_ok:
  assumes "valid_utf8 name" "valid_utf8 (svc_type svc)" "length name \<le> 5000" "length (svc_type svc) \<le> 1000"
  shows "net_fits (client_auth_request name svc tok) \<and> envelope_ok (client_auth_request name svc tok)"
proof -
  have ty: "valid_utf8 (effective_type svc)" "length (effective_type svc) \<le> 1000"
    using assms(2,4) valid_utf8_ascii [of "''tcp''"] by (simp_all add: effective_type_def ord_def)
  let ?a = "\<lparr>ar_service_name = name, ar_token_hash = HashToken tok, ar_service_type = effective_type svc,
    ar_mux_enabled = True, ar_mux_streams = of_int (svc_mux_streams svc)\<rparr>"
  have "length (json_print (envelope_json (no_message\<lparr>env_auth := Some ?a\<rparr>))) \<le> 65535"
    using auth_message_length [of ?a] ty(2) assms(3) by simp
  with ty(1) assms(1) show ?thesis
    by (simp add: client_auth_request_def net_fits_def envelope_ok_def auth_request_ok_def no_message_def)
qed

lemma auth_reply_ok:
  assumes "valid_utf8 msg" "length msg \<le> 10000"
  shows "net_fits (auth_reply ok msg) \<and> envelope_ok (auth_reply ok msg)"
  using auth_reply_length [of ok msg] assms
  by (simp add: net_fits_def envelope_ok_def auth_reply_def auth_response_ok_def no_message_def)

lemma ascii_texts_utf8:
  "valid_utf8 ''no token configured''" "valid_utf8 ''bad token''" "valid_utf8 ''OK''"
  "valid_utf8 (''unknown service: '' @ name) \<longleftrightarrow> valid_utf8 name"
proof -
  have "list_all (\<lambda>c. ord c < 0x80) ''no token configured''" "list_all (\<lambda>c. ord c < 0x80) ''bad token''"
    "list_all (\<lambda>c. ord c < 0x80) ''OK''" "list_all (\<lambda>c. ord c < 0x80) ''unknown service: ''" by code_simp+
  then show "valid_utf8 ''no token configured''" "valid_utf8 ''bad token''" "valid_utf8 ''OK''"
    "valid_utf8 (''unknown service: '' @ name) \<longleftrightarrow> valid_utf8 name"
    by (simp_all only: list_all_iff valid_utf8_ascii valid_utf8_ascii_append)
qed

lemma verdict_reply_ok:
  assumes "auth_verdict sc env = v" "v \<noteq> Inl None" "env_auth env = Some a"
    and "valid_utf8 (ar_service_name a)" "length (ar_service_name a) \<le> 5000"
  shows "net_fits (reply_of v) \<and> envelope_ok (reply_of v)"
proof -
  show ?thesis
  proof (cases v)
    case (Inl m)
    with assms(2) obtain msg where v: "v = Inl (Some msg)" by (cases m) auto
    with assms(1,3) have "msg \<in> {''unknown service: '' @ ar_service_name a, ''no token configured'', ''bad token''}"
      by (auto simp: auth_verdict_def Let_def split: option.splits if_splits)
    then have "valid_utf8 msg" "length msg \<le> 10000" using assms(4,5) ascii_texts_utf8 by auto
    from auth_reply_ok [OF this] v show ?thesis by (simp add: reply_of_def)
  next
    case (Inr svc)
    with auth_reply_ok [OF ascii_texts_utf8(3)] show ?thesis by (simp add: reply_of_def)
  qed
qed

subsection \<open>Properties\<close>

text \<open>
  C3. The handshake agrees on every transport. Over two ends of one TCP, TLS, WebSocket or noise
  connection, the server decides on the client's request and answers it, and once the answer has arrived
  the client returns the same decision: it succeeds exactly when the server keeps the connection, which
  is when the service exists, its token is not empty and the two tokens have the same hash; and a refusal
  reaches it with the server's reason.
\<close>

theorem handshake_agrees:
  assumes "net_ready c" "net_ready s" "net_peer (net_mode c) (net_mode s)" "net_peer (net_mode s) (net_mode c)"
    and "GetServiceToken (svc_token svc) (cl_default_token cc) = tok" "tok \<noteq> []"
    and "valid_utf8 name" "valid_utf8 (svc_type svc)" "length name \<le> 5000" "length (svc_type svc) \<le> 1000"
    and "WriteMessage net_write (client_auth_request name svc tok) c = Some (c1, w)"
    and "conn_pending (net_raw s) = drop (length (tx (net_raw c))) (tx (net_raw c1))"
  shows "\<exists>s2 v. server_auth net_read net_write net_close sc s = Some (s2, v) \<and>
    (conn_pending (net_raw c) = drop (length (tx (net_raw s))) (tx (net_raw s2)) \<longrightarrow>
      (\<exists>c2 r. authenticate net_read net_write name svc cc c = Some (c2, r) \<and>
        (case srv_services sc name of
          None \<Rightarrow> v = Refused (''unknown service: '' @ name) \<and> r = Inl (AuthFailed (''unknown service: '' @ name))
        | Some svc' \<Rightarrow>
            (let tok' = GetServiceToken (svc_token svc') (srv_default_token sc) in
             if tok' = [] then v = Refused ''no token configured'' \<and> r = Inl (AuthFailed ''no token configured'')
             else if HashToken tok' \<noteq> HashToken tok then v = Refused ''bad token'' \<and> r = Inl (AuthFailed ''bad token'')
             else v = Authenticated name svc' \<and> r = Inr ()))))"
proof -
  let ?req = "client_auth_request name svc tok"
  let ?v = "auth_verdict sc ?req"
  obtain q where a: "env_auth ?req = Some q" "ar_service_name q = name" "ar_token_hash q = HashToken tok"
    by (simp add: client_auth_request_def)
  have v: "?v = (case srv_services sc name of None \<Rightarrow> Inl (Some (''unknown service: '' @ name))
      | Some svc' \<Rightarrow> (let tok' = GetServiceToken (svc_token svc') (srv_default_token sc) in
         if tok' = [] then Inl (Some ''no token configured'')
         else if HashToken tok \<noteq> HashToken tok' then Inl (Some ''bad token'') else Inr svc'))"
    unfolding auth_verdict_def a(1) by (simp add: a(2,3) Let_def split: option.split)
  then have "?v \<noteq> Inl None" by (auto simp: Let_def split: option.splits if_splits)
  from verdict_reply_ok [OF refl this a(1)] a(2) assms(7,9)
  have reply: "net_fits (reply_of ?v)" "envelope_ok (reply_of ?v)" by auto
  from client_auth_request_ok [OF assms(7-10), of tok] have req: "net_fits ?req" "envelope_ok ?req" by auto
  from netc.handshake [OF assms(1-6) refl req refl reply assms(11,12)] obtain s3 where
    "server_auth net_read net_write net_close sc s = Some (s3, server_outcome name ?v)"
    "conn_pending (net_raw c) = drop (length (tx (net_raw s))) (tx (net_raw s3)) \<longrightarrow>
      (\<exists>c2. authenticate net_read net_write name svc cc c = Some (c2, client_outcome ?v))" by blast
  then show ?thesis
    unfolding v by (auto simp: server_outcome_def client_outcome_def Let_def split: option.split)
qed

definition web_client :: client_config where
  "web_client = \<lparr>cl_remote_addr = ''vps:1'', cl_default_token = ''k'', cl_heartbeat_timeout = 0, cl_retry_interval = 0,
     cl_mux_connections = 0, cl_transport = None, cl_services = [''web'' \<mapsto> web_service []]\<rparr>"

lemma handshake_agrees_witness:
  "\<exists>c2 s2. server_auth net_read net_write net_close web_server
      (RawConn (idle_conn\<lparr>rx := [encode_message (client_auth_request ''web'' (web_service []) ''k'')]\<rparr>)) =
        Some (s2, Authenticated ''web'' (web_service [])) \<and>
    authenticate net_read net_write ''web'' (web_service []) web_client
      (RawConn (idle_conn\<lparr>rx := [encode_message (auth_reply True ''OK'')]\<rparr>)) = Some (c2, Inr ())"
proof -
  let ?req = "client_auth_request ''web'' (web_service []) ''k''"
  let ?c = "idle_conn\<lparr>rx := [encode_message (auth_reply True ''OK'')]\<rparr>"
  let ?s = "idle_conn\<lparr>rx := [encode_message ?req]\<rparr>"
  have n: "net_ready (RawConn ?c)" "net_ready (RawConn ?s)"
    "net_peer (net_mode (RawConn ?c)) (net_mode (RawConn ?s))" "net_peer (net_mode (RawConn ?s)) (net_mode (RawConn ?c))"
    by (simp_all add: net_ready_def net_peer_def net_mode_def conn_can_send_def idle_conn_def)
  have t: "GetServiceToken (svc_token (web_service [])) (cl_default_token web_client) = ''k''" "''k'' \<noteq> ([] :: string)"
    by (simp_all add: GetServiceToken_def web_service_def)
  have u: "valid_utf8 ''web''" "valid_utf8 (svc_type (web_service []))" "length ''web'' \<le> 5000"
    "length (svc_type (web_service [])) \<le> 1000" using web_names_utf8 by (simp_all add: web_service_def)
  have fits: "message_fits ?req" "envelope_ok ?req"
    using client_auth_request_ok [OF u, of "''k''"] net_fits_all by auto
  have send: "conn_can_send ?c" by (simp add: conn_can_send_def idle_conn_def)
  from tcpw.WriteMessage_sends [OF send fits(1)] obtain c1 where
    "WriteMessage conn_write ?req ?c = Some (c1, Inr ())" "tx c1 = tx ?c @ encode_message ?req" by blast
  then have w: "WriteMessage net_write ?req (RawConn ?c) = Some (RawConn c1, Inr ())"
    "conn_pending (net_raw (RawConn ?s)) = drop (length (tx (net_raw (RawConn ?c)))) (tx (net_raw (RawConn c1)))"
    by (simp_all add: net_WriteMessage conn_pending_def idle_conn_def)
  from handshake_agrees [OF n t u w, of web_server] obtain s2 v where
    a: "server_auth net_read net_write net_close web_server (RawConn ?s) = Some (s2, v)"
    "conn_pending (net_raw (RawConn ?c)) = drop (length (tx (net_raw (RawConn ?s)))) (tx (net_raw s2)) \<longrightarrow>
      (\<exists>c2. authenticate net_read net_write ''web'' (web_service []) web_client (RawConn ?c) = Some (c2, Inr ()) \<and>
        v = Authenticated ''web'' (web_service []))"
    by (auto simp: web_server_def web_service_def GetServiceToken_def)
  have "conn_can_send ?s" "conn_pending ?s = encode_message ?req @ []"
    by (simp_all add: conn_can_send_def idle_conn_def conn_pending_def)
  from tcp.ReadMessage_encoded [OF this(2) fits(2,1)] this(1) obtain s1 where
    s1: "ReadMessage conn_read ?s = Some (s1, Inr ?req)" "conn_can_send s1" "tx s1 = []"
    by (auto simp: conn_kept_def conn_can_send_def idle_conn_def)
  from tcpw.WriteMessage_sends [OF s1(2) auth_reply_fits [of "''OK''" True]] obtain s3 where
    s3: "WriteMessage conn_write (auth_reply True ''OK'') s1 = Some (s3, Inr ())" "tx s3 = encode_message (auth_reply True ''OK'')"
    using s1(3) by auto
  have "auth_verdict web_server ?req = Inr (web_service [])"
    by (simp add: auth_verdict_def client_auth_request_def web_server_def web_service_def GetServiceToken_def)
  then have "s2 = RawConn s3"
    using a(1) s1(1) s3(1) server_auth_verdict [of net_read "RawConn ?s" "RawConn s1" ?req net_write net_close web_server]
    by (simp add: net_ReadMessage net_WriteMessage)
  with a(2) s3(2) have "v = Authenticated ''web'' (web_service []) \<and>
      (\<exists>c2. authenticate net_read net_write ''web'' (web_service []) web_client (RawConn ?c) = Some (c2, Inr ()))"
    by (auto simp: conn_pending_def idle_conn_def)
  with a(1) show ?thesis by blast
qed

end
