(* ===== verification/Relay.thy ===== *)
theory Relay
  imports GoNet
begin

text \<open>
  \<open>go-core/relay/relay.go\<close>: the two goroutines that copy between two connections until both directions have
  ended, as a step relation: one step is one round of \<open>io.Copy\<close> (a read and the write of what it gave), the
  end of a direction, or the final \<open>Close\<close> of both. An endpoint is a connection, whether its dynamic type
  is \<open>*net.TCPConn\<close> (a yamux stream is not), and whether its write side was shut down.
\<close>

record endpoint =
  ep_conn :: conn
  ep_tcp :: bool
  ep_fin :: bool

definition copy_buffer :: nat where
  "copy_buffer = 32 * 1024"

text \<open>One round of \<open>io.Copy(dst, src)\<close>: the two connections, and whether the copy has ended.\<close>

definition copy_round :: "conn \<Rightarrow> conn \<Rightarrow> (conn \<times> conn \<times> bool) option" where
  "copy_round src dst = (case conn_read copy_buffer src of
      None \<Rightarrow> None
    | Some (src', d, e) \<Rightarrow>
        if d = [] then Some (src', dst, e \<noteq> None)
        else (case conn_write d dst of
          (dst', n, ew) \<Rightarrow> Some (src', dst', ew \<noteq> None \<or> n \<noteq> length d \<or> e \<noteq> None)))"

definition close_write :: "endpoint \<Rightarrow> endpoint" where
  "close_write p = (if ep_tcp p then p\<lparr>ep_fin := True\<rparr> else p)"

definition ep_close :: "endpoint \<Rightarrow> endpoint" where
  "ep_close p = p\<lparr>ep_conn := conn_close (ep_conn p)\<rparr>"

record relay =
  re_a :: endpoint
  re_b :: endpoint
  re_a_done :: bool
  re_b_done :: bool
  re_closed :: bool

definition relay_start :: "endpoint \<Rightarrow> endpoint \<Rightarrow> relay" where
  "relay_start a b = \<lparr>re_a = a, re_b = b, re_a_done = False, re_b_done = False, re_closed = False\<rparr>"

text \<open>\<open>to_a\<close>: the goroutine of \<open>io.Copy(a, b)\<close>.\<close>

inductive relay_step :: "relay \<Rightarrow> relay \<Rightarrow> bool" where
  to_a: "\<not> re_a_done s \<Longrightarrow> copy_round (ep_conn (re_b s)) (ep_conn (re_a s)) = Some (src, dst, False) \<Longrightarrow>
    relay_step s (s\<lparr>re_a := (re_a s)\<lparr>ep_conn := dst\<rparr>, re_b := (re_b s)\<lparr>ep_conn := src\<rparr>\<rparr>)"
| to_a_ends: "\<not> re_a_done s \<Longrightarrow> copy_round (ep_conn (re_b s)) (ep_conn (re_a s)) = Some (src, dst, True) \<Longrightarrow>
    relay_step s (s\<lparr>re_a := close_write ((re_a s)\<lparr>ep_conn := dst\<rparr>), re_b := (re_b s)\<lparr>ep_conn := src\<rparr>, re_a_done := True\<rparr>)"
| to_b: "\<not> re_b_done s \<Longrightarrow> copy_round (ep_conn (re_a s)) (ep_conn (re_b s)) = Some (src, dst, False) \<Longrightarrow>
    relay_step s (s\<lparr>re_b := (re_b s)\<lparr>ep_conn := dst\<rparr>, re_a := (re_a s)\<lparr>ep_conn := src\<rparr>\<rparr>)"
| to_b_ends: "\<not> re_b_done s \<Longrightarrow> copy_round (ep_conn (re_a s)) (ep_conn (re_b s)) = Some (src, dst, True) \<Longrightarrow>
    relay_step s (s\<lparr>re_b := close_write ((re_b s)\<lparr>ep_conn := dst\<rparr>), re_a := (re_a s)\<lparr>ep_conn := src\<rparr>, re_b_done := True\<rparr>)"
| finish: "re_a_done s \<Longrightarrow> re_b_done s \<Longrightarrow> \<not> re_closed s \<Longrightarrow>
    relay_step s (s\<lparr>re_a := ep_close (re_a s), re_b := ep_close (re_b s), re_closed := True\<rparr>)"

inductive_cases relay_stepE: "relay_step s s'"

subsection \<open>One round\<close>

text \<open>
  While the destination takes everything, a round moves bytes from what is pending at the source to what
  was sent at the destination, and ends the copy only when the source has ended.
\<close>

lemma copy_round_moves:
  assumes "copy_round src dst = Some (src', dst', ended)" "conn_can_send dst" "opened src"
  shows "tx dst' @ conn_pending src' = tx dst @ conn_pending src \<and> conn_can_send dst' \<and> conn_kept src' = conn_kept src \<and>
    rx dst' = rx dst \<and> rx_end dst' = rx_end dst \<and>
    (ended \<longrightarrow> conn_pending src' = [] \<and> rx_end src \<noteq> None) \<and> rx_end src' = rx_end src \<and>
    conn_left src' + (if ended then 0 else 1) \<le> conn_left src"
proof -
  have n: "0 < copy_buffer" by (simp add: copy_buffer_def)
  obtain d e where r: "conn_read copy_buffer src = Some (src', d, e)"
    using assms(1) by (auto simp: copy_round_def split: option.splits if_splits prod.splits)
  show ?thesis
  proof (cases e)
    case None
    with tcp.rd_progress [OF n] r have "conn_pending src = d @ conn_pending src'" "conn_fin src' = conn_fin src"
      "conn_kept src' = conn_kept src" "conn_left src' < conn_left src" by auto
    with assms r None show ?thesis
      by (auto simp: copy_round_def conn_kept_def conn_fin_def split: if_splits)
  next
    case (Some x)
    with tcp.rd_error [OF n, of src src' d x] r have d: "d = []" "conn_fin src = Some x" by auto
    from r Some have "src' = src" by (auto intro: tcps.rd_error_same)
    moreover have "conn_pending src = []"
      using r Some assms(3) by (auto simp: conn_read_def conn_pending_def split: if_splits list.splits option.splits)
    ultimately show ?thesis using assms r Some d by (auto simp: copy_round_def conn_fin_def)
  qed
qed

lemma copy_round_returns:
  assumes "conn_pending src \<noteq> [] \<or> rx_end src \<noteq> None \<or> rx src \<noteq> []" "opened src"
  shows "\<exists>r. copy_round src dst = Some r"
proof -
  have "\<exists>r. conn_read copy_buffer src = Some r"
    using assms by (auto simp: conn_read_def conn_pending_def copy_buffer_def split: list.split)
  then show ?thesis by (auto simp: copy_round_def split: prod.split)
qed

subsection \<open>The invariant of a relay\<close>

text \<open>
  From \<open>a\<close> and \<open>b\<close> on: what each end was sent and what the other has still to be read make up the whole
  of the stream, a direction has ended only when its source has, and the write side of a TCP connection is
  shut down exactly when the copy to it has ended.
\<close>

definition flows :: "conn \<Rightarrow> conn \<Rightarrow> conn \<Rightarrow> conn \<Rightarrow> bool \<Rightarrow> bool" where
  "flows src0 dst0 src dst ended \<longleftrightarrow> tx dst @ conn_pending src = tx dst0 @ conn_pending src0 \<and>
     rx_end src = rx_end src0 \<and> (ended \<longrightarrow> conn_pending src = [] \<and> rx_end src0 \<noteq> None)"

definition ep_kept :: "endpoint \<Rightarrow> endpoint \<Rightarrow> bool \<Rightarrow> bool" where
  "ep_kept p0 p ended \<longleftrightarrow> ep_tcp p = ep_tcp p0 \<and> ep_fin p = (ep_fin p0 \<or> ended \<and> ep_tcp p0)"

definition relay_ok :: "endpoint \<Rightarrow> endpoint \<Rightarrow> relay \<Rightarrow> bool" where
  "relay_ok a b s \<longleftrightarrow> ep_kept a (re_a s) (re_a_done s) \<and> ep_kept b (re_b s) (re_b_done s) \<and>
     (if re_closed s then re_a_done s \<and> re_b_done s \<and> rx_end (ep_conn a) \<noteq> None \<and> rx_end (ep_conn b) \<noteq> None \<and>
        tx (ep_conn (re_a s)) = tx (ep_conn a) @ conn_pending (ep_conn b) \<and>
        tx (ep_conn (re_b s)) = tx (ep_conn b) @ conn_pending (ep_conn a) \<and>
        \<not> opened (ep_conn (re_a s)) \<and> \<not> opened (ep_conn (re_b s))
      else conn_can_send (ep_conn (re_a s)) \<and> conn_can_send (ep_conn (re_b s)) \<and>
        flows (ep_conn b) (ep_conn a) (ep_conn (re_b s)) (ep_conn (re_a s)) (re_a_done s) \<and>
        flows (ep_conn a) (ep_conn b) (ep_conn (re_a s)) (ep_conn (re_b s)) (re_b_done s))"

lemma flows_round:
  assumes "copy_round src dst = Some (src', dst', ended)" "conn_can_send dst" "conn_can_send src"
    and "flows src0 dst0 src dst False" "flows dst0 src0 dst src other"
  shows "flows src0 dst0 src' dst' ended" "flows dst0 src0 dst' src' other"
    "conn_can_send dst'" "conn_can_send src'"
proof -
  have "opened src" "opened dst" using assms(2,3) by (simp_all add: conn_can_send_def)
  note m = copy_round_moves [OF assms(1,2) this(1)]
  from m assms(4) show "flows src0 dst0 src' dst' ended" by (auto simp: flows_def)
  from m show "conn_can_send dst'" by blast
  from m assms(3) show "conn_can_send src'" by (auto simp: conn_kept_def conn_can_send_def)
  have "conn_pending dst' = conn_pending dst"
    using m \<open>opened dst\<close> by (auto simp: conn_pending_def conn_can_send_def)
  with m assms(5) show "flows dst0 src0 dst' src' other" by (auto simp: flows_def conn_kept_def)
qed

lemma relay_running:
  assumes "relay_ok a b s" "\<not> re_a_done s \<or> \<not> re_b_done s"
  shows "\<not> re_closed s" "conn_can_send (ep_conn (re_a s))" "conn_can_send (ep_conn (re_b s))"
    "flows (ep_conn b) (ep_conn a) (ep_conn (re_b s)) (ep_conn (re_a s)) (re_a_done s)"
    "flows (ep_conn a) (ep_conn b) (ep_conn (re_a s)) (ep_conn (re_b s)) (re_b_done s)"
proof -
  show c: "\<not> re_closed s" using assms by (auto simp: relay_ok_def)
  with assms(1) show "conn_can_send (ep_conn (re_a s))" "conn_can_send (ep_conn (re_b s))"
    "flows (ep_conn b) (ep_conn a) (ep_conn (re_b s)) (ep_conn (re_a s)) (re_a_done s)"
    "flows (ep_conn a) (ep_conn b) (ep_conn (re_a s)) (ep_conn (re_b s)) (re_b_done s)"
    by (simp_all add: relay_ok_def)
qed

lemma relay_step_ok: "relay_step s s' \<Longrightarrow> relay_ok a b s \<Longrightarrow> relay_ok a b s'"
proof (induction rule: relay_step.induct)
  case (to_a s src dst)
  then have r: "\<not> re_a_done s \<or> \<not> re_b_done s" by simp
  note k = relay_running [OF to_a.prems this]
  have "flows (ep_conn b) (ep_conn a) (ep_conn (re_b s)) (ep_conn (re_a s)) False" using k(4) to_a.hyps(1) by simp
  from flows_round [OF to_a.hyps(2) k(2,3) this k(5)] to_a k(1) show ?case by (simp add: relay_ok_def ep_kept_def)
next
  case (to_a_ends s src dst)
  then have r: "\<not> re_a_done s \<or> \<not> re_b_done s" by simp
  note k = relay_running [OF to_a_ends.prems this]
  have "flows (ep_conn b) (ep_conn a) (ep_conn (re_b s)) (ep_conn (re_a s)) False" using k(4) to_a_ends.hyps(1) by simp
  from flows_round [OF to_a_ends.hyps(2) k(2,3) this k(5)] to_a_ends k(1) show ?case
    by (auto simp: relay_ok_def ep_kept_def close_write_def)
next
  case (to_b s src dst)
  then have r: "\<not> re_a_done s \<or> \<not> re_b_done s" by simp
  note k = relay_running [OF to_b.prems this]
  have "flows (ep_conn a) (ep_conn b) (ep_conn (re_a s)) (ep_conn (re_b s)) False" using k(5) to_b.hyps(1) by simp
  from flows_round [OF to_b.hyps(2) k(3,2) this k(4)] to_b k(1) show ?case by (simp add: relay_ok_def ep_kept_def)
next
  case (to_b_ends s src dst)
  then have r: "\<not> re_a_done s \<or> \<not> re_b_done s" by simp
  note k = relay_running [OF to_b_ends.prems this]
  have "flows (ep_conn a) (ep_conn b) (ep_conn (re_a s)) (ep_conn (re_b s)) False" using k(5) to_b_ends.hyps(1) by simp
  from flows_round [OF to_b_ends.hyps(2) k(3,2) this k(4)] to_b_ends k(1) show ?case
    by (auto simp: relay_ok_def ep_kept_def close_write_def)
next
  case (finish s)
  then show ?case by (auto simp: relay_ok_def ep_kept_def flows_def ep_close_def conn_close_def)
qed

lemma relay_start_ok:
  "conn_can_send (ep_conn a) \<Longrightarrow> conn_can_send (ep_conn b) \<Longrightarrow> relay_ok a b (relay_start a b)"
  by (simp add: relay_ok_def relay_start_def ep_kept_def flows_def)

lemma relay_steps_ok: "relay_step\<^sup>*\<^sup>* s s' \<Longrightarrow> relay_ok a b s \<Longrightarrow> relay_ok a b s'"
  by (induction rule: rtranclp_induct) (auto dest: relay_step_ok)

text \<open>How many steps a relay can still make.\<close>

definition relay_left :: "relay \<Rightarrow> nat" where
  "relay_left s = conn_left (ep_conn (re_a s)) + conn_left (ep_conn (re_b s)) +
     (if re_a_done s then 0 else 1) + (if re_b_done s then 0 else 1) + (if re_closed s then 0 else 1)"

lemma round_left:
  assumes "copy_round src dst = Some (src', dst', ended)" "conn_can_send dst" "conn_can_send src"
  shows "conn_left src' + (if ended then 0 else 1) \<le> conn_left src \<and> conn_left dst' = conn_left dst"
  using copy_round_moves [OF assms(1,2)] assms(3) by (auto simp: conn_can_send_def conn_left_def)

lemma relay_step_left: "relay_step s s' \<Longrightarrow> relay_ok a b s \<Longrightarrow> relay_left s' < relay_left s"
proof (induction rule: relay_step.induct)
  case (to_a s src dst)
  then have "\<not> re_a_done s \<or> \<not> re_b_done s" by simp
  from round_left [OF to_a.hyps(2) relay_running(2,3) [OF to_a.prems this]] show ?case by (simp add: relay_left_def)
next
  case (to_a_ends s src dst)
  then have "\<not> re_a_done s \<or> \<not> re_b_done s" by simp
  from round_left [OF to_a_ends.hyps(2) relay_running(2,3) [OF to_a_ends.prems this]] to_a_ends.hyps(1)
  show ?case by (simp add: relay_left_def close_write_def)
next
  case (to_b s src dst)
  then have "\<not> re_a_done s \<or> \<not> re_b_done s" by simp
  from round_left [OF to_b.hyps(2) relay_running(3,2) [OF to_b.prems this]] show ?case by (simp add: relay_left_def)
next
  case (to_b_ends s src dst)
  then have "\<not> re_a_done s \<or> \<not> re_b_done s" by simp
  from round_left [OF to_b_ends.hyps(2) relay_running(3,2) [OF to_b_ends.prems this]] to_b_ends.hyps(1)
  show ?case by (simp add: relay_left_def close_write_def)
next
  case (finish s)
  then show ?case by (simp add: relay_left_def ep_close_def conn_close_def conn_left_def)
qed

lemma relay_run_left: "(relay_step ^^ n) s s' \<Longrightarrow> relay_ok a b s \<Longrightarrow> relay_ok a b s' \<and> n + relay_left s' \<le> relay_left s"
proof (induction n arbitrary: s')
  case (Suc n)
  then obtain t where "(relay_step ^^ n) s t" "relay_step t s'" by auto
  with Suc.IH [of t] Suc.prems(2) relay_step_ok relay_step_left [of t s'] show ?case by fastforce
qed simp

lemma relay_progress:
  assumes "relay_ok a b s" "rx_end (ep_conn a) \<noteq> None" "rx_end (ep_conn b) \<noteq> None" "\<not> re_closed s"
  shows "\<exists>s'. relay_step s s'"
proof -
  have o: "opened (ep_conn (re_a s))" "opened (ep_conn (re_b s))" "rx_end (ep_conn (re_a s)) \<noteq> None"
    "rx_end (ep_conn (re_b s)) \<noteq> None"
    using assms by (auto simp: relay_ok_def conn_can_send_def flows_def)
  consider "\<not> re_a_done s" | "\<not> re_b_done s" | "re_a_done s" "re_b_done s" by blast
  then show ?thesis
  proof cases
    case 1
    obtain src dst e where "copy_round (ep_conn (re_b s)) (ep_conn (re_a s)) = Some (src, dst, e)"
      using copy_round_returns [OF _ o(2)] o(4) by (metis prod_cases3)
    with 1 show ?thesis by (cases e) (auto intro: relay_step.intros)
  next
    case 2
    obtain src dst e where "copy_round (ep_conn (re_a s)) (ep_conn (re_b s)) = Some (src, dst, e)"
      using copy_round_returns [OF _ o(1)] o(3) by (metis prod_cases3)
    with 2 show ?thesis by (cases e) (auto intro: relay_step.intros)
  next
    case 3
    with assms(4) show ?thesis by (blast intro: relay_step.finish)
  qed
qed

lemma relay_final:
  assumes "relay_ok a b s" "rx_end (ep_conn a) \<noteq> None" "rx_end (ep_conn b) \<noteq> None"
  shows "(\<exists>s'. relay_step s s') \<or>
      tx (ep_conn (re_a s)) = tx (ep_conn a) @ conn_pending (ep_conn b) \<and>
      tx (ep_conn (re_b s)) = tx (ep_conn b) @ conn_pending (ep_conn a) \<and>
      \<not> opened (ep_conn (re_a s)) \<and> \<not> opened (ep_conn (re_b s))"
  using relay_progress [OF assms] assms(1) by (cases "re_closed s") (auto simp: relay_ok_def)

subsection \<open>Properties\<close>

text \<open>
  C4. The relay delivers both streams in full and ends: between two connections whose incoming streams end
  and that take what is written, every run of the two goroutines, however they interleave, stops after a
  bounded number of steps, and where it stops each side has been sent exactly what the other side had sent,
  in order, and both connections are closed.
\<close>

theorem relay_complete:
  assumes "conn_can_send (ep_conn a)" "conn_can_send (ep_conn b)"
    and "rx_end (ep_conn a) \<noteq> None" "rx_end (ep_conn b) \<noteq> None"
    and "(relay_step ^^ n) (relay_start a b) s"
  shows "n \<le> conn_left (ep_conn a) + conn_left (ep_conn b) + 3 \<and>
    ((\<exists>s'. relay_step s s') \<or>
      tx (ep_conn (re_a s)) = tx (ep_conn a) @ conn_pending (ep_conn b) \<and>
      tx (ep_conn (re_b s)) = tx (ep_conn b) @ conn_pending (ep_conn a) \<and>
      \<not> opened (ep_conn (re_a s)) \<and> \<not> opened (ep_conn (re_b s)))"
proof -
  from relay_run_left [OF assms(5) relay_start_ok [OF assms(1,2)]]
  have r: "relay_ok a b s" "n \<le> relay_left (relay_start a b)" by auto
  with relay_final [OF r(1) assms(3,4)] show ?thesis by (auto simp: relay_left_def relay_start_def)
qed

definition visitor_end :: "bytes list \<Rightarrow> endpoint" where
  "visitor_end segs = \<lparr>ep_conn = idle_conn\<lparr>rx := segs, rx_end := Some EOF\<rparr>, ep_tcp = True, ep_fin = False\<rparr>"

definition stream_end :: "io_err option \<Rightarrow> endpoint" where
  "stream_end e = \<lparr>ep_conn = idle_conn\<lparr>rx_end := e\<rparr>, ep_tcp = False, ep_fin = False\<rparr>"

lemma relay_complete_witness:
  "\<exists>s. (relay_step ^^ 4) (relay_start (visitor_end [[1, 2]]) (stream_end (Some EOF))) s \<and>
    tx (ep_conn (re_b s)) = [1, 2] \<and> \<not> opened (ep_conn (re_a s))"
proof -
  let ?s0 = "relay_start (visitor_end [[1, 2]]) (stream_end (Some EOF))"
  let ?b1 = "(re_b ?s0)\<lparr>ep_conn := (ep_conn (re_b ?s0))\<lparr>tx := [1, 2]\<rparr>\<rparr>"
  let ?a1 = "(re_a ?s0)\<lparr>ep_conn := (ep_conn (re_a ?s0))\<lparr>rx := []\<rparr>\<rparr>"
  let ?s1 = "?s0\<lparr>re_b := ?b1, re_a := ?a1\<rparr>"
  note defs = relay_start_def visitor_end_def stream_end_def idle_conn_def copy_round_def conn_read_def copy_buffer_def
    conn_write_def
  have 1: "relay_step ?s0 ?s1"
    by (rule relay_step.to_b) (simp_all add: defs)
  let ?s2 = "?s1\<lparr>re_b := close_write ?b1, re_a := ?a1, re_b_done := True\<rparr>"
  have "?s2 = ?s1\<lparr>re_b := close_write ((re_b ?s1)\<lparr>ep_conn := ep_conn ?b1\<rparr>), re_a := (re_a ?s1)\<lparr>ep_conn := ep_conn ?a1\<rparr>,
      re_b_done := True\<rparr>" by simp
  moreover have "relay_step ?s1 \<dots>" by (rule relay_step.to_b_ends) (simp_all add: defs)
  ultimately have 2: "relay_step ?s1 ?s2" by simp
  let ?s3 = "?s2\<lparr>re_a := close_write ((re_a ?s2)\<lparr>ep_conn := ep_conn ?a1\<rparr>), re_b := (re_b ?s2)\<lparr>ep_conn := ep_conn ?b1\<rparr>,
      re_a_done := True\<rparr>"
  have 3: "relay_step ?s2 ?s3" by (rule relay_step.to_a_ends) (simp_all add: defs close_write_def)
  let ?s4 = "?s3\<lparr>re_a := ep_close (re_a ?s3), re_b := ep_close (re_b ?s3), re_closed := True\<rparr>"
  have 4: "relay_step ?s3 ?s4" by (rule relay_step.finish) (simp_all add: relay_start_def)
  have run: "(relay_step ^^ 4) ?s0 ?s4"
    using 1 2 3 4 by (auto simp: numeral_eq_Suc)
  have c: "conn_can_send (ep_conn (visitor_end [[1, 2]]))" "conn_can_send (ep_conn (stream_end (Some EOF)))"
    "rx_end (ep_conn (visitor_end [[1, 2]])) \<noteq> None" "rx_end (ep_conn (stream_end (Some EOF))) \<noteq> None"
    by (simp_all add: visitor_end_def stream_end_def idle_conn_def conn_can_send_def)
  have "\<not> relay_step ?s4 s'" for s'
    by (auto elim!: relay_stepE)
  with relay_complete [OF c run] have "tx (ep_conn (re_b ?s4)) =
      tx (ep_conn (stream_end (Some EOF))) @ conn_pending (ep_conn (visitor_end [[1, 2]]))"
    "\<not> opened (ep_conn (re_a ?s4))" by blast+
  then have "tx (ep_conn (re_b ?s4)) = [1, 2]"
    by (simp add: visitor_end_def stream_end_def idle_conn_def conn_pending_def)
  with run \<open>\<not> opened (ep_conn (re_a ?s4))\<close> show ?thesis by blast
qed

text \<open>
  C31. A half-close does not cross the tunnel: when one end is not a TCP connection, as a yamux stream is not,
  and keeps its own direction open, it is never told that the other end has finished sending, and the relay
  never ends; a TCP connection is told as soon as everything has been copied to it.
\<close>

theorem relay_half_close:
  assumes "conn_can_send (ep_conn a)" "conn_can_send (ep_conn b)" "\<not> ep_fin b" "rx_end (ep_conn b) = None"
    and "relay_step\<^sup>*\<^sup>* (relay_start a b) s"
  shows "\<not> re_closed s \<and> opened (ep_conn (re_b s)) \<and> (ep_fin (re_b s) \<longleftrightarrow> ep_tcp b \<and> re_b_done s)"
  using relay_steps_ok [OF assms(5) relay_start_ok [OF assms(1,2)]] assms(3,4)
  by (auto simp: relay_ok_def ep_kept_def conn_can_send_def split: if_splits)

lemma relay_half_close_witness:
  "\<exists>s. relay_step (relay_start (visitor_end []) (stream_end None)) s \<and> re_b_done s \<and> \<not> ep_fin (re_b s) \<and> \<not> re_closed s"
proof -
  let ?s0 = "relay_start (visitor_end []) (stream_end None)"
  let ?s1 = "?s0\<lparr>re_b := close_write ((re_b ?s0)\<lparr>ep_conn := ep_conn (re_b ?s0)\<rparr>),
      re_a := (re_a ?s0)\<lparr>ep_conn := ep_conn (re_a ?s0)\<rparr>, re_b_done := True\<rparr>"
  have 1: "relay_step ?s0 ?s1"
    by (rule relay_step.to_b_ends) (simp_all add: relay_start_def visitor_end_def stream_end_def idle_conn_def
        copy_round_def conn_read_def copy_buffer_def)
  have c: "conn_can_send (ep_conn (visitor_end []))" "conn_can_send (ep_conn (stream_end None))"
    "\<not> ep_fin (stream_end None)" "rx_end (ep_conn (stream_end None)) = None"
    by (simp_all add: visitor_end_def stream_end_def idle_conn_def conn_can_send_def)
  from relay_half_close [OF c r_into_rtranclp [where r = relay_step, OF 1]] have
    "\<not> re_closed ?s1 \<and> \<not> ep_fin (re_b ?s1)" by (simp add: stream_end_def)
  with 1 show ?thesis by (intro exI [of _ ?s1]) simp
qed

end
