(* ===== verification/Heartbeat.thy ===== *)
theory Heartbeat
  imports Protocol
begin

text \<open>
  \<open>go-core/heartbeat/heartbeat.go\<close>: the ping loop of the server, the answering loop of the client, and the
  monitor. A tick of a ticker is one round of a loop; times are nanoseconds. The select on \<open>stopCh\<close> at the
  head of round \<open>k\<close> is the argument \<open>stop k\<close>.
\<close>

definition ping_message :: envelope where
  "ping_message = no_message\<lparr>env_ping := Some ()\<rparr>"

definition pong_message :: envelope where
  "pong_message = no_message\<lparr>env_pong := Some ()\<rparr>"

definition server_interval :: "int \<Rightarrow> int" where
  "server_interval interval = (if interval \<le> 0 then 30 * 10 ^ 9 else interval)"

text \<open>\<open>ServerHeartbeat\<close> for \<open>k\<close> ticks: still running (\<open>None\<close> as the error), or ended by a failed write.\<close>

fun ServerHeartbeat :: "'c writer \<Rightarrow> nat \<Rightarrow> 'c \<Rightarrow> ('c \<times> proto_err option) option" where
  "ServerHeartbeat wr 0 c = Some (c, None)"
| "ServerHeartbeat wr (Suc k) c = (case WriteMessage wr ping_message c of
      None \<Rightarrow> None
    | Some (c', Inl e) \<Rightarrow> Some (c', Some e)
    | Some (c', Inr _) \<Rightarrow> ServerHeartbeat wr k c')"

definition client_timeout :: "int \<Rightarrow> int" where
  "client_timeout timeout = (if timeout \<le> 0 then 40 * 10 ^ 9 else timeout)"

datatype heartbeat_end = HbStopped | HbReadError proto_err | HbPongError proto_err

text \<open>\<open>rd\<close> is the reader under the deadline set before each message.\<close>

partial_function (option) ClientHeartbeat ::
  "'c reader \<Rightarrow> 'c writer \<Rightarrow> (nat \<Rightarrow> bool) \<Rightarrow> nat \<Rightarrow> 'c \<Rightarrow> ('c \<times> heartbeat_end) option" where
  "ClientHeartbeat rd wr stop k c =
    (if stop k then Some (c, HbStopped)
     else (case ReadMessage rd c of
         None \<Rightarrow> None
       | Some (c1, Inl e) \<Rightarrow> Some (c1, HbReadError e)
       | Some (c1, Inr env) \<Rightarrow>
           if env_ping env \<noteq> None then
             (case WriteMessage wr pong_message c1 of
               None \<Rightarrow> None
             | Some (c2, Inl e) \<Rightarrow> Some (c2, HbPongError e)
             | Some (c2, Inr _) \<Rightarrow> ClientHeartbeat rd wr stop (Suc k) c2)
           else ClientHeartbeat rd wr stop (Suc k) c1))"

text \<open>A read under a deadline: where it would block for ever it fails.\<close>

definition timed_read :: "conn reader" where
  "timed_read n c = (case conn_read n c of None \<Rightarrow> Some (c, [], Some ErrTimeout) | r \<Rightarrow> r)"

subsection \<open>The monitor\<close>







subsection \<open>Lemmas\<close>

lemma ping_pong_ok:
  "envelope_ok ping_message" "message_fits ping_message" "envelope_ok pong_message" "message_fits pong_message"
  by code_simp+

interpretation timed: stream_reader timed_read conn_pending "\<lambda>c. Some (case conn_fin c of None \<Rightarrow> ErrTimeout | Some e \<Rightarrow> e)"
  conn_kept conn_left
proof
  fix n :: nat and c c' :: conn and d
  assume n: "0 < n" and r: "timed_read n c = Some (c', d, None)"
  then have "conn_read n c = Some (c', d, None)" by (auto simp: timed_read_def split: option.splits)
  from tcp.rd_progress [OF n this] show "length d \<le> n \<and> conn_pending c = d @ conn_pending c' \<and>
      Some (case conn_fin c' of None \<Rightarrow> ErrTimeout | Some e \<Rightarrow> e) = Some (case conn_fin c of None \<Rightarrow> ErrTimeout | Some e \<Rightarrow> e) \<and>
      conn_kept c' = conn_kept c \<and> conn_left c' < conn_left c" by simp
next
  fix n :: nat and c :: conn
  assume "0 < n" "conn_pending c \<noteq> []"
  from tcp.rd_data [OF this] show "\<exists>c' d. timed_read n c = Some (c', d, None)" by (auto simp: timed_read_def)
next
  fix n :: nat and c c' :: conn and d e
  assume n: "0 < n" and r: "timed_read n c = Some (c', d, Some e)"
  show "d = [] \<and> Some (case conn_fin c of None \<Rightarrow> ErrTimeout | Some e \<Rightarrow> e) = Some e \<and> conn_kept c' = conn_kept c"
  proof (cases "conn_read n c")
    case None
    then have "conn_fin c = None" by (auto simp: conn_read_def conn_fin_def split: if_splits list.splits option.splits)
    with None r show ?thesis by (auto simp: timed_read_def)
  next
    case (Some x)
    with r have "conn_read n c = Some (c', d, Some e)" by (simp add: timed_read_def)
    from tcp.rd_error [OF n this] show ?thesis by simp
  qed
next
  fix n :: nat and c :: conn and e
  show "\<exists>r. timed_read n c = Some r" by (auto simp: timed_read_def split: option.split)
qed

lemma timed_ReadMessage_end:
  assumes "conn_pending c = []"
  obtains c' e where "ReadMessage timed_read c = Some (c', Inl (ReadHeader e))" "conn_kept c' = conn_kept c"
proof -
  have "length (conn_pending c) < 9" using assms by simp
  from timed.read_full_short [OF this refl] obtain c' e where
    "read_full timed_read 9 c = Some (c', Inl e)" "conn_kept c' = conn_kept c" by metis
  then have "ReadMessage timed_read c = Some (c', Inl (ReadHeader e))" by (simp add: ReadMessage_def)
  with \<open>conn_kept c' = conn_kept c\<close> that show ?thesis by blast
qed

lemma ClientHeartbeat_answers:
  assumes "\<forall>env \<in> set envs. envelope_ok env \<and> message_fits env" "conn_can_send c"
    and "conn_pending c = concat (map encode_message envs)" "\<forall>k. \<not> stop k"
  shows "\<exists>c' e. ClientHeartbeat timed_read conn_write stop k c = Some (c', HbReadError (ReadHeader e)) \<and>
    tx c' = tx c @ concat (map (\<lambda>env. if env_ping env = None then [] else encode_message pong_message) envs)"
  using assms(1-3)
proof (induction envs arbitrary: c k)
  case Nil
  then have "conn_pending c = []" by simp
  then obtain c' e where "ReadMessage timed_read c = Some (c', Inl (ReadHeader e))" "conn_kept c' = conn_kept c"
    by (rule timed_ReadMessage_end)
  then show ?case by (subst ClientHeartbeat.simps) (simp add: conn_kept_def assms(4) [THEN spec, of k])
next
  case (Cons env envs)
  have "conn_pending c = encode_message env @ concat (map encode_message envs)" using Cons.prems(3) by simp
  then obtain c1 where c1: "ReadMessage timed_read c = Some (c1, Inr env)"
    "conn_pending c1 = concat (map encode_message envs)" "conn_kept c1 = conn_kept c"
    using timed.ReadMessage_encoded [of c env] Cons.prems(1) by (metis list.set_intros(1))
  then have s1: "conn_can_send c1" "tx c1 = tx c" using Cons.prems(2) by (auto simp: conn_kept_def conn_can_send_def)
  have rest: "\<forall>e \<in> set envs. envelope_ok e \<and> message_fits e" using Cons.prems(1) by simp
  show ?case
  proof (cases "env_ping env = None")
    case True
    with Cons.IH [OF rest s1(1) c1(2), of "Suc k"] c1(1) s1(2) show ?thesis
      by (subst ClientHeartbeat.simps) (simp add: assms(4) [THEN spec, of k])
  next
    case False
    from tcpw.WriteMessage_sends [OF s1(1) ping_pong_ok(4)] obtain c2 where
      c2: "WriteMessage conn_write pong_message c1 = Some (c2, Inr ())" "tx c2 = tx c1 @ encode_message pong_message"
      "conn_can_send c2" "(rx c2, rx_end c2, opened c2) = (rx c1, rx_end c1, opened c1)" by blast
    then have "conn_pending c2 = concat (map encode_message envs)"
      using c1(2) s1(1) by (simp add: conn_pending_def conn_can_send_def)
    from Cons.IH [OF rest c2(3) this, of "Suc k"] c1(1) c2(1,2) s1(2) False show ?thesis
      by (subst ClientHeartbeat.simps) (simp add: assms(4) [THEN spec, of k])
  qed
qed

subsection \<open>Properties\<close>

text \<open>
  C21. The client answers every ping: on any sequence of messages of the server it sends one pong for each
  ping, in order, and nothing else, and when the messages stop, because the stream ends or the server
  stays silent for the timeout, the loop returns.
\<close>

theorem client_answers_pings:
  assumes "\<forall>env \<in> set envs. envelope_ok env \<and> message_fits env" "conn_can_send c"
    and "conn_pending c = concat (map encode_message envs)" "\<forall>k. \<not> stop k"
  shows "\<exists>c' e. ClientHeartbeat timed_read conn_write stop 0 c = Some (c', HbReadError e) \<and>
    tx c' = tx c @ concat (replicate (length (filter (\<lambda>env. env_ping env \<noteq> None) envs)) (encode_message pong_message))"
proof -
  have "concat (map (\<lambda>env. if env_ping env = None then [] else encode_message pong_message) es) =
      concat (replicate (length (filter (\<lambda>env. env_ping env \<noteq> None) es)) (encode_message pong_message))" for es
    by (induction es) simp_all
  with ClientHeartbeat_answers [OF assms, of 0] show ?thesis by fastforce
qed

lemma client_answers_pings_witness:
  "\<exists>c' e. ClientHeartbeat timed_read conn_write (\<lambda>_. False) 0
      (idle_conn\<lparr>rx := [encode_message ping_message, encode_message pong_message]\<rparr>) = Some (c', HbReadError e) \<and>
    tx c' = encode_message pong_message"
proof -
  let ?c = "idle_conn\<lparr>rx := [encode_message ping_message, encode_message pong_message]\<rparr>"
  have "\<forall>env \<in> set [ping_message, pong_message]. envelope_ok env \<and> message_fits env" "conn_can_send ?c"
    "conn_pending ?c = concat (map encode_message [ping_message, pong_message])" "\<forall>k :: nat. \<not> False"
    using ping_pong_ok by (simp_all add: idle_conn_def conn_can_send_def conn_pending_def)
  from client_answers_pings [OF this] show ?thesis
    by (auto simp: idle_conn_def ping_message_def pong_message_def no_message_def)
qed

text \<open>
  C37. The server's loop never looks for a pong: as long as writes succeed it runs for any number of
  ticks, sending one ping per tick and reading nothing, so a peer that never answers is not noticed.
\<close>

theorem server_ignores_pongs:
  assumes "conn_can_send c"
  shows "\<exists>c'. ServerHeartbeat conn_write k c = Some (c', None) \<and>
    tx c' = tx c @ concat (replicate k (encode_message ping_message)) \<and> rx c' = rx c \<and> opened c'"
  using assms
proof (induction k arbitrary: c)
  case 0
  then show ?case by (simp add: conn_can_send_def)
next
  case (Suc k)
  from tcpw.WriteMessage_sends [OF Suc.prems ping_pong_ok(2)] obtain c1 where
    "WriteMessage conn_write ping_message c = Some (c1, Inr ())" "tx c1 = tx c @ encode_message ping_message"
    "conn_can_send c1" "rx c1 = rx c" by auto
  with Suc.IH [OF this(3)] show ?case by auto
qed

lemma server_ignores_pongs_witness:
  "\<exists>c'. ServerHeartbeat conn_write 100 idle_conn = Some (c', None) \<and> rx c' = []"
  using server_ignores_pongs [of idle_conn 100] by (auto simp: idle_conn_def conn_can_send_def)



end
