(* ===== verification/P2P.thy ===== *)
theory P2P
  imports GoNet GoText
begin

text \<open>
  \<open>go-core/p2p/p2p.go\<close>: the STUN query for the external address, UDP hole punching, and the exchange of
  addresses over a signaling connection. The sockets are an environment: what resolving, listening and
  sending give, and the datagram each read returns. A slice out of range is \<open>StunPanic\<close>.
\<close>

datatype udp_addr = UDPAddr (ua_ip: "byte list") (ua_port: nat)

text \<open>
  The text of an IP address: four decimal numbers, also for an IPv4 address mapped into IPv6, else eight
  hexadecimal groups of which the first longest run of at least two zeros is left out.
\<close>

definition dotted :: "byte list \<Rightarrow> string" where
  "dotted b = dec (unat (b ! 0)) @ ''.'' @ dec (unat (b ! 1)) @ ''.'' @ dec (unat (b ! 2)) @ ''.'' @ dec (unat (b ! 3))"

definition group_hex :: "nat \<Rightarrow> string" where
  "group_hex g = (if g = 0 then ''0'' else dropWhile ((=) (CHR ''0'')) (hex_encode (put_be 2 g)))"

fun colons :: "nat list \<Rightarrow> string" where
  "colons [] = []"
| "colons [g] = group_hex g"
| "colons (g # gs) = group_hex g @ '':'' @ colons gs"

definition zero_run :: "nat list \<Rightarrow> nat \<times> nat" where
  "zero_run gs = fold (\<lambda>i (start, len). let l = length (takeWhile ((=) 0) (drop i gs)) in
     if 2 \<le> l \<and> len < l then (i, l) else (start, len)) [0..<8] (0, 0)"

definition ip_string :: "byte list \<Rightarrow> string" where
  "ip_string ip =
    (if ip = [] then []
     else if length ip = 4 then dotted ip
     else if length ip \<noteq> 16 then ''?'' @ hex_encode ip
     else if take 12 ip = replicate 10 0 @ [0xFF, 0xFF] then dotted (drop 12 ip)
     else
       (let gs = map (\<lambda>i. get_be (take 2 (drop (2 * i) ip))) [0..<8] in
        case zero_run gs of (start, len) \<Rightarrow>
          if len = 0 then colons gs else colons (take start gs) @ ''::'' @ colons (drop (start + len) gs)))"

text \<open>\<open>addr.String()\<close>: with a colon in it, the address is put in brackets.\<close>

definition addr_string :: "udp_addr \<Rightarrow> string" where
  "addr_string a =
    (let host = ip_string (ua_ip a) in
     (if CHR '':'' \<in> set host then ''['' @ host @ '']'' else host) @ '':'' @ dec (ua_port a))"

subsection \<open>STUN\<close>

definition stun_magic :: nat where
  "stun_magic = 0x2112A442"

text \<open>The transaction id: 12 bytes of the clock, least significant first.\<close>

definition stun_txid :: "int \<Rightarrow> bytes" where
  "stun_txid now = map (\<lambda>i. of_int (now div 2 ^ (8 * i))) [0..<12]"

definition stun_request :: "int \<Rightarrow> bytes" where
  "stun_request now = put_be 2 0x0001 @ put_be 2 0x0000 @ put_be 4 stun_magic @ stun_txid now"

datatype stun_result = StunAddr udp_addr | NoMappedAddress | StunPanic

text \<open>\<open>buf[a:b]\<close> of the buffer of 256 bytes.\<close>

definition slice :: "bytes \<Rightarrow> nat \<Rightarrow> nat \<Rightarrow> bytes" where
  "slice buf a b = take (b - a) (drop a buf)"

text \<open>The bytes of the address attribute from \<open>pos\<close> on: port and address, each XORed with the magic cookie.\<close>

definition stun_mapped :: "bytes \<Rightarrow> nat \<Rightarrow> udp_addr" where
  "stun_mapped buf pos =
    UDPAddr (map2 (XOR) (slice buf (pos + 4) (pos + 8)) (put_be 4 stun_magic))
      (get_be (map2 (XOR) (slice buf (pos + 2) (pos + 4)) (put_be 2 (stun_magic div 2 ^ 16))))"

text \<open>\<open>(attrLen + 3) & ^uint16(3)\<close>, in 16 bits.\<close>

definition stun_pad :: "nat \<Rightarrow> nat" where
  "stun_pad attrLen = (attrLen + 3) mod 65536 div 4 * 4"

function stun_scan :: "bytes \<Rightarrow> nat \<Rightarrow> nat \<Rightarrow> nat \<Rightarrow> stun_result" where
  "stun_scan buf msgLen n pos =
    (if \<not> (pos + 4 \<le> 20 + msgLen \<and> pos + 4 \<le> n) then NoMappedAddress
     else
       (let attrType = get_be (slice buf pos (pos + 2));
            attrLen = get_be (slice buf (pos + 2) (pos + 4));
            pos1 = pos + 4
        in if attrType = 0x0020 \<and> 8 \<le> attrLen then
             (if length buf < pos1 + 8 then StunPanic else StunAddr (stun_mapped buf pos1))
           else stun_scan buf msgLen n (pos1 + stun_pad attrLen)))"
  by pat_completeness auto
termination
  by (relation "measure (\<lambda>(buf, msgLen, n, pos). n - pos)") auto

declare stun_scan.simps [simp del]

text \<open>What \<open>ReadFromUDP\<close> leaves in the buffer, and how many bytes it reports.\<close>

definition stun_buffer :: "bytes \<Rightarrow> bytes" where
  "stun_buffer d = take 256 d @ replicate (256 - length d) 0"

definition stun_parse :: "bytes \<Rightarrow> io_err + stun_result" where
  "stun_parse d =
    (let buf = stun_buffer d; n = min 256 (length d) in
     if n < 20 then Inl (Errorf (''STUN response too short: '' @ dec n @ '' bytes''))
     else Inr (stun_scan buf (get_be (slice buf 2 4)) n 20))"

record udp_env =
  ue_resolve :: "string \<Rightarrow> io_err + udp_addr"
  ue_listen :: "nat option \<Rightarrow> io_err option"
  ue_now :: int
  ue_send :: "bytes \<Rightarrow> udp_addr \<Rightarrow> io_err option"
  ue_recv :: "nat \<Rightarrow> io_err + bytes \<times> udp_addr"

definition STUNDiscover :: "udp_env \<Rightarrow> string \<Rightarrow> io_err + stun_result" where
  "STUNDiscover env stunServer =
    (case ue_resolve env stunServer of
      Inl e \<Rightarrow> Inl (Wrapped (''resolve STUN server '' @ stunServer) e)
    | Inr serverAddr \<Rightarrow> (case ue_listen env None of
        Some e \<Rightarrow> Inl (Wrapped ''listen UDP'' e)
      | None \<Rightarrow> (case ue_send env (stun_request (ue_now env)) serverAddr of
          Some e \<Rightarrow> Inl (Wrapped ''send STUN request'' e)
        | None \<Rightarrow> (case ue_recv env 0 of
            Inl e \<Rightarrow> Inl (Wrapped ''STUN timeout or read error'' e)
          | Inr (d, _) \<Rightarrow> (case stun_parse d of
              Inl e \<Rightarrow> Inl e
            | Inr NoMappedAddress \<Rightarrow> Inl (Errorf ''no XOR-MAPPED-ADDRESS in STUN response'')
            | Inr r \<Rightarrow> Inr r)))))"

subsection \<open>Hole punching\<close>

text \<open>\<open>recv i\<close>: what the read of attempt \<open>i\<close> gives. With the answer, the datagrams sent to the peer.\<close>

definition punch :: bytes where
  "punch = string_bytes ''RHPR-PUNCH''"

fun punch_from :: "(nat \<Rightarrow> io_err + bytes \<times> udp_addr) \<Rightarrow> udp_addr \<Rightarrow> nat \<Rightarrow> nat \<Rightarrow> (bytes \<times> udp_addr) list \<times> bool" where
  "punch_from recv remote i 0 = ([], False)"
| "punch_from recv remote i (Suc k) =
    apfst (Cons (punch, remote)) (case recv i of
      Inr (d, addr) \<Rightarrow>
        if 0 < min 32 (length d) \<and> addr_string addr = addr_string remote then ([], True)
        else punch_from recv remote (Suc i) k
    | Inl _ \<Rightarrow> punch_from recv remote (Suc i) k)"

definition punchAttempts :: nat where
  "punchAttempts = 10"

definition HolePunch :: "(nat \<Rightarrow> io_err + bytes \<times> udp_addr) \<Rightarrow> udp_addr \<Rightarrow> (bytes \<times> udp_addr) list \<times> bool" where
  "HolePunch recv remote = punch_from recv remote 0 punchAttempts"

subsection \<open>The exchange\<close>

text \<open>One \<open>Read\<close> into a buffer that keeps its old bytes where nothing is read.\<close>

definition read_into :: "bytes \<Rightarrow> (conn, io_err, bytes) io" where
  "read_into old c = (case conn_read (length old) c of
      None \<Rightarrow> None
    | Some (c', d, Some e) \<Rightarrow> Some (c', Inl e)
    | Some (c', d, None) \<Rightarrow> Some (c', Inr (d @ drop (length d) old)))"

text \<open>Both addresses over the signaling connection; the buffer of the length is used for both.\<close>

definition exchange :: "string \<Rightarrow> (conn, io_err, string) io" where
  "exchange ours =
    (let header = put_be 2 (length ours) in
     io_bind (write_all conn_write header) (\<lambda>_.
     io_bind (write_all conn_write (string_bytes ours)) (\<lambda>_.
     io_bind (read_into header) (\<lambda>header'.
     io_bind (read_into (replicate (get_be header') 0)) (\<lambda>peerBuf.
     io_return (bytes_string peerBuf))))))"

datatype punched = Punched (punched_port: "nat option") udp_addr

definition ExchangeAndPunch :: "udp_env \<Rightarrow> string \<Rightarrow> (conn, io_err, punched option) io" where
  "ExchangeAndPunch env stunServer c =
    (case STUNDiscover env stunServer of
      Inl e \<Rightarrow> Some (c, Inl (Wrapped ''STUN discover'' e))
    | Inr (StunAddr ext) \<Rightarrow>
        io_bind (exchange (addr_string ext)) (\<lambda>peer.
          case ue_resolve env peer of
            Inl e \<Rightarrow> io_fail (Wrapped ''resolve peer addr'' e)
          | Inr peerAddr \<Rightarrow>
              (case (if ue_listen env (Some (ua_port ext)) = None then Inr (Some (ua_port ext))
                     else case ue_listen env None of
                       Some e \<Rightarrow> Inl (Wrapped ''listen UDP for punch'' e)
                     | None \<Rightarrow> Inr None) of
                Inl e \<Rightarrow> io_fail e
              | Inr port \<Rightarrow>
                  if snd (HolePunch (\<lambda>i. ue_recv env (Suc i)) peerAddr) then io_return (Some (Punched port peerAddr))
                  else io_fail (Errorf ''hole punch failed''))) c
    | Inr _ \<Rightarrow> Some (c, Inr None))"

subsection \<open>Lemmas\<close>

lemma slice_append [simp]:
  "length a = k \<Longrightarrow> slice (a @ b) (k + i) (k + j) = slice b i j"
  by (auto simp: slice_def)

lemma slice_here: "length a = k \<Longrightarrow> slice (a @ b) k (k + j) = take j b"
  by (auto simp: slice_def)

lemma stun_scan_panic:
  "stun_scan buf m n pos = StunPanic \<Longrightarrow> 4 dvd pos \<Longrightarrow> length buf = 256 \<Longrightarrow> 252 \<le> n"
proof (induction buf m n pos rule: stun_scan.induct)
  case (1 buf m n pos)
  let ?len = "get_be (slice buf (pos + 2) (pos + 4))"
  have go: "pos + 4 \<le> 20 + m \<and> pos + 4 \<le> n"
    using "1.prems"(1) by (subst (asm) stun_scan.simps) (auto split: if_splits)
  show ?case
  proof (cases "get_be (slice buf pos (pos + 2)) = 0x0020 \<and> 8 \<le> ?len")
    case True
    with "1.prems"(1,3) go have "256 < pos + 12" by (subst (asm) stun_scan.simps) (auto simp: Let_def split: if_splits)
    moreover obtain q where "pos = 4 * q" using "1.prems"(2) by (rule dvdE)
    ultimately show ?thesis using go by presburger
  next
    case False
    then have "stun_scan buf m n (pos + 4 + stun_pad ?len) = StunPanic"
      using "1.prems"(1) go by (subst (asm) stun_scan.simps) (auto simp: Let_def)
    moreover have "4 dvd pos + 4 + stun_pad ?len" using "1.prems"(2) by (simp add: stun_pad_def)
    ultimately show ?thesis using "1.IH" go False "1.prems"(3) by simp
  qed
qed

text \<open>The response of a STUN server, by RFC 5389.\<close>

definition stun_attr :: "nat \<Rightarrow> bytes \<Rightarrow> bytes" where
  "stun_attr ty v = put_be 2 ty @ put_be 2 (length v) @ v @ replicate ((4 - length v mod 4) mod 4) 0"

definition xor_mapped :: "bytes \<Rightarrow> nat \<Rightarrow> bytes" where
  "xor_mapped ip port = [0, 1] @ map2 (XOR) (put_be 2 port) (put_be 2 0x2112) @ map2 (XOR) ip (put_be 4 stun_magic)"

definition stun_response :: "bytes \<Rightarrow> (nat \<times> bytes) list \<Rightarrow> bytes" where
  "stun_response txid attrs =
    (let body = concat (map (\<lambda>(ty, v). stun_attr ty v) attrs)
     in put_be 2 0x0101 @ put_be 2 (length body) @ put_be 4 stun_magic @ txid @ body)"

lemma padded_length: "length v + (4 - length v mod 4) mod 4 = (length v + 3) div 4 * 4" for v :: "'a list"
proof -
  have "\<exists>q r. length v = 4 * q + r \<and> r < 4" by (metis mult_div_mod_eq mod_less_divisor zero_less_numeral)
  then obtain q r where "length v = 4 * q + r" "r < 4" by blast
  moreover from this(2) have "r = 0 \<or> r = 1 \<or> r = 2 \<or> r = 3" by auto
  ultimately show ?thesis by auto
qed

lemma length_stun_attr: "length v < 65532 \<Longrightarrow> length (stun_attr ty v) = 4 + stun_pad (length v)"
  using padded_length [of v] by (simp add: stun_attr_def stun_pad_def)

lemma stun_scan_skip:
  assumes "length a = pos" "ty < 65536" "ty \<noteq> 0x0020" "length v < 65532"
    and "pos + 4 \<le> 20 + m" "pos + 4 \<le> n"
  shows "stun_scan (a @ stun_attr ty v @ r) m n pos = stun_scan (a @ stun_attr ty v @ r) m n (pos + length (stun_attr ty v))"
proof -
  let ?buf = "a @ stun_attr ty v @ r"
  have "take 2 (stun_attr ty v @ r) = put_be 2 ty" "slice (stun_attr ty v @ r) 2 4 = put_be 2 (length v)"
    by (simp_all add: stun_attr_def slice_def)
  then have "slice ?buf pos (pos + 2) = put_be 2 ty" "slice ?buf (pos + 2) (pos + 4) = put_be 2 (length v)"
    unfolding slice_here [OF assms(1)] slice_append [OF assms(1)] .
  with assms length_stun_attr [OF assms(4), of ty] show ?thesis by (subst stun_scan.simps) (simp add: add.assoc)
qed

lemma xor_list_self: "length a = length b \<Longrightarrow> map2 (XOR) (map2 (XOR) a b) b = (a :: bytes)"
  by (induction a b rule: list_induct2) simp_all

lemma stun_scan_found:
  assumes "length a = pos" "length ip = 4" "port < 65536" "pos + 4 \<le> 20 + m" "pos + 4 \<le> n"
  shows "stun_scan (a @ stun_attr 0x0020 (xor_mapped ip port) @ r) m n pos = StunAddr (UDPAddr ip port)"
proof -
  let ?buf = "a @ stun_attr 0x0020 (xor_mapped ip port) @ r"
  have len: "length (xor_mapped ip port) = 8" using assms(2) by (simp add: xor_mapped_def)
  let ?attr = "stun_attr 0x0020 (xor_mapped ip port) @ r"
  have "take 2 ?attr = put_be 2 0x0020" "slice ?attr 2 4 = put_be 2 8"
    "slice ?attr 6 8 = map2 (XOR) (put_be 2 port) (put_be 2 0x2112)" "slice ?attr 8 12 = map2 (XOR) ip (put_be 4 stun_magic)"
    using assms(2) by (simp_all add: stun_attr_def slice_def xor_mapped_def)
  then have "slice ?buf pos (pos + 2) = put_be 2 0x0020" "slice ?buf (pos + 2) (pos + 4) = put_be 2 8"
    and ip: "slice ?buf (pos + 6) (pos + 8) = map2 (XOR) (put_be 2 port) (put_be 2 0x2112)"
    "slice ?buf (pos + 8) (pos + 12) = map2 (XOR) ip (put_be 4 stun_magic)"
    unfolding slice_here [OF assms(1)] slice_append [OF assms(1)] .
  moreover from ip have "stun_mapped ?buf (pos + 4) = UDPAddr ip port"
  proof -
    have "pos + 4 + 2 = pos + 6" "pos + 4 + 4 = pos + 8" "pos + 4 + 8 = pos + 12" by simp_all
    moreover have "stun_magic div 2 ^ 16 = 0x2112" by (simp add: stun_magic_def)
    ultimately show ?thesis unfolding stun_mapped_def using assms(2,3) ip by (simp only: xor_list_self length_put_be get_put_be_id) simp
  qed
  moreover have "pos + 12 \<le> length ?buf" using assms(1) len by (simp add: stun_attr_def)
  ultimately show ?thesis using assms(4,5) by (subst stun_scan.simps) (simp add: add.assoc)
qed

lemma stun_scan_attrs:
  assumes "\<forall>(ty, v) \<in> set pre. ty < 65536 \<and> ty \<noteq> 0x0020 \<and> length v < 65532" "length ip = 4" "port < 65536"
    and "length a = pos" "pos + length (concat (map (\<lambda>(ty, v). stun_attr ty v) pre)) + 4 \<le> 20 + m"
    and "pos + length (concat (map (\<lambda>(ty, v). stun_attr ty v) pre)) + 4 \<le> n"
  shows "stun_scan (a @ concat (map (\<lambda>(ty, v). stun_attr ty v) pre) @ stun_attr 0x0020 (xor_mapped ip port) @ r) m n pos =
    StunAddr (UDPAddr ip port)"
  using assms
proof (induction pre arbitrary: a pos)
  case Nil
  then show ?case using stun_scan_found [of a pos ip port m n r] by simp
next
  case (Cons x pre)
  obtain ty v where x: "x = (ty, v)" by (cases x)
  let ?rest = "concat (map (\<lambda>(ty, v). stun_attr ty v) pre) @ stun_attr 0x0020 (xor_mapped ip port) @ r"
  have "stun_scan (a @ stun_attr ty v @ ?rest) m n pos = stun_scan (a @ stun_attr ty v @ ?rest) m n (pos + length (stun_attr ty v))"
    using Cons.prems x by (intro stun_scan_skip) auto
  moreover have "stun_scan ((a @ stun_attr ty v) @ ?rest) m n (pos + length (stun_attr ty v)) = StunAddr (UDPAddr ip port)"
    using Cons.prems x by (intro Cons.IH) auto
  ultimately show ?case using x by simp
qed

subsection \<open>Properties\<close>

text \<open>
  C18. The address of a STUN response is decoded: for every binding response of at most 256 bytes with an
  IPv4 XOR-MAPPED-ADDRESS attribute, whatever other attributes, padded to 4 bytes, come before and after
  it, the query returns the address and port the server encoded.
\<close>

theorem stun_decodes:
  assumes "length txid = 12" "length ip = 4" "port < 65536"
    and "\<forall>(ty, v) \<in> set pre. ty < 65536 \<and> ty \<noteq> 0x0020"
    and "length (stun_response txid (pre @ (0x0020, xor_mapped ip port) # post)) \<le> 256"
  shows "stun_parse (stun_response txid (pre @ (0x0020, xor_mapped ip port) # post)) = Inr (StunAddr (UDPAddr ip port))"
proof -
  let ?attrs = "\<lambda>as. concat (map (\<lambda>(ty, v). stun_attr ty v) as)"
  let ?body = "?attrs (pre @ (0x0020, xor_mapped ip port) # post)"
  let ?hdr = "put_be 2 0x0101 @ put_be 2 (length ?body) @ put_be 4 stun_magic @ txid"
  let ?d = "stun_response txid (pre @ (0x0020, xor_mapped ip port) # post)"
  have d: "?d = ?hdr @ ?body" by (simp add: stun_response_def Let_def)
  have l: "length ?hdr = 20" "length ?d = 20 + length ?body" "length ?body \<le> 236"
    using assms(1,5) unfolding d by simp_all
  have len: "length (xor_mapped ip port) = 8" using assms(2) by (simp add: xor_mapped_def)
  have small: "length v < 65532" if "(ty, v) \<in> set pre" for ty v
  proof -
    have "length (stun_attr ty v) \<le> length (?attrs pre)"
      using that by (induction pre) (auto simp: stun_attr_def)
    then have "length v \<le> length ?body" by (simp add: stun_attr_def)
    with l(3) show ?thesis by linarith
  qed
  let ?r = "?attrs post @ replicate (256 - length ?d) 0"
  have buf: "stun_buffer ?d = ?hdr @ ?attrs pre @ stun_attr 0x0020 (xor_mapped ip port) @ ?r"
    using l unfolding stun_buffer_def by (simp add: d)
  have "slice (stun_buffer ?d) 2 4 = put_be 2 (length ?body)" unfolding buf by (simp add: slice_def)
  then have m: "get_be (slice (stun_buffer ?d) 2 4) = length ?body" using l(3) by simp
  have "stun_scan (stun_buffer ?d) (length ?body) (20 + length ?body) 20 = StunAddr (UDPAddr ip port)"
    unfolding buf using assms(2-4) small l(1) len by (intro stun_scan_attrs) (auto simp: stun_attr_def)
  moreover have "min 256 (length ?d) = 20 + length ?body" using l by simp
  ultimately show ?thesis unfolding stun_parse_def Let_def m by simp
qed

lemma stun_decodes_witness:
  "stun_parse (stun_response (replicate 12 7) [(0x8022, [1, 2, 3]), (0x0020, xor_mapped [203, 0, 113, 9] 40000), (1, [])]) =
    Inr (StunAddr (UDPAddr [203, 0, 113, 9] 40000))"
proof -
  have "length (stun_response (replicate 12 7) ([(0x8022, [1, 2, 3])] @ (0x0020, xor_mapped [203, 0, 113, 9] 40000) # [(1, [])])) \<le> 256"
    by (simp add: stun_response_def stun_attr_def xor_mapped_def Let_def)
  from stun_decodes [OF _ _ _ _ this] show ?thesis by simp
qed

text \<open>
  C36. The parser stays within its buffer of 256 bytes for every datagram of less than 252, whatever it
  contains; at 252 it does not: an attribute header at the very end makes the slices of the address run
  over the buffer, and the program panics.
\<close>

theorem stun_bounds:
  "(length d < 252 \<longrightarrow> stun_parse d \<noteq> Inr StunPanic) \<and>
   (length txid = 12 \<longrightarrow> stun_parse (put_be 2 0x0101 @ put_be 2 232 @ put_be 4 stun_magic @ txid @
      stun_attr 1 (replicate 224 0) @ put_be 2 0x0020 @ put_be 2 8) = Inr StunPanic)"
proof (intro conjI impI)
  assume "length d < 252"
  have "length (stun_buffer d) = 256" by (auto simp: stun_buffer_def)
  with stun_scan_panic [of "stun_buffer d" _ "min 256 (length d)" 20] \<open>length d < 252\<close>
  show "stun_parse d \<noteq> Inr StunPanic" by (auto simp: stun_parse_def Let_def split: if_splits)
next
  assume txid: "length txid = 12"
  let ?hdr = "put_be 2 0x0101 @ put_be 2 232 @ put_be 4 stun_magic @ txid"
  let ?v = "replicate 224 (0 :: byte)"
  let ?last = "put_be 2 0x0020 @ put_be 2 8 :: bytes"
  let ?d = "?hdr @ stun_attr 1 ?v @ ?last"
  have a: "length (stun_attr 1 ?v) = 228" by (simp add: stun_attr_def)
  have buf: "stun_buffer ?d = ?hdr @ stun_attr 1 ?v @ ?last @ replicate 4 0"
    using txid a by (simp add: stun_buffer_def)
  have "stun_scan (stun_buffer ?d) 232 252 20 = stun_scan (stun_buffer ?d) 232 252 (20 + length (stun_attr 1 ?v))"
    unfolding buf using txid by (intro stun_scan_skip) simp_all
  also have "\<dots> = stun_scan ((?hdr @ stun_attr 1 ?v) @ ?last @ replicate 4 0) 232 252 248" unfolding buf a by simp
  also have "\<dots> = StunPanic"
  proof -
    have h: "length (?hdr @ stun_attr 1 ?v) = 248" using txid a by simp
    have "take 2 (?last @ replicate 4 0) = put_be 2 0x0020" "slice (?last @ replicate 4 0) 2 4 = put_be 2 8"
      by (simp_all add: slice_def)
    then have "slice ((?hdr @ stun_attr 1 ?v) @ ?last @ replicate 4 0) 248 (248 + 2) = put_be 2 0x0020"
      "slice ((?hdr @ stun_attr 1 ?v) @ ?last @ replicate 4 0) (248 + 2) (248 + 4) = put_be 2 8"
      unfolding slice_here [OF h] slice_append [OF h] .
    moreover have "length ((?hdr @ stun_attr 1 ?v) @ ?last @ replicate 4 0) = 256" using h by simp
    ultimately show ?thesis by (subst stun_scan.simps) (simp del: append_assoc)
  qed
  finally have "stun_scan (stun_buffer ?d) 232 252 20 = StunPanic" .
  moreover have "slice (stun_buffer ?d) 2 4 = put_be 2 232" unfolding buf by (simp add: slice_def)
  ultimately have "stun_parse ?d = Inr StunPanic" using txid a unfolding stun_parse_def Let_def by simp
  then show "stun_parse (put_be 2 0x0101 @ put_be 2 232 @ put_be 4 stun_magic @ txid @ stun_attr 1 ?v @ ?last) = Inr StunPanic"
    by (simp only: append_assoc)
qed

lemma stun_bounds_witness:
  "stun_parse (stun_response (replicate 12 0) [(0x0020, xor_mapped [1, 2, 3, 4] 5)]) \<noteq> Inr StunPanic"
proof -
  have "length (stun_response (replicate 12 0) [(0x0020, xor_mapped [1, 2, 3, 4] 5)]) < 252"
    by (simp add: stun_response_def stun_attr_def xor_mapped_def Let_def)
  with stun_bounds show ?thesis by blast
qed

text \<open>
  The exchange of addresses works only if the network keeps the boundaries of the writes: each end
  gets the other's text when the length and the text arrive as two segments; the same bytes with the
  length split in two give it instead a text of the length of its own address, made of one byte of the
  peer's length and NULs, and everything after it is still unread.
\<close>

theorem exchange_needs_boundaries:
  assumes "conn_can_send c" "0 < length p" "length p < 256" "0 < length ours" "length ours < 256"
  shows "(rx c = put_be 2 (length p) # string_bytes p # rest \<longrightarrow>
      (\<exists>c'. exchange ours c = Some (c', Inr p) \<and> tx c' = tx c @ put_be 2 (length ours) @ string_bytes ours \<and> rx c' = rest)) \<and>
    (rx c = [0] # [of_nat (length p)] # string_bytes p # rest \<longrightarrow>
      (\<exists>c'. exchange ours c = Some (c', Inr (char_of (length p) # replicate (length ours - 1) (char_of (0 :: nat)))) \<and>
        rx c' = string_bytes p # rest))"
proof (intro conjI impI)
  let ?hdr = "put_be 2 (length ours)"
  let ?c = "c\<lparr>tx := tx c @ ?hdr @ string_bytes ours\<rparr>"
  have op: "opened c" using assms(1) by (simp add: conn_can_send_def)
  have ex: "exchange ours c = io_bind (read_into ?hdr) (\<lambda>h. io_bind (read_into (replicate (get_be h) 0))
      (\<lambda>b. io_return (bytes_string b))) ?c"
    using assms(1) by (simp add: exchange_def Let_def io_bind_def)
  {
    assume rx: "rx c = put_be 2 (length p) # string_bytes p # rest"
    have "read_into ?hdr ?c = Some (?c\<lparr>rx := string_bytes p # rest\<rparr>, Inr (put_be 2 (length p)))"
      using op rx by (simp add: read_into_def conn_read_def)
    moreover have "read_into (replicate (length p) 0) (?c\<lparr>rx := string_bytes p # rest\<rparr>) =
        Some (?c\<lparr>rx := rest\<rparr>, Inr (string_bytes p))"
      using op assms(2) by (simp add: read_into_def conn_read_def)
    ultimately show "\<exists>c'. exchange ours c = Some (c', Inr p) \<and> tx c' = tx c @ ?hdr @ string_bytes ours \<and> rx c' = rest"
      using assms(3) ex by simp
  next
    assume rx: "rx c = [0] # [of_nat (length p)] # string_bytes p # rest"
    have hdr: "?hdr = [0, of_nat (length ours)]" using assms(5) by (simp add: numeral_2_eq_2)
    have "read_into ?hdr ?c = Some (?c\<lparr>rx := [of_nat (length p)] # string_bytes p # rest\<rparr>, Inr ?hdr)"
      using op rx by (simp add: read_into_def conn_read_def hdr)
    moreover have "get_be ?hdr = length ours" using assms(5) by simp
    moreover have "read_into (replicate (length ours) 0) (?c\<lparr>rx := [of_nat (length p)] # string_bytes p # rest\<rparr>) =
        Some (?c\<lparr>rx := string_bytes p # rest\<rparr>, Inr (of_nat (length p) # replicate (length ours - 1) 0))"
      using op assms(4) by (simp add: read_into_def conn_read_def Suc_le_eq)
    moreover have "bytes_string (of_nat (length p) # replicate (length ours - 1) 0) =
        char_of (length p) # replicate (length ours - 1) (char_of (0 :: nat))"
      using assms(3) by (simp add: bytes_string_def unat_of_nat_byte)
    ultimately show "\<exists>c'. exchange ours c = Some (c', Inr (char_of (length p) # replicate (length ours - 1) (char_of (0 :: nat)))) \<and>
        rx c' = string_bytes p # rest"
      using ex by simp
  }
qed

lemma exchange_needs_boundaries_witness:
  "\<exists>c'. exchange ''1.2.3.4:5'' (idle_conn\<lparr>rx := [[0, 9], string_bytes ''6.7.8.9:1'']\<rparr>) = Some (c', Inr ''6.7.8.9:1'')"
proof -
  have "conn_can_send (idle_conn\<lparr>rx := [[0, 9], string_bytes ''6.7.8.9:1'']\<rparr>)" by (simp add: idle_conn_def conn_can_send_def)
  from exchange_needs_boundaries [OF this, of "''6.7.8.9:1''" "''1.2.3.4:5''" "[]"] show ?thesis
    by (auto simp: numeral_2_eq_2)
qed

end
