(* ===== verification/HttpProxy.thy ===== *)
theory HttpProxy
  imports GoBufio Relay
begin

text \<open>
  \<open>go-core/httpproxy/httpproxy.go\<close>: an HTTP proxy connection, from the request head to the relay of a
  CONNECT or the answer of the backend. Dialing is an argument. A read with a deadline never blocks for
  ever: it ends with a timeout.
\<close>

definition ParseRequestLine :: "string \<Rightarrow> (string \<times> string \<times> string) option" where
  "ParseRequestLine s =
    (case SplitN (hd (SplitN s crlf 2)) '' '' 3 of
      [method, path, version] \<Rightarrow> Some (method, path, version)
    | _ \<Rightarrow> None)"

fun first_host :: "string list \<Rightarrow> string" where
  "first_host [] = []"
| "first_host (line # ls) =
    (if HasPrefix (ToLower line) ''host:'' then TrimSpace (drop 5 line) else first_host ls)"

definition ExtractHost :: "string \<Rightarrow> string" where
  "ExtractHost s = first_host (Split s crlf)"

definition status_line :: "string \<Rightarrow> bytes" where
  "status_line s = string_bytes (''HTTP/1.1 '' @ s @ crlf @ crlf)"

text \<open>
  Up to the relay: the client connection, and an error or the target connection. What follows is
  the code of \<open>relay.Relay\<close>, from \<open>relay_start\<close> of the two.
\<close>

definition HandleCONNECT :: "(string \<Rightarrow> int \<Rightarrow> io_err + conn) \<Rightarrow> string \<Rightarrow> conn \<Rightarrow> conn \<times> (io_err + conn)" where
  "HandleCONNECT dial target client =
    (case dial target (10 * 10 ^ 9) of
      Inl e \<Rightarrow> (case conn_write (status_line ''502 Bad Gateway'') client of
          (client', _, _) \<Rightarrow> (client', Inl (Wrapped (''connect to '' @ target) e)))
    | Inr targetConn \<Rightarrow>
        (case conn_write (status_line ''200 Connection Established'') client of
          (client', _, Some e) \<Rightarrow> (client', Inl e)
        | (client', _, None) \<Rightarrow> (client', Inr targetConn)))"

definition deadline_read :: "nat \<Rightarrow> conn \<Rightarrow> conn \<times> bytes \<times> io_err option" where
  "deadline_read n c = (case conn_read n c of None \<Rightarrow> (c, [], Some ErrTimeout) | Some r \<Rightarrow> r)"

lemma read_progress: "conn_read 8192 c = Some (c', d, None) \<Longrightarrow> conn_left c' < conn_left c"
  using tcp.rd_progress [of 8192] by simp

function read_response :: "bytes \<Rightarrow> conn \<Rightarrow> conn \<times> bytes" where
  "read_response acc c = (case deadline_read 8192 c of
      (c', d, e) \<Rightarrow> if e \<noteq> None then (c', acc @ d) else read_response (acc @ d) c')"
  by pat_completeness auto
termination
  by (relation "measure (conn_left \<circ> snd)")
     (auto simp: deadline_read_def intro: read_progress split: option.splits)

declare read_response.simps [simp del]

text \<open>The state of the backend connection is kept in the result: it is closed when the function returns.\<close>

definition ForwardRequest :: "(string \<Rightarrow> int \<Rightarrow> io_err + conn) \<Rightarrow> bytes \<Rightarrow> string \<Rightarrow> io_err + conn \<times> bytes" where
  "ForwardRequest dial request backend =
    (case dial backend (10 * 10 ^ 9) of
      Inl e \<Rightarrow> Inl (Wrapped (''connect backend '' @ backend) e)
    | Inr c \<Rightarrow> (case conn_write request c of
        (c', _, Some e) \<Rightarrow> Inl (Wrapped ''write to backend'' e)
      | (c', _, None) \<Rightarrow> (case read_response [] c' of (c'', resp) \<Rightarrow> Inr (conn_close c'', resp))))"

subsection \<open>A proxy connection\<close>

partial_function (option) read_request ::
  "'c reader \<Rightarrow> string \<Rightarrow> 'c bufreader \<Rightarrow> ('c bufreader \<times> (io_err + string)) option" where
  "read_request rd acc b = (case ReadString rd b of
      None \<Rightarrow> None
    | Some (b', Inl e) \<Rightarrow> Some (b', Inl e)
    | Some (b', Inr line) \<Rightarrow>
        if TrimSpace line = [] then Some (b', Inr (acc @ line)) else read_request rd (acc @ line) b')"

datatype proxy_end = NoRequest | BadRequestLine | ConnectFailed io_err | Tunnel relay
  | NoHost | BackendFailed io_err | Forwarded string conn

text \<open>
  The client connection goes on where the buffered reader stopped; except for a tunnel, which the relay
  closes at its end, it is closed on return.
\<close>

definition handleHTTPProxy :: "(string \<Rightarrow> int \<Rightarrow> io_err + conn) \<Rightarrow> conn \<Rightarrow> (conn \<times> proxy_end) option" where
  "handleHTTPProxy dial c =
    (case read_request conn_read [] (NewReader c) of
      None \<Rightarrow> None
    | Some (b, Inl e) \<Rightarrow> Some (conn_close (bf_src b), NoRequest)
    | Some (b, Inr request) \<Rightarrow>
        (let client = bf_src b in
         case ParseRequestLine request of
           None \<Rightarrow> Some (conn_close client, BadRequestLine)
         | Some (method, target, _) \<Rightarrow>
             if ToUpper method = ''CONNECT'' then
               (case HandleCONNECT dial target client of
                 (client', Inl e) \<Rightarrow> Some (conn_close client', ConnectFailed e)
               | (client', Inr t) \<Rightarrow>
                   Some (client', Tunnel (relay_start \<lparr>ep_conn = t, ep_tcp = True, ep_fin = False\<rparr>
                     \<lparr>ep_conn = client', ep_tcp = True, ep_fin = False\<rparr>)))
             else
               (let host = ExtractHost request in
                if host = [] then
                  Some (conn_close (fst (conn_write (status_line ''400 Bad Request'') client)), NoHost)
                else
                  (let host' = (if contains host '':'' then host else host @ '':80'') in
                   case ForwardRequest dial (string_bytes request) host' of
                     Inl e \<Rightarrow> Some (conn_close (fst (conn_write (status_line ''502 Bad Gateway'') client)), BackendFailed e)
                   | Inr (backend, resp) \<Rightarrow>
                       Some (conn_close (fst (conn_write resp client)), Forwarded host' backend)))))"

text \<open>\<open>ServeHTTPProxy\<close>: one handler per accepted connection until \<open>Accept\<close> fails.\<close>

fun ServeHTTPProxy :: "(io_err + 'v) list \<Rightarrow> 'v list \<times> io_err option" where
  "ServeHTTPProxy [] = ([], None)"
| "ServeHTTPProxy (Inl e # as) = ([], Some e)"
| "ServeHTTPProxy (Inr c # as) = apfst (Cons c) (ServeHTTPProxy as)"

subsection \<open>Lemmas\<close>

lemma read_response_all:
  "opened c \<Longrightarrow> \<exists>c'. read_response acc c = (c', acc @ conn_pending c) \<and> tx c' = tx c"
proof (induction acc c rule: read_response.induct)
  case (1 acc c)
  show ?case
  proof (cases "conn_read 8192 c")
    case None
    then have "conn_pending c = []" using "1.prems"
      by (auto simp: conn_read_def conn_pending_def split: if_splits list.splits)
    with None show ?thesis by (simp add: read_response.simps [of acc c] deadline_read_def)
  next
    case (Some r)
    then obtain c1 d x where r: "conn_read 8192 c = Some (c1, d, x)" by (cases r) auto
    show ?thesis
    proof (cases x)
      case None
      with r tcp.rd_progress [of 8192 c c1 d] have p: "conn_pending c = d @ conn_pending c1" "conn_fin c1 = conn_fin c"
        "conn_kept c1 = conn_kept c" by simp_all
      then have "opened c1" "rx_end c1 = rx_end c" "tx c1 = tx c"
        using "1.prems" by (auto simp: conn_kept_def conn_fin_def)
      moreover have "(c1, (d, None)) = deadline_read 8192 c" using r None by (simp add: deadline_read_def)
      ultimately obtain c2 where "read_response (acc @ d) c1 = (c2, (acc @ d) @ conn_pending c1)" "tx c2 = tx c"
        using "1.IH" [OF _ refl] by fastforce
      with r None p show ?thesis by (simp add: read_response.simps [of acc c] deadline_read_def)
    next
      case (Some y)
      with r tcp.rd_error [of 8192 c c1 d y] have "d = []" "conn_kept c1 = conn_kept c" by simp_all
      moreover have "conn_pending c = []"
        using r Some "1.prems" by (auto simp: conn_read_def conn_pending_def split: if_splits list.splits option.splits)
      ultimately show ?thesis using r Some
        by (simp add: read_response.simps [of acc c] deadline_read_def conn_kept_def)
    qed
  qed
qed

context line_source
begin

lemma read_request_lines:
  "\<forall>l \<in> set ls. header_line l \<Longrightarrow> holds b (header_lines ls @ s) k \<Longrightarrow>
   \<exists>b'. read_request rd acc b = Some (b', Inr (acc @ header_lines ls)) \<and> holds b' s k"
proof (induction ls arbitrary: acc b)
  case Nil
  from Nil(2) have "holds b (([] @ crlf) @ s) k" by (simp add: header_lines_def)
  from ReadString_crlf [OF this] show ?case
    by (auto simp: read_request.simps [of rd acc b] TrimSpace_blank header_lines_def)
next
  case (Cons l ls)
  have "holds b ((l @ crlf) @ header_lines ls @ s) k" using Cons.prems(2) by (simp add: header_lines_def)
  moreover have l: "header_line l" using Cons.prems(1) by simp
  ultimately obtain b1 where 1: "ReadString rd b = Some (b1, Inr (l @ crlf))" "holds b1 (header_lines ls @ s) k"
    using ReadString_crlf unfolding header_line_def by meson
  with Cons.IH [OF _ 1(2), of "acc @ l @ crlf"] Cons.prems(1) l show ?case
    by (simp add: read_request.simps [of rd acc b] header_line_def header_lines_def)
qed

end

text \<open>The request line and the lines of a request.\<close>

lemma SplitN_words:
  "CHR '' '' \<notin> set m \<Longrightarrow> CHR '' '' \<notin> set t \<Longrightarrow> SplitN (m @ '' '' @ t @ '' '' @ v) '' '' 3 = [m, t, v]"
  by (simp add: SplitN_def cut_char numeral_3_eq_3)

lemma header_lines_Cons: "header_lines (l # ls) = l @ CHR 0x0D # CHR 0x0A # header_lines ls"
  by (simp add: header_lines_def crlf_def)

lemma ParseRequestLine_lines:
  assumes "CHR '' '' \<notin> set m" "CHR '' '' \<notin> set t" "CHR 0x0D \<notin> set (m @ t @ v)"
  shows "ParseRequestLine (header_lines ((m @ '' '' @ t @ '' '' @ v) # ls)) = Some (m, t, v)"
proof -
  have "CHR 0x0D \<notin> set (m @ '' '' @ t @ '' '' @ v)" using assms(3) by simp
  from cut_crlf [OF this] have "SplitN (header_lines ((m @ '' '' @ t @ '' '' @ v) # ls)) crlf 2 =
      [m @ '' '' @ t @ '' '' @ v, header_lines ls]"
    unfolding header_lines_Cons by (simp add: SplitN_def crlf_def)
  then show ?thesis using SplitN_words [OF assms(1,2), of v] by (simp add: ParseRequestLine_def)
qed

lemma cuts_header_lines:
  "\<forall>l \<in> set ls. CHR 0x0D \<notin> set l \<Longrightarrow> length ls < k \<Longrightarrow> cuts k crlf (header_lines ls) = ls @ [[], []]"
proof (induction ls arbitrary: k)
  case Nil
  then obtain j where "k = Suc j" by (cases k) auto
  moreover have "cut crlf crlf = Some ([], [])" "cut crlf [] = None" by code_simp+
  moreover have "cuts j crlf [] = [[]]" using calculation(3) by (cases j) simp_all
  ultimately show ?case by (simp add: header_lines_def)
next
  case (Cons l ls)
  then obtain j where k: "k = Suc j" by (cases k) auto
  have "cut crlf (header_lines (l # ls)) = Some (l, header_lines ls)"
    using cut_crlf [of "CHR 0x0D" l "CHR 0x0A"] Cons.prems(1) by (simp add: header_lines_Cons crlf_def)
  with Cons k show ?case by simp
qed

lemma first_host_append: "first_host (ls @ [[], []]) = first_host ls"
  by (induction ls) (simp_all add: HasPrefix_def)

lemma length_header_lines: "length ls < length (header_lines ls)"
  by (induction ls) (simp_all add: header_lines_def crlf_def)

lemma ExtractHost_lines: "\<forall>l \<in> set ls. CHR 0x0D \<notin> set l \<Longrightarrow> ExtractHost (header_lines ls) = first_host ls"
  using cuts_header_lines [OF _ length_header_lines [of ls]] by (simp add: ExtractHost_def Split_def first_host_append)

text \<open>The part of the handler before the decision: the whole head is read, and what the reader takes along.\<close>

lemma read_head:
  assumes "conn_can_send c" "[] \<notin> set (rx c)" "\<forall>l \<in> set ls. header_line l"
    and "rx c = pre @ (s1 @ s2) # post" "s1 \<noteq> []" "concat pre @ s1 = string_bytes (header_lines ls)"
  obtains b where "read_request conn_read [] (NewReader c) = Some (b, Inr (header_lines ls))"
    "after_exchange (length (header_lines ls)) s2 post c [] (bf_src b)"
proof -
  let ?k = "length post" and ?r = "bytes_string s2" and ?q = "length (header_lines ls) + length s2 \<le> bf_size"
  have h: "conn_head ?k c = string_bytes (header_lines ls @ ?r)"
    using conn_head_start [OF assms(4,1,2)] assms(6) by (simp add: append_assoc [symmetric] del: append_assoc)
  then have q: "?q \<longrightarrow> length (conn_head ?k c) \<le> bf_size \<and> whole_segments (rx c) c"
    by (simp add: whole_segments_def)
  from tcpl.read_request_lines [OF assms(3) tcpl.holds_new [OF h q], of "[]"] obtain b where
    b: "read_request conn_read [] (NewReader c) = Some (b, Inr (header_lines ls))"
    "tcpl.holds ?k (rx c) b ?r (conn_later ?k c, ?q)" by auto
  from b(2) have "after_exchange (length (header_lines ls)) s2 post c [] (bf_src b)"
    by (intro conn_later_done [OF assms(4,5,1,2), where lost = "bf_buf b"])
      (auto simp: tcpl.holds_def tcpl.fits_whole_def)
  with b(1) that show ?thesis by blast
qed

subsection \<open>Properties\<close>

text \<open>
  C32. A plain request is forwarded without its body and answered: for a request head with a Host header,
  however it is segmented and whatever follows it, the backend of that host (port 80 if none is given) gets
  exactly the head, the client gets exactly what the backend sends until it ends or pauses for five
  seconds, and both connections are closed. Of the body of the request nothing is ever forwarded: segments
  after the one in which the head ends stay unread, and what the buffered reader takes of that segment (all
  of it, if it fits the buffer with the head) is dropped with the reader.
\<close>

theorem proxy_forwards_head:
  assumes "conn_can_send c" "[] \<notin> set (rx c)" "conn_can_send b"
    and "ls = (m @ '' '' @ t @ '' '' @ v) # headers" "CHR '' '' \<notin> set m" "CHR '' '' \<notin> set t" "ToUpper m \<noteq> ''CONNECT''"
    and "\<forall>l \<in> set ls. header_line l \<and> CHR 0x0D \<notin> set l" "first_host ls = h" "h \<noteq> []"
    and "rx c = pre @ (hend @ body) # post" "hend \<noteq> []" "concat pre @ hend = string_bytes (header_lines ls)"
    and "dial (if contains h '':'' then h else h @ '':80'') (10 * 10 ^ 9) = Inr b"
  shows "\<exists>c' b'. handleHTTPProxy dial c = Some (c', Forwarded (if contains h '':'' then h else h @ '':80'') b') \<and>
    tx b' = tx b @ string_bytes (header_lines ls) \<and> tx c' = tx c @ conn_pending b \<and>
    read_ahead (length (header_lines ls)) body post c' \<and> \<not> opened c' \<and> \<not> opened b'"
proof -
  let ?req = "header_lines ls"
  let ?host = "if contains h '':'' then h else h @ '':80''"
  from read_head [OF assms(1,2) _ assms(11-13)] assms(8) obtain br where
    r: "read_request conn_read [] (NewReader c) = Some (br, Inr ?req)"
    "after_exchange (length ?req) body post c [] (bf_src br)" by blast
  have p: "ParseRequestLine ?req = Some (m, t, v)"
    unfolding assms(4) using assms(4,8) by (intro ParseRequestLine_lines [OF assms(5,6)]) simp
  have h: "ExtractHost ?req = h" using ExtractHost_lines [of ls] assms(8,9) by simp
  let ?b = "b\<lparr>tx := tx b @ string_bytes ?req\<rparr>"
  have "opened ?b" using assms(3) by (simp add: conn_can_send_def)
  from read_response_all [OF this, of "[]"] obtain b2 where
    b2: "read_response [] ?b = (b2, conn_pending b)" "tx b2 = tx b @ string_bytes ?req" by auto
  then have f: "ForwardRequest dial (string_bytes ?req) ?host = Inr (conn_close b2, conn_pending b)"
    using assms(3,14) by (simp add: ForwardRequest_def)
  have s: "conn_can_send (bf_src br)" using r(2) by (simp add: after_exchange_def)
  have "handleHTTPProxy dial c = Some (conn_close ((bf_src br)\<lparr>tx := tx (bf_src br) @ conn_pending b\<rparr>),
      Forwarded ?host (conn_close b2))"
    using s unfolding handleHTTPProxy_def r(1) Let_def option.case prod.case sum.case p h f if_not_P [OF assms(7)] if_not_P [OF assms(10)]
    by simp
  with r(2) b2(2) show ?thesis by (auto simp: after_exchange_def conn_close_def read_ahead_def)
qed

text \<open>The first bytes of the body come with the head.\<close>

lemma proxy_forwards_head_witness:
  "\<exists>c' b'. handleHTTPProxy (\<lambda>h _. if h = ''x.y:80'' then Inr (idle_conn\<lparr>rx := [[7]]\<rparr>) else Inl ErrNet)
      (idle_conn\<lparr>rx := [string_bytes (header_lines [''POST / HTTP/1.1'', ''hOST: x.y '']) @ [65], [66]]\<rparr>) =
        Some (c', Forwarded ''x.y:80'' b') \<and> tx c' = [7] \<and> rx c' = [[66]] \<and>
    tx b' = string_bytes (header_lines [''POST / HTTP/1.1'', ''hOST: x.y ''])"
proof -
  let ?ls = "(''POST'' @ '' '' @ ''/'' @ '' '' @ ''HTTP/1.1'') # [''hOST: x.y '']"
  let ?head = "string_bytes (header_lines ?ls)"
  let ?c = "idle_conn\<lparr>rx := [?head @ [65], [66]]\<rparr>"
  let ?b = "idle_conn\<lparr>rx := [[7]]\<rparr>"
  let ?dial = "\<lambda>h (_ :: int). if h = ''x.y:80'' then Inr ?b else Inl ErrNet"
  have ne: "?head \<noteq> []" by (simp add: header_lines_def crlf_def)
  then have c: "conn_can_send ?c" "[] \<notin> set (rx ?c)" "conn_can_send ?b"
    by (auto simp: idle_conn_def conn_can_send_def simp del: string_bytes_Nil)
  have w: "CHR '' '' \<notin> set ''POST''" "CHR '' '' \<notin> set ''/''" by simp_all
  have up: "ToUpper ''POST'' \<noteq> ''CONNECT''" by code_simp
  have "list_all (\<lambda>l. header_line l \<and> CHR 0x0D \<notin> set l) ?ls" by code_simp
  then have l: "\<forall>l \<in> set ?ls. header_line l \<and> CHR 0x0D \<notin> set l" by (simp only: list_all_iff)
  have h: "first_host ?ls = ''x.y''" "''x.y'' \<noteq> ([] :: string)" "\<not> contains ''x.y'' '':''" by code_simp+
  have rx: "rx ?c = [] @ (?head @ [65]) # [[66]]" "concat [] @ ?head = ?head" by simp_all
  have d: "?dial (if contains ''x.y'' '':'' then ''x.y'' else ''x.y'' @ '':80'') (10 * 10 ^ 9) = Inr ?b" using h(3) by simp
  have "length (header_lines ?ls) + length [65 :: byte] \<le> bf_size" by (simp add: header_lines_def crlf_def bf_size_def)
  then have a: "read_ahead (length (header_lines ?ls)) [65] [[66]] c' \<Longrightarrow> rx c' = [[66]]" for c' by (auto simp: read_ahead_def)
  from proxy_forwards_head [where m = "''POST''" and t = "''/''" and v = "''HTTP/1.1''" and headers = "[''hOST: x.y '']" and
      dial = ?dial, OF c refl w up l h(1,2) rx(1) ne rx(2) d] h(3) obtain c' b' where
    r: "handleHTTPProxy ?dial ?c = Some (c', Forwarded ''x.y:80'' b')" "tx b' = tx ?b @ ?head" "tx c' = tx ?c @ conn_pending ?b"
    "read_ahead (length (header_lines ?ls)) [65] [[66]] c'" by auto
  moreover have "tx ?b = []" "conn_pending ?b = [7]" "tx ?c = []" by (simp_all add: idle_conn_def conn_pending_def)
  ultimately show ?thesis using a [OF r(4)] by auto
qed

text \<open>
  C9. A CONNECT whose head ends with a segment opens a complete tunnel: the target is dialed and the client
  is sent the 200 answer; then, when both streams end, wherever the relay between the two stops, the target
  was sent exactly the segments that follow the head, the client exactly the 200 answer and what the target
  sent, and both are closed.
\<close>

theorem proxy_connects:
  assumes "conn_can_send c" "[] \<notin> set (rx c)"
    and "ls = (m @ '' '' @ t @ '' '' @ v) # headers" "CHR '' '' \<notin> set m" "CHR '' '' \<notin> set t" "ToUpper m = ''CONNECT''"
    and "\<forall>l \<in> set ls. header_line l" "CHR 0x0D \<notin> set (m @ t @ v)"
    and "concat (take (length (rx c) - k) (rx c)) = string_bytes (header_lines ls)"
    and "dial t (10 * 10 ^ 9) = Inr b" "conn_can_send b" "rx_end c \<noteq> None" "rx_end b \<noteq> None"
  shows "\<exists>c' r. handleHTTPProxy dial c = Some (c', Tunnel r) \<and> ep_conn (re_a r) = b \<and> ep_conn (re_b r) = c' \<and>
    (\<forall>s. relay_step\<^sup>*\<^sup>* r s \<longrightarrow> (\<exists>s'. relay_step s s') \<or>
      tx (ep_conn (re_a s)) = tx b @ concat (drop (length (rx c) - k) (rx c)) \<and>
      tx (ep_conn (re_b s)) = tx c @ string_bytes (''HTTP/1.1 200 Connection Established'' @ crlf @ crlf) @ conn_pending b \<and>
      \<not> opened (ep_conn (re_a s)) \<and> \<not> opened (ep_conn (re_b s)))"
proof -
  let ?req = "header_lines ls"
  let ?post = "drop (length (rx c) - k) (rx c)"
  have "string_bytes ?req \<noteq> []" by (simp add: header_lines_def crlf_def)
  from head_segments [OF assms(9) this assms(2)] obtain pre s1 where
    "rx c = pre @ (s1 @ []) # ?post" "s1 \<noteq> []" "concat pre @ s1 = string_bytes ?req" by blast
  from read_head [OF assms(1,2,7) this] obtain br where
    r: "read_request conn_read [] (NewReader c) = Some (br, Inr ?req)" "after_exchange (length ?req) [] ?post c [] (bf_src br)"
    by blast
  have p: "ParseRequestLine ?req = Some (m, t, v)"
    unfolding assms(3) by (rule ParseRequestLine_lines [OF assms(4,5,8)])
  have s: "conn_can_send (bf_src br)" using r(2) by (simp add: after_exchange_def)
  let ?c = "(bf_src br)\<lparr>tx := tx (bf_src br) @ status_line ''200 Connection Established''\<rparr>"
  let ?a = "\<lparr>ep_conn = b, ep_tcp = True, ep_fin = False\<rparr>"
  let ?b = "\<lparr>ep_conn = ?c, ep_tcp = True, ep_fin = False\<rparr>"
  have "HandleCONNECT dial t (bf_src br) = (?c, Inr b)" using s assms(10) by (simp add: HandleCONNECT_def)
  then have h: "handleHTTPProxy dial c = Some (?c, Tunnel (relay_start ?a ?b))"
    unfolding handleHTTPProxy_def r(1) Let_def option.case prod.case sum.case p if_P [OF assms(6)] by simp
  have c: "rx ?c = drop (length (rx c) - k) (rx c)" "rx_end ?c \<noteq> None" "conn_can_send ?c"
    "tx ?c = tx c @ string_bytes (''HTTP/1.1 200 Connection Established'' @ crlf @ crlf)"
    using r(2) assms(12) by (auto simp: after_exchange_def read_ahead_boundary conn_can_send_def status_line_def)
  then have pend: "conn_pending ?c = concat (drop (length (rx c) - k) (rx c))"
    by (simp add: conn_pending_def conn_can_send_def)
  have ok: "relay_ok ?a ?b (relay_start ?a ?b)" by (rule relay_start_ok) (use assms(11) c(3) in simp_all)
  have "(\<exists>s'. relay_step s s') \<or>
      tx (ep_conn (re_a s)) = tx b @ concat (drop (length (rx c) - k) (rx c)) \<and>
      tx (ep_conn (re_b s)) = tx ?c @ conn_pending b \<and> \<not> opened (ep_conn (re_a s)) \<and> \<not> opened (ep_conn (re_b s))"
    if "relay_step\<^sup>*\<^sup>* (relay_start ?a ?b) s" for s
    using relay_final [OF relay_steps_ok [OF that ok]] assms(13) c(2) pend by simp
  moreover have "ep_conn (re_a (relay_start ?a ?b)) = b" "ep_conn (re_b (relay_start ?a ?b)) = ?c"
    by (simp_all add: relay_start_def)
  ultimately show ?thesis using h unfolding c(4) by (metis append.assoc)
qed

lemma proxy_connects_witness:
  "\<exists>c' r. handleHTTPProxy (\<lambda>_ _. Inr (idle_conn\<lparr>rx := [[7]], rx_end := Some EOF\<rparr>))
      (idle_conn\<lparr>rx := [string_bytes (header_lines [''connect a:1 HTTP/1.1'']), [22, 3]],
        rx_end := Some EOF\<rparr>) = Some (c', Tunnel r) \<and>
    (\<forall>s. relay_step\<^sup>*\<^sup>* r s \<and> \<not> (\<exists>s'. relay_step s s') \<longrightarrow> tx (ep_conn (re_a s)) = [22, 3] \<and>
      tx (ep_conn (re_b s)) = string_bytes (''HTTP/1.1 200 Connection Established'' @ crlf @ crlf) @ [7])"
proof -
  let ?ls = "(''connect'' @ '' '' @ ''a:1'' @ '' '' @ ''HTTP/1.1'') # []"
  let ?c = "idle_conn\<lparr>rx := [string_bytes (header_lines ?ls), [22, 3]], rx_end := Some EOF\<rparr>"
  let ?b = "idle_conn\<lparr>rx := [[7]], rx_end := Some EOF\<rparr>"
  have "string_bytes (header_lines ?ls) \<noteq> []" by (simp add: header_lines_def crlf_def)
  from this [THEN not_sym] have c: "conn_can_send ?c" "[] \<notin> set (rx ?c)" and e: "conn_can_send ?b" "rx_end ?c \<noteq> None" "rx_end ?b \<noteq> None"
    by (auto simp: idle_conn_def conn_can_send_def simp del: string_bytes_Nil)
  have w: "CHR '' '' \<notin> set ''connect''" "CHR '' '' \<notin> set ''a:1''" "CHR 0x0D \<notin> set (''connect'' @ ''a:1'' @ ''HTTP/1.1'')"
    by simp_all
  have up: "ToUpper ''connect'' = ''CONNECT''" by code_simp
  have "list_all header_line ?ls" by code_simp
  then have l: "\<forall>l \<in> set ?ls. header_line l" by (simp only: list_all_iff)
  have rx: "concat (take (length (rx ?c) - 1) (rx ?c)) = string_bytes (header_lines ?ls)" by simp
  from proxy_connects [where m = "''connect''" and t = "''a:1''" and v = "''HTTP/1.1''" and headers = "[]" and
      dial = "\<lambda>_ _. Inr ?b", OF c refl w(1,2) up l w(3) rx refl e]
  obtain c' r where r: "handleHTTPProxy (\<lambda>_ _. Inr ?b) ?c = Some (c', Tunnel r)"
    "\<forall>s. relay_step\<^sup>*\<^sup>* r s \<longrightarrow> (\<exists>s'. relay_step s s') \<or> tx (ep_conn (re_a s)) = tx ?b @ concat (drop (length (rx ?c) - 1) (rx ?c)) \<and>
      tx (ep_conn (re_b s)) = tx ?c @ string_bytes (''HTTP/1.1 200 Connection Established'' @ crlf @ crlf) @ conn_pending ?b \<and>
      \<not> opened (ep_conn (re_a s)) \<and> \<not> opened (ep_conn (re_b s))" by blast
  moreover have "tx ?b @ concat (drop (length (rx ?c) - 1) (rx ?c)) = [22, 3]" "conn_pending ?b = [7]" "tx ?c = []"
    by (simp_all add: idle_conn_def conn_pending_def)
  ultimately show ?thesis by (intro exI [of _ c'] exI [of _ r]) auto
qed

end
