(* ===== verification/CommandLine.thy ===== *)
theory CommandLine
  imports ServerRun Client
begin

text \<open>
  \<open>go-core/main.go\<close>: what the program does with its flags and its configuration. The flag package has
  parsed the command line; \<open>opts\<close> holds its results. What \<open>server.Run\<close> and \<open>client.Run\<close> start is the
  result of the component models.
\<close>

record opts =
  forceServer :: bool
  forceClient :: bool
  shortS :: bool
  shortC :: bool
  validate :: bool
  showVersion :: bool
  genKey :: bool
  flag_args :: "string list"

text \<open>An exit of the process with a status and the reason, or a running server or client.\<close>

datatype exit_reason = VersionShown | KeyGenerated "io_err + string \<times> string" | Usage | ConfigError config_err | ConfigValid
  | ServerFatal server_err | ClientFatal client_err

datatype ('q, 's) program =
    Exit int exit_reason
  | ServerRunning "'q listener" "'s pools" "server_task list"
  | ClientRunning "client_task set"

text \<open>\<open>log.Fatalf\<close> exits with status 1, and so ends the tasks already started.\<close>

definition run_server :: "('k, 'p, 'q) net_env \<Rightarrow> config \<Rightarrow> string list \<Rightarrow> files \<Rightarrow> files \<times> ('q, 's) program" where
  "run_server env cfg order fs = (case server_start env cfg order fs of
      (fs', Inl e) \<Rightarrow> (fs', Exit 1 (ServerFatal e))
    | (fs', Inr (ln, ps, tasks, Some e)) \<Rightarrow> (fs', Exit 1 (ServerFatal e))
    | (fs', Inr (ln, ps, tasks, None)) \<Rightarrow> (fs', ServerRunning ln ps tasks))"

definition run_client :: "config \<Rightarrow> ('q, 's) program" where
  "run_client cfg = (case client_run cfg of
      Inl e \<Rightarrow> Exit 1 (ClientFatal e)
    | Inr tasks \<Rightarrow> ClientRunning tasks)"

definition main ::
  "(bytes \<Rightarrow> io_err + config) \<Rightarrow> ('k, 'p, 'q) net_env \<Rightarrow> io_err + bytes \<Rightarrow> opts \<Rightarrow> string list \<Rightarrow> files \<Rightarrow>
    files \<times> ('q, 's) program" where
  "main toml_unmarshal env rnd opts order fs =
    (if showVersion opts then (fs, Exit 0 VersionShown)
     else if genKey opts then (fs, Exit 0 (KeyGenerated (GenNoiseKeypair rnd)))
     else case flag_args opts of
       [] \<Rightarrow> (fs, Exit 1 Usage)
     | configPath # _ \<Rightarrow>
         (case Load (read_file fs) toml_unmarshal configPath of
           Inl e \<Rightarrow> (fs, Exit 1 (ConfigError e))
         | Inr cfg \<Rightarrow>
             if validate opts then (fs, Exit 0 ConfigValid)
             else (case DetermineMode cfg (forceServer opts \<or> shortS opts) (forceClient opts \<or> shortC opts) of
                 ModeServer \<Rightarrow> run_server env cfg order fs
               | ModeClient \<Rightarrow> (fs, run_client cfg))))"

subsection \<open>Lemmas\<close>

lemma start_services_err: "start_services listen svcs = (ts, Some e) \<Longrightarrow> \<exists>n a x. e = ListenVisitor n a x"
proof (induction listen svcs arbitrary: ts rule: start_services.induct)
  case (2 listen name svc svcs)
  obtain ts' e' where r: "start_services listen svcs = (ts', e')" by (cases "start_services listen svcs")
  show ?case
  proof (cases "svc_bind_addr svc = [] \<or> effective_type svc = ''udp'' \<or> listen (svc_bind_addr svc) = None")
    case True
    with "2.prems" r have "e' = Some e" by (auto split: if_splits)
    with "2.IH" r True show ?thesis by blast
  next
    case False
    with "2.prems" show ?thesis by auto
  qed
qed simp

lemma server_start_missing:
  assumes "run_server env cfg order fs = (fs', p)"
  shows "p = Exit 1 (ServerFatal NoServerSection) \<longleftrightarrow> Server cfg = None"
  using assms
  by (auto simp: run_server_def server_start_def Let_def
      split: option.splits prod.splits sum.splits dest!: start_services_err)

lemma run_server_result:
  assumes "run_server env cfg order fs = (fs', p)"
  shows "(\<exists>e. p = Exit 1 (ServerFatal e)) \<or> (\<exists>ln ps tasks. p = ServerRunning ln ps tasks)"
  using assms by (auto simp: run_server_def split: prod.splits sum.splits option.splits)

lemma run_client_cases:
  "run_client cfg = (case Client cfg of None \<Rightarrow> Exit 1 (ClientFatal NoClientSection) | Some cc \<Rightarrow> ClientRunning (client_tasks cc))"
  by (simp add: run_client_def client_run_def split: option.split)

subsection \<open>Properties\<close>

text \<open>
  C12. What the program runs: on a configuration that loads, the client runs exactly when its section exists
  and it was forced, or nothing was forced and the file has no server section, and then it runs exactly
  the tasks of that section; in every other case the server is started. The program ends for want of a
  section only when the user forced a mode the file does not have, never by its own choice of a mode.
\<close>

theorem main_runs_section:
  fixes s c cfg prog
  defines "srv \<equiv> s \<or> \<not> c \<and> Server cfg \<noteq> None"
  assumes "\<not> showVersion opts" "\<not> genKey opts" "\<not> validate opts" "flag_args opts = path # rest"
    and "Load (read_file fs) toml_unmarshal path = Inr cfg"
    and "s \<longleftrightarrow> forceServer opts \<or> shortS opts" "c \<longleftrightarrow> forceClient opts \<or> shortC opts"
    and "main toml_unmarshal env rnd opts order fs = (fs', prog)"
  shows "(\<forall>ts. prog = ClientRunning ts \<longleftrightarrow> \<not> srv \<and> (\<exists>cc. Client cfg = Some cc \<and> ts = client_tasks cc)) \<and>
    (prog = Exit 1 (ServerFatal NoServerSection) \<longleftrightarrow> s \<and> Server cfg = None) \<and>
    (prog = Exit 1 (ClientFatal NoClientSection) \<longleftrightarrow> c \<and> \<not> s \<and> Client cfg = None) \<and>
    (srv \<longrightarrow> (fs', prog) = run_server env cfg order fs)"
proof -
  have sec: "Server cfg \<noteq> None \<or> Client cfg \<noteq> None" using Load_Inr [OF assms(6)] by blast
  then have mode: "DetermineMode cfg s c = (if srv then ModeServer else ModeClient)"
    by (auto simp: DetermineMode_def srv_def)
  have m: "(fs', prog) = (if srv then run_server env cfg order fs else (fs, run_client cfg))"
    using assms(2-9) mode by (auto simp: main_def split: if_splits)
  show ?thesis
  proof (cases srv)
    case True
    with m have r: "run_server env cfg order fs = (fs', prog)" by simp
    have x: "Server cfg = None \<Longrightarrow> s" using True by (auto simp: srv_def)
    from run_server_result [OF r] server_start_missing [OF r] True r x show ?thesis by (auto simp: srv_def)
  next
    case False
    with m have "prog = run_client cfg" by simp
    with False sec show ?thesis by (auto simp: run_client_cases srv_def split: option.splits)
  qed
qed

definition sample_opts :: opts where
  "sample_opts = \<lparr>forceServer = False, forceClient = False, shortS = True, shortC = False, validate = False,
     showVersion = False, genKey = False, flag_args = [''c.toml'']\<rparr>"

lemma main_runs_section_witness:
  "main (\<lambda>_. Inr sample_config) sample_net (Inl EOF) sample_opts [] [''c.toml'' \<mapsto> []] =
    ([''c.toml'' \<mapsto> []], Exit 1 (ServerFatal NoServerSection) :: (_, nat) program) \<and> Server sample_config = None"
proof -
  have l: "Load (read_file [''c.toml'' \<mapsto> []]) (\<lambda>_. Inr sample_config) ''c.toml'' = Inr sample_config"
    by (simp add: Load_def read_file_def sample_config_def)
  have opt: "\<not> showVersion sample_opts" "\<not> genKey sample_opts" "\<not> validate sample_opts" "flag_args sample_opts = ''c.toml'' # []"
    "True \<longleftrightarrow> forceServer sample_opts \<or> shortS sample_opts" "False \<longleftrightarrow> forceClient sample_opts \<or> shortC sample_opts"
    by (simp_all add: sample_opts_def)
  have n: "Server sample_config = None" by (simp add: sample_config_def)
  let ?m = "main (\<lambda>_. Inr sample_config) sample_net (Inl EOF) sample_opts [] [''c.toml'' \<mapsto> []] ::
    files \<times> (bytes \<times> bytes, nat) program"
  have r: "?m = (fst ?m, snd ?m)" by (rule prod.collapse [symmetric])
  from main_runs_section [OF opt(1-4) l opt(5,6) r] n
  have "?m = run_server sample_net sample_config [] [''c.toml'' \<mapsto> []]" by simp
  with n show ?thesis by (simp add: run_server_def server_start_def)
qed

end
