(* ===== verification/Spec2Isabelle.thy ===== *)
theory Spec2Isabelle
  imports Protocol Config WSFrame WebSocket Noise Channel NetConn LoadBalancer Udp Server ServerRun AutoCert
    Transport Client Handshake Relay Heartbeat P2P HttpProxy CommandLine
begin

text \<open>
  RatholePro: a reverse tunnel in Go (\<open>src/go-core\<close>). A client behind a NAT dials a server and proves, per
  service, that it knows the service's token; the connection becomes a yamux session. For each visitor of a
  service the server opens a stream on one of the sessions of the service, and the client relays the stream
  to a local address. Control connections may be wrapped in TLS, in a WebSocket or in the program's own
  ``noise'' layer; UDP services carry their datagrams as frames on a single stream.

  \<^bold>\<open>The foundation.\<close> \<open>GoPrelude\<close> has bytes, big-endian numbers, 64-bit arithmetic and the error-or-result
  monad \<open>io\<close>; \<open>GoNet\<close> a \<open>net.Conn\<close>: segments still to arrive, how the stream ends (\<open>rx_end = None\<close>: the peer
  stays silent and a read blocks for ever, the value \<open>None\<close> of a reader), what was sent, a bound on what the
  peer takes, and \<open>io.ReadFull\<close>. Its locales \<open>stream_reader\<close> and \<open>stream_writer\<close> are the contracts of \<open>Read\<close> and
  \<open>Write\<close> that the codecs are proved against; \<open>Channel\<close> and \<open>NetConn\<close> extend them to the connections a
  session can run on (TCP, WebSocket and noise), each by an interpretation. \<open>GoText\<close>, \<open>GoStrings\<close>, \<open>GoJson\<close>,
  \<open>GoHash\<close>, \<open>GoBase64\<close> and \<open>GoBufio\<close> are the parts of the standard library the code leans on: UTF-8 and
  decimal text, the string functions, the JSON text of structs, SHA-256 and SHA-1, Base64, and
  \<open>bufio.Reader\<close> with its buffer of 4096 bytes.

  \<^bold>\<open>The components.\<close>
  \<^item> \<open>Protocol\<close> (\<open>protocol/protocol.go\<close>): messages as records, their JSON, \<open>WriteMessage\<close> and \<open>ReadMessage\<close>. The
    specification \<open>parse_message\<close> reads a byte list; \<open>ReadMessage\<close> implements it on every segmentation, errors
    included, and is the inverse of \<open>WriteMessage\<close>.
  \<^item> \<open>Config\<close> (\<open>config/config.go\<close>) and \<open>CommandLine\<close> (\<open>main.go\<close>): the configuration, the choice of the side to run,
    every exit of the program.
  \<^item> \<open>WSFrame\<close> (\<open>transport/wsframe.go\<close>) and \<open>WebSocket\<close> (\<open>transport/websocket.go\<close>): framing as a refinement of a
    scan of the raw bytes, transparency of the layer, and the HTTP exchange of the upgrade, which agrees on
    both sides and returns on every stream that ends. Later bytes in the segment in which the exchange ends
    go with the buffered reader (\<open>read_ahead\<close> of \<open>GoBufio\<close> says which); later segments do not.
  \<^item> \<open>Noise\<close> (\<open>transport/noise.go\<close>): key agreement, data, and what the placeholder cryptography means.
  \<^item> \<open>AutoCert\<close> (\<open>transport/autocert.go\<close>) and \<open>Transport\<close> (\<open>transport/transport.go\<close>): which files, listeners and
    connections each configuration gives; \<open>EnsureCert\<close> is stable once it has succeeded.
  \<^item> \<open>Server\<close> and \<open>ServerRun\<close> (\<open>server/server.go\<close>): pools, authentication, sessions and visitors as a step relation
    over a world of connections, whose invariant \<open>world_ok\<close> carries the safety of the server; the start of
    the services and the accept loop.
  \<^item> \<open>Client\<close> (\<open>client/client.go\<close>): authentication, dialing, session attempts, tasks and retry intervals.
  \<^item> \<open>Handshake\<close>: both ends together. On every transport the client returns the decision the server took.
  \<^item> \<open>Relay\<close> (\<open>relay/relay.go\<close>): both copying goroutines as a step relation, with the invariant \<open>relay_ok\<close> and a
    measure: every run ends, with both streams complete.
  \<^item> \<open>Udp\<close> (\<open>udp/udp.go\<close>), \<open>LoadBalancer\<close> (\<open>loadbalancer/loadbalancer.go\<close>), \<open>Heartbeat\<close> (\<open>heartbeat/heartbeat.go\<close>), \<open>P2P\<close>
    (\<open>p2p/p2p.go\<close>) and \<open>HttpProxy\<close> (\<open>httpproxy/httpproxy.go\<close>).

  \<^bold>\<open>Conventions.\<close> An operation keeps the name it has in Go; a method has the short name of its receiver as a
  prefix (\<open>ws_read\<close>, \<open>nz_write\<close>, \<open>pool_pick\<close>, \<open>lb_new\<close>). An error is a value of the component's error type, with
  the text of the code where it is observed. Randomness, the clock, the order in which Go ranges over a
  map, dialing and listening are arguments. A loop that can block for ever is a \<open>partial_function\<close>, whose
  \<open>None\<close> is not to return, so that a theorem which says it returns says so; there is no fuel. Goroutines that
  share state are step relations whose steps are the atomic actions of the code: one access to an atomic
  counter (\<open>lb_step\<close>), at most one use of one pool's lock (\<open>srv_step\<close>), one round of a copy (\<open>relay_step\<close>).

  \<^bold>\<open>Bounds.\<close> The integers that can wrap keep their width: the 64-bit counters and durations of the load
  balancer (where \<open>int\<close> is taken as 64 bits wide, which it is not on the 32-bit ARM and MIPS targets), the
  client and the certificates, the 16-bit lengths of noise, UDP and the address exchange, the
  32-bit length of a message. Buffers have the sizes of the code: 32 KiB in a relay, 65535 bytes for a datagram,
  8192 for an HTTP answer, 256 for a STUN response.

  \<^bold>\<open>Not modelled.\<close> yamux and the TOML parser are third-party code and so parameters: a session is a value of
  a type variable, with what opening and accepting streams gives. The encodings and the cryptography of
  \<open>crypto/x509\<close>, \<open>crypto/tls\<close> and \<open>encoding/pem\<close> are an environment (\<open>cert_env\<close>, \<open>net_env\<close>), as is DNS. Log lines,
  \<open>SetNoDelay\<close>, \<open>LocalAddr\<close> and the like change no state the program reads. Data races are outside the step
  relations, which interleave at the code's locks, atomics and calls. \<open>install.sh\<close> and the sample
  configurations are not Go code.
\<close>

end
